(* ===== verification/Prelude.thy ===== *)
theory Prelude
  imports Main "HOL-Library.Word" "HOL-Library.List_Lexorder" "HOL-Library.Char_ord"
    "HOL-Library.Product_Lexorder" "HOL-Library.AList" "HOL-Library.Multiset"
begin

text \<open>
  Shared vocabulary of the development: Go strings and byte slices, 64-bit integers, the
  instants and durations of package \<open>time\<close>, the functions of package \<open>strings\<close> that the agent
  calls, and the insertion-sort reading of \<open>sort.Slice\<close> / \<open>sort.SliceStable\<close> together with the
  contract under which it is the library's stable \<open>sort_key\<close>.

  A Go string is a \<open>char list\<close>; a character is one byte, as in Go.
\<close>

named_theorems go_strings
named_theorems store_simps
named_theorems time_simps

section \<open>Names for Go types\<close>

type_synonym bytes = string
type_synonym uint64 = "64 word"

text \<open>
  \<open>int64\<close> arithmetic that the code multiplies or subtracts without a check is wrapped to two's
  complement; \<open>time.Time.Sub\<close> saturates instead.
\<close>

definition max_int64 :: int where "max_int64 = 9223372036854775807"
definition min_int64 :: int where "min_int64 = -9223372036854775808"

definition wrap64 :: "int \<Rightarrow> int" where
  "wrap64 x = (x + 9223372036854775808) mod 18446744073709551616 - 9223372036854775808"

definition sat64 :: "int \<Rightarrow> int" where
  "sat64 x = max min_int64 (min max_int64 x)"

lemma wrap64_id: "min_int64 \<le> x \<Longrightarrow> x \<le> max_int64 \<Longrightarrow> wrap64 x = x"
  by (simp add: wrap64_def min_int64_def max_int64_def)

lemma wrap64_range: "min_int64 \<le> wrap64 x \<and> wrap64 x \<le> max_int64"
proof -
  have "0 \<le> (x + 9223372036854775808) mod 18446744073709551616"
    and "(x + 9223372036854775808) mod 18446744073709551616 < (18446744073709551616 :: int)"
    by simp_all
  then show ?thesis unfolding wrap64_def min_int64_def max_int64_def by linarith
qed

section \<open>Instants and durations\<close>

text \<open>
  \<open>time.Time\<close> as nanoseconds since the zero time (year 1): \<open>IsZero\<close> is the instant 0. The
  wall-clock comparison \<open>After\<close> is the linear order of the type.
\<close>

datatype go_time = Time (nanos: int)

instantiation go_time :: linorder
begin

definition less_eq_go_time :: "go_time \<Rightarrow> go_time \<Rightarrow> bool" where
  "less_eq_go_time t u = (nanos t \<le> nanos u)"

definition less_go_time :: "go_time \<Rightarrow> go_time \<Rightarrow> bool" where
  "less_go_time t u = (nanos t < nanos u)"

instance
  by intro_classes (auto simp: less_eq_go_time_def less_go_time_def go_time.expand)

end

lemmas go_time_order [time_simps] = less_eq_go_time_def less_go_time_def

definition zero_time :: go_time where "zero_time = Time 0"

definition IsZero :: "go_time \<Rightarrow> bool" where "IsZero t = (t = zero_time)"

definition After :: "go_time \<Rightarrow> go_time \<Rightarrow> bool" where "After t u = (u < t)"

type_synonym duration = int

definition second :: duration where "second = 1000000000"
definition minute :: duration where "minute = 60 * second"
definition hour :: duration where "hour = 60 * minute"

definition time_Sub :: "go_time \<Rightarrow> go_time \<Rightarrow> duration" where
  "time_Sub t u = sat64 (nanos t - nanos u)"

definition time_Add :: "go_time \<Rightarrow> duration \<Rightarrow> go_time" where
  "time_Add t d = Time (nanos t + d)"

text \<open>Seconds of the Unix epoch: 1 January 1970 is 62135596800 seconds after the zero time.\<close>

definition time_Unix :: "go_time \<Rightarrow> int" where
  "time_Unix t = nanos t div 1000000000 - 62135596800"

definition unix_time :: "int \<Rightarrow> int \<Rightarrow> go_time" where
  "unix_time s n = Time ((s + 62135596800) * 1000000000 + n)"

lemma After_irrefl [simp]: "\<not> After t t"
  by (simp add: After_def)

lemma time_Sub_self [simp]: "time_Sub t t = 0"
  by (simp add: time_Sub_def sat64_def min_int64_def max_int64_def)

lemma time_Sub_exact:
  "min_int64 \<le> nanos t - nanos u \<Longrightarrow> nanos t - nanos u \<le> max_int64 \<Longrightarrow>
   time_Sub t u = nanos t - nanos u"
  by (simp add: time_Sub_def sat64_def)

lemma time_Unix_unix_time: "0 \<le> n \<Longrightarrow> n < 1000000000 \<Longrightarrow> time_Unix (unix_time s n) = s"
  by (simp add: time_Unix_def unix_time_def)

lemma time_Unix_mono: "t \<le> u \<Longrightarrow> time_Unix t \<le> time_Unix u"
  by (simp add: time_Unix_def less_eq_go_time_def zdiv_mono1)

section \<open>Package strings\<close>

definition HasPrefix :: "string \<Rightarrow> string \<Rightarrow> bool" where
  "HasPrefix s p = (take (length p) s = p)"

definition HasSuffix :: "string \<Rightarrow> string \<Rightarrow> bool" where
  "HasSuffix s p = (length p \<le> length s \<and> drop (length s - length p) s = p)"

fun Contains :: "string \<Rightarrow> string \<Rightarrow> bool" where
  "Contains [] p = (p = [])"
| "Contains (c # s) p = (HasPrefix (c # s) p \<or> Contains s p)"

definition lower_char :: "char \<Rightarrow> char" where
  "lower_char c = (let n = of_char c :: nat in if 65 \<le> n \<and> n \<le> 90 then char_of (n + 32) else c)"

definition ToLower :: "string \<Rightarrow> string" where "ToLower s = map lower_char s"

definition upper_char :: "char \<Rightarrow> char" where
  "upper_char c = (let n = of_char c :: nat in if 97 \<le> n \<and> n \<le> 122 then char_of (n - 32) else c)"

definition ToUpper :: "string \<Rightarrow> string" where "ToUpper s = map upper_char s"

text \<open>ASCII white space of \<open>unicode.IsSpace\<close>: tab, newline, vertical tab, form feed, return, space.\<close>

definition is_space :: "char \<Rightarrow> bool" where
  "is_space c = (let n = of_char c :: nat in (9 \<le> n \<and> n \<le> 13) \<or> n = 32)"

definition TrimLeft_space :: "string \<Rightarrow> string" where
  "TrimLeft_space s = dropWhile is_space s"

definition TrimSpace :: "string \<Rightarrow> string" where
  "TrimSpace s = rev (dropWhile is_space (rev (dropWhile is_space s)))"

definition TrimRight :: "string \<Rightarrow> char \<Rightarrow> string" where
  "TrimRight s c = rev (dropWhile (\<lambda>d. d = c) (rev s))"

text \<open>\<open>strings.Split\<close> on a one-byte separator: always at least one field.\<close>

fun split_char :: "char \<Rightarrow> string \<Rightarrow> string list" where
  "split_char sep [] = [[]]"
| "split_char sep (c # s) =
     (if c = sep then [] # split_char sep s
      else (case split_char sep s of [] \<Rightarrow> [[c]] | f # fs \<Rightarrow> (c # f) # fs))"

fun join_with :: "string \<Rightarrow> string list \<Rightarrow> string" where
  "join_with sep [] = []"
| "join_with sep [x] = x"
| "join_with sep (x # y # xs) = x @ sep @ join_with sep (y # xs)"

text \<open>\<open>strings.Fields\<close>: the maximal runs of non-space characters.\<close>

fun Fields_aux :: "string \<Rightarrow> string \<Rightarrow> string list" where
  "Fields_aux cur [] = (if cur = [] then [] else [rev cur])"
| "Fields_aux cur (c # s) =
     (if is_space c then (if cur = [] then Fields_aux [] s else rev cur # Fields_aux [] s)
      else Fields_aux (c # cur) s)"

definition Fields :: "string \<Rightarrow> string list" where "Fields s = Fields_aux [] s"

text \<open>\<open>strings.Count\<close> for a non-empty pattern counts the non-overlapping occurrences.\<close>

fun Count_aux :: "nat \<Rightarrow> string \<Rightarrow> string \<Rightarrow> nat" where
  "Count_aux skip [] p = 0"
| "Count_aux (Suc k) (c # s) p = Count_aux k s p"
| "Count_aux 0 (c # s) p =
     (if HasPrefix (c # s) p then Suc (Count_aux (length p - 1) s p) else Count_aux 0 s p)"

definition Count :: "string \<Rightarrow> string \<Rightarrow> nat" where "Count s p = Count_aux 0 s p"

text \<open>\<open>strings.ReplaceAll(s, "\r\n", "\n")\<close>.\<close>

fun crlf_to_lf :: "string \<Rightarrow> string" where
  "crlf_to_lf (c # d # s) =
     (if c = CHR 0x0D \<and> d = CHR 0x0A then CHR 0x0A # crlf_to_lf s else c # crlf_to_lf (d # s))"
| "crlf_to_lf s = s"

lemma HasPrefix_append [simp]: "HasPrefix (p @ s) p"
  by (simp add: HasPrefix_def)

lemma HasPrefix_iff [go_strings]: "HasPrefix s p \<longleftrightarrow> (\<exists>r. s = p @ r)"
  by (auto simp: HasPrefix_def) (metis append_take_drop_id)

lemma HasSuffix_iff [go_strings]: "HasSuffix s p \<longleftrightarrow> (\<exists>r. s = r @ p)"
  by (auto simp: HasSuffix_def) (metis append_take_drop_id)

lemma Contains_iff [go_strings]: "Contains s p \<longleftrightarrow> (\<exists>a b. s = a @ p @ b)"
proof (induction s)
  case Nil
  then show ?case by auto
next
  case (Cons c s)
  show ?case (is "_ \<longleftrightarrow> ?R")
  proof
    assume "Contains (c # s) p"
    then consider "HasPrefix (c # s) p" | "Contains s p" by auto
    then show ?R
    proof cases
      case 1
      then show ?thesis unfolding HasPrefix_iff by (metis append_Nil)
    next
      case 2
      then show ?thesis unfolding Cons.IH by (metis append_Cons)
    qed
  next
    assume ?R
    then obtain a b where ab: "c # s = a @ p @ b" by blast
    show "Contains (c # s) p"
    proof (cases a)
      case Nil
      with ab have "HasPrefix (c # s) p" unfolding HasPrefix_iff by auto
      then show ?thesis by simp
    next
      case (Cons x a')
      with ab have "s = a' @ p @ b" by simp
      with Cons.IH show ?thesis by auto
    qed
  qed
qed

lemma Contains_append: "Contains s p \<Longrightarrow> Contains (a @ s @ b) p"
  unfolding Contains_iff by (metis append.assoc)

lemma split_char_not_Nil [simp]: "split_char sep s \<noteq> []"
  by (induction s) (auto split: list.splits)

lemma split_char_no_sep: "l \<in> set (split_char sep s) \<Longrightarrow> sep \<notin> set l"
  by (induction s arbitrary: l) (auto split: if_splits list.splits)

lemma join_with_Cons_char: "join_with sep ((c # a) # ls) = c # join_with sep (a # ls)"
  by (cases ls) auto

lemma join_with_Nil_Cons: "ls \<noteq> [] \<Longrightarrow> join_with sep ([] # ls) = sep @ join_with sep ls"
  by (cases ls) auto

lemma split_char_join: "join_with [sep] (split_char sep s) = s"
  by (induction s) (auto split: list.splits simp: join_with_Cons_char join_with_Nil_Cons)

lemma split_char_single: "sep \<notin> set l \<Longrightarrow> split_char sep l = [l]"
  by (induction l) auto

lemma split_char_append:
  "sep \<notin> set l \<Longrightarrow> split_char sep (l @ sep # s) = l # split_char sep s"
  by (induction l) auto

lemma split_char_join_with:
  "ls \<noteq> [] \<Longrightarrow> (\<And>l. l \<in> set ls \<Longrightarrow> sep \<notin> set l) \<Longrightarrow>
   split_char sep (join_with [sep] ls) = ls"
proof (induction ls)
  case Nil
  then show ?case by simp
next
  case (Cons x xs)
  then show ?case
    by (cases xs) (simp_all add: split_char_single split_char_append)
qed

lemma split_char_at: "split_char sep (a @ sep # b) = split_char sep a @ split_char sep b"
  by (induction a) (auto split: list.splits)

lemma split_char_chars: "l \<in> set (split_char sep s) \<Longrightarrow> set l \<subseteq> set s"
  by (induction s arbitrary: l) (fastforce split: if_splits list.splits)+

lemma split_char_lines:
  "(\<And>l. l \<in> set ls \<Longrightarrow> sep \<notin> set l) \<Longrightarrow>
   split_char sep (concat (map (\<lambda>l. l @ [sep]) ls)) = ls @ [[]]"
  by (induction ls) (auto simp: split_char_at split_char_single)

lemma join_with_chars: "set (join_with sep ls) \<subseteq> set sep \<union> (\<Union>l \<in> set ls. set l)"
  by (induction sep ls rule: join_with.induct) auto

lemma join_with_snoc: "ls \<noteq> [] \<Longrightarrow> join_with sep (ls @ [l]) = join_with sep ls @ sep @ l"
  by (induction sep ls rule: join_with.induct) auto

lemma TrimSpace_Nil [simp]: "TrimSpace [] = []"
  by (simp add: TrimSpace_def)

lemma TrimSpace_snoc: "is_space c \<Longrightarrow> TrimSpace (s @ [c]) = TrimSpace s"
proof (cases "\<forall>x \<in> set s. is_space x")
  case True
  then show "is_space c \<Longrightarrow> ?thesis" by (auto simp: TrimSpace_def dropWhile_append dest: set_dropWhileD)
next
  case False
  then show "is_space c \<Longrightarrow> ?thesis" by (auto simp: TrimSpace_def dropWhile_append)
qed

lemma TrimSpace_idem [simp]: "TrimSpace (TrimSpace s) = TrimSpace s"
proof -
  have d: "dropWhile is_space (rev (dropWhile is_space (rev t))) = rev (dropWhile is_space (rev t))"
    if "t = [] \<or> \<not> is_space (hd t)" for t
  proof (cases "rev (dropWhile is_space (rev t))")
    case (Cons x xs)
    then obtain ys where "t = x # ys"
      by (metis append_Cons rev_append rev_rev_ident takeWhile_dropWhile_id)
    with that have "\<not> is_space x" by simp
    with Cons show ?thesis by simp
  next
    case Nil
    then show ?thesis by (metis dropWhile.simps(1))
  qed
  have "dropWhile is_space s = [] \<or> \<not> is_space (hd (dropWhile is_space s))"
    using hd_dropWhile[of is_space s] by (auto simp: dropWhile_eq_Nil_conv)
  from d[OF this] show ?thesis by (simp add: TrimSpace_def)
qed

lemma dropWhile_idem2: "dropWhile P (dropWhile P xs) = dropWhile P xs"
  by (induction xs) auto

section \<open>Sorting\<close>

text \<open>
  \<open>sort.SliceStable(xs, less)\<close> as insertion sort on a comparison function. For lists of at most
  twelve elements the library itself sorts by insertion; for longer ones its result is determined
  by stability whenever \<open>less\<close> compares a key, which is what the contract below asks for.
\<close>

fun insert_by :: "('a \<Rightarrow> 'a \<Rightarrow> bool) \<Rightarrow> 'a \<Rightarrow> 'a list \<Rightarrow> 'a list" where
  "insert_by lt x [] = [x]"
| "insert_by lt x (y # ys) = (if lt y x then y # insert_by lt x ys else x # y # ys)"

definition SliceStable :: "('a \<Rightarrow> 'a \<Rightarrow> bool) \<Rightarrow> 'a list \<Rightarrow> 'a list" where
  "SliceStable lt xs = foldr (insert_by lt) xs []"

lemma set_insert_by [simp]: "set (insert_by lt x ys) = insert x (set ys)"
  by (induction ys) auto

lemma set_SliceStable [simp]: "set (SliceStable lt xs) = set xs"
  by (induction xs) (auto simp: SliceStable_def)

text \<open>
  The contract of a comparison function: on the slices it is called with it compares a key of a
  linearly ordered type.
\<close>

locale sort_contract =
  fixes lt :: "'a \<Rightarrow> 'a \<Rightarrow> bool"
    and key :: "'a \<Rightarrow> 'k::linorder"
    and ok :: "'a list \<Rightarrow> bool"
  assumes ok_Cons: "ok (x # xs) \<Longrightarrow> ok xs"
    and less_key: "ok (x # xs) \<Longrightarrow> y \<in> set xs \<Longrightarrow> lt y x \<longleftrightarrow> key y < key x"
begin

lemma insert_by_insort:
  "(\<And>y. y \<in> set ys \<Longrightarrow> lt y x \<longleftrightarrow> key y < key x) \<Longrightarrow> insert_by lt x ys = insort_key key x ys"
  by (induction ys) (auto simp: not_less)

lemma SliceStable_sort_key: "ok xs \<Longrightarrow> SliceStable lt xs = sort_key key xs"
proof (induction xs)
  case Nil
  then show ?case by (simp add: SliceStable_def)
next
  case (Cons x xs)
  then have IH: "foldr (insert_by lt) xs [] = foldr (insort_key key) xs []"
    by (simp add: SliceStable_def sort_key_def ok_Cons)
  have "insert_by lt x (foldr (insert_by lt) xs []) =
      insort_key key x (foldr (insert_by lt) xs [])"
  proof (rule insert_by_insort)
    fix y
    assume "y \<in> set (foldr (insert_by lt) xs [])"
    then have y: "y \<in> set xs" using set_SliceStable[of lt xs] by (simp add: SliceStable_def)
    from Cons.prems y show "lt y x \<longleftrightarrow> key y < key x" by (rule less_key)
  qed
  with IH show ?case by (simp add: SliceStable_def sort_key_def)
qed

lemma SliceStable_sorted: "ok xs \<Longrightarrow> sorted (map key (SliceStable lt xs))"
  by (simp add: SliceStable_sort_key)

lemma SliceStable_mset: "ok xs \<Longrightarrow> mset (SliceStable lt xs) = mset xs"
  by (simp add: SliceStable_sort_key)

lemma SliceStable_hd:
  assumes "ok xs" and "xs \<noteq> []"
  shows "hd (SliceStable lt xs) \<in> set xs"
    and "\<And>x. x \<in> set xs \<Longrightarrow> key (hd (SliceStable lt xs)) \<le> key x"
proof -
  have s: "SliceStable lt xs = sort_key key xs" by (rule SliceStable_sort_key[OF assms(1)])
  have ne: "sort_key key xs \<noteq> []" using assms(2) by (metis mset_sort mset_zero_iff)
  then show "hd (SliceStable lt xs) \<in> set xs" unfolding s by (metis hd_in_set set_sort)
  fix x
  assume "x \<in> set xs"
  then have x: "x \<in> set (sort_key key xs)" by simp
  have "sorted (map key (sort_key key xs))" by simp
  with ne x show "key (hd (SliceStable lt xs)) \<le> key x"
    unfolding s by (cases "sort_key key xs") auto
qed

end

section \<open>Generic list facts\<close>

lemma distinct_map_fst_filter: "distinct (map fst xs) \<Longrightarrow> distinct (map fst (filter P xs))"
  by (induction xs) auto

lemma map_of_SomeI: "distinct (map fst xs) \<Longrightarrow> (k, v) \<in> set xs \<Longrightarrow> map_of xs k = Some v"
  by simp

lemma sorted_key_unique:
  fixes key :: "'a \<Rightarrow> 'k::linorder"
  assumes m: "mset xs = mset ys" and d: "distinct (map key xs)"
  shows "sort_key key xs = sort_key key ys"
proof (rule properties_for_sort_key)
  show "mset (sort_key key ys) = mset xs" using m by simp
  have "inj_on key (set xs)" using d by (simp add: distinct_map)
  then have i: "inj_on key (set ys)" using m by (metis mset_eq_setD)
  have e: "filter (\<lambda>x. key k = key x) zs = filter (\<lambda>x. x = k) zs"
    if "set zs \<subseteq> set ys" "k \<in> set ys" for zs k
    using that i by (intro filter_cong refl) (auto simp: inj_on_def subset_iff)
  have "distinct xs" using d by (simp add: distinct_map)
  then have d': "distinct (sort_key key ys)" "distinct xs"
    using m by (metis distinct_count_atmost_1 mset_eq_setD mset_sort, simp)
  show "filter (\<lambda>x. key k = key x) (sort_key key ys) = filter (\<lambda>x. key k = key x) xs"
    if "k \<in> set (sort_key key ys)" for k
  proof -
    have k: "k \<in> set ys" and kx: "k \<in> set xs" using that m by (auto dest: mset_eq_setD)
    have sx: "set xs \<subseteq> set ys" using m by (metis mset_eq_setD order_refl)
    have "filter (\<lambda>x. x = k) zs = [k]" if "distinct zs" "k \<in> set zs" for zs
      using that by (induction zs) (auto simp: filter_empty_conv)
    then show ?thesis using e[OF _ k, of "sort_key key ys"] e[OF sx k] d' that kx by simp
  qed
  show "sorted (map key (sort_key key ys))" by simp
qed

end
