(* ===== verification/Encoding.thy ===== *)
theory Encoding
  imports Prelude
begin

text \<open>
  The text encodings of the Go standard library that the agent's signed bytes go through:
  decimal integers and \<open>strconv.ParseUint\<close> / \<open>ParseInt\<close>, lower-case hexadecimal, standard base64,
  the string quoting of \<open>encoding/json\<close> with its HTML escapes, and the positional form of
  \<open>strconv.FormatFloat(v, 'f', -1, 64)\<close>.

  The lemmas of this theory are decodings: each encoding is shown injective, and quoted strings
  and numbers are shown to be uniquely readable from the front of a longer text.
\<close>

named_theorems encoding_inject

section \<open>Decimal digits\<close>

definition digit_char :: "nat \<Rightarrow> char" where
  "digit_char d = char_of (48 + d)"

definition is_digit :: "char \<Rightarrow> bool" where
  "is_digit c = (48 \<le> (of_char c :: nat) \<and> (of_char c :: nat) \<le> 57)"

definition digit_val :: "char \<Rightarrow> nat" where
  "digit_val c = of_char c - 48"

fun nat_dec :: "nat \<Rightarrow> string" where
  "nat_dec n = (if n < 10 then [digit_char n] else nat_dec (n div 10) @ [digit_char (n mod 10)])"

declare nat_dec.simps [simp del]

definition dec_nat :: "string \<Rightarrow> nat" where
  "dec_nat s = foldl (\<lambda>a c. 10 * a + digit_val c) 0 s"

definition int_dec :: "int \<Rightarrow> string" where
  "int_dec i = (if i < 0 then CHR ''-'' # nat_dec (nat (- i)) else nat_dec (nat i))"

lemma digit_val_char [simp]: "d < 10 \<Longrightarrow> digit_val (digit_char d) = d"
  by (simp add: digit_val_def digit_char_def)

lemma is_digit_char [simp]: "d < 10 \<Longrightarrow> is_digit (digit_char d)"
  by (simp add: is_digit_def digit_char_def)

lemma digit_chars:
  "char_of (48 :: nat) = CHR ''0''" "char_of (49 :: nat) = CHR ''1''" "char_of (50 :: nat) = CHR ''2''"
  "char_of (51 :: nat) = CHR ''3''" "char_of (52 :: nat) = CHR ''4''" "char_of (53 :: nat) = CHR ''5''"
  "char_of (54 :: nat) = CHR ''6''" "char_of (55 :: nat) = CHR ''7''" "char_of (56 :: nat) = CHR ''8''"
  "char_of (57 :: nat) = CHR ''9''"
  by code_simp+

lemma nat_dec_digits: "c \<in> set (nat_dec n) \<Longrightarrow> is_digit c"
proof (induction n arbitrary: c rule: nat_dec.induct)
  case (1 n)
  then show ?case
    by (cases "n < 10") (auto simp: nat_dec.simps[of n])
qed

lemma nat_dec_not_Nil [simp]: "nat_dec n \<noteq> []"
  by (subst nat_dec.simps) simp

lemma dec_nat_append: "dec_nat (s @ [c]) = 10 * dec_nat s + digit_val c"
  by (simp add: dec_nat_def)

lemma dec_nat_nat_dec [simp]: "dec_nat (nat_dec n) = n"
proof (induction n rule: nat_dec.induct)
  case (1 n)
  show ?case
  proof (cases "n < 10")
    case True
    then show ?thesis by (simp add: nat_dec.simps[of n] dec_nat_def)
  next
    case False
    then have "nat_dec n = nat_dec (n div 10) @ [digit_char (n mod 10)]"
      by (subst nat_dec.simps) simp
    with 1 False show ?thesis by (simp add: dec_nat_append)
  qed
qed

lemma nat_dec_inject [simp, encoding_inject]: "nat_dec m = nat_dec n \<longleftrightarrow> m = n"
  by (metis dec_nat_nat_dec)

lemma minus_not_digit [simp]: "\<not> is_digit CHR ''-''" and dot_not_digit [simp]: "\<not> is_digit CHR ''.''"
  by (simp_all add: is_digit_def)

lemma nat_dec_no_minus: "nat_dec n \<noteq> CHR ''-'' # s"
  using nat_dec_digits[of "CHR ''-''" n] by auto

lemma int_dec_inject [simp, encoding_inject]: "int_dec i = int_dec j \<longleftrightarrow> i = j"
  by (auto simp: int_dec_def nat_dec_no_minus nat_dec_no_minus[symmetric])

lemma int_dec_not_Nil [simp]: "int_dec i \<noteq> []"
  by (simp add: int_dec_def)

section \<open>strconv.ParseUint and strconv.ParseInt, base 10, 64 bits\<close>

text \<open>
  The value returned with \<open>ErrRange\<close> is the largest integer, the value returned with \<open>ErrSyntax\<close>
  is 0. Digits are consumed from the left, so an overflow is reported before a later bad
  character is looked at.
\<close>

datatype parse_err = ErrSyntax | ErrRange

fun ParseUint_loop :: "nat \<Rightarrow> string \<Rightarrow> nat \<times> parse_err option" where
  "ParseUint_loop n [] = (n, None)"
| "ParseUint_loop n (c # s) =
     (if \<not> is_digit c then (0, Some ErrSyntax)
      else if 1844674407370955162 \<le> n then (18446744073709551615, Some ErrRange)
      else let n1 = n * 10 + digit_val c
           in if 18446744073709551615 < n1 then (18446744073709551615, Some ErrRange)
              else ParseUint_loop n1 s)"

definition ParseUint :: "string \<Rightarrow> nat \<times> parse_err option" where
  "ParseUint s = (if s = [] then (0, Some ErrSyntax) else ParseUint_loop 0 s)"

definition ParseInt :: "string \<Rightarrow> int \<times> parse_err option" where
  "ParseInt s =
     (if s = [] then (0, Some ErrSyntax)
      else
        let neg = (hd s = CHR ''-'');
            s0 = (if hd s = CHR ''-'' \<or> hd s = CHR ''+'' then tl s else s)
        in case ParseUint s0 of
             (_, Some ErrSyntax) \<Rightarrow> (0, Some ErrSyntax)
           | (un, e) \<Rightarrow>
               (if \<not> neg \<and> 9223372036854775808 \<le> un then (9223372036854775807, Some ErrRange)
                else if neg \<and> 9223372036854775808 < un then (-9223372036854775808, Some ErrRange)
                else ((if neg then - int un else int un), e)))"

lemma ParseUint_loop_bound:
  "n \<le> 18446744073709551615 \<Longrightarrow> fst (ParseUint_loop n s) \<le> 18446744073709551615"
  by (induction s arbitrary: n) (auto simp: Let_def)

lemma ParseUint_bound: "fst (ParseUint s) < 18446744073709551616"
  using ParseUint_loop_bound[of 0 s] by (simp add: ParseUint_def)

lemma digit_val_bound: "is_digit c \<Longrightarrow> digit_val c < 10"
  unfolding is_digit_def digit_val_def by linarith

lemma byte_nibbles: "(of_char c :: nat) div 16 < 16" "(of_char c :: nat) mod 16 < 16"
proof -
  have "(of_char c :: nat) < 16 * 16" by simp
  then show "(of_char c :: nat) div 16 < 16" by (rule less_mult_imp_div_less)
  show "(of_char c :: nat) mod 16 < 16" by simp
qed

lemma dec_nat_le_foldl: "n \<le> foldl (\<lambda>a c. 10 * a + digit_val c) n s"
proof (induction s arbitrary: n)
  case Nil
  then show ?case by simp
next
  case (Cons c s)
  have "n \<le> 10 * n + digit_val c" by simp
  also have "\<dots> \<le> foldl (\<lambda>a c. 10 * a + digit_val c) (10 * n + digit_val c) s" by (rule Cons.IH)
  finally show ?case by simp
qed

lemma ParseUint_loop_dec:
  assumes "\<forall>c \<in> set s. is_digit c"
    and "foldl (\<lambda>a c. 10 * a + digit_val c) n s \<le> 18446744073709551615"
  shows "ParseUint_loop n s = (foldl (\<lambda>a c. 10 * a + digit_val c) n s, None)"
  using assms
proof (induction s arbitrary: n)
  case Nil
  then show ?case by simp
next
  case (Cons c s)
  have le: "10 * n + digit_val c \<le> 18446744073709551615"
    using dec_nat_le_foldl[of "10 * n + digit_val c" s] Cons.prems(2) by simp
  have step: "ParseUint_loop n (c # s) = ParseUint_loop (10 * n + digit_val c) s"
    using Cons.prems(1) le by (simp add: Let_def algebra_simps)
  show ?case
    unfolding step using Cons.IH[of "10 * n + digit_val c"] Cons.prems by simp
qed

text \<open>Round trip: the decimal text of a 64-bit value parses back without an error.\<close>

lemma ParseUint_nat_dec:
  "n < 18446744073709551616 \<Longrightarrow> ParseUint (nat_dec n) = (n, None)"
  using ParseUint_loop_dec[of "nat_dec n" 0] nat_dec_digits[of _ n] dec_nat_nat_dec[of n]
  by (auto simp: ParseUint_def dec_nat_def)

section \<open>Hexadecimal\<close>

definition hex_digit :: "nat \<Rightarrow> char" where
  "hex_digit d = (if d < 10 then char_of (48 + d) else char_of (87 + d))"

definition hex_val :: "char \<Rightarrow> nat" where
  "hex_val c = (let n = of_char c :: nat in if n \<le> 57 then n - 48 else n - 87)"

definition hex_byte :: "char \<Rightarrow> string" where
  "hex_byte c = (let n = of_char c :: nat in [hex_digit (n div 16), hex_digit (n mod 16)])"

definition hex_encode :: "bytes \<Rightarrow> string" where
  "hex_encode s = concat (map hex_byte s)"

lemma hex_val_digit [simp]: "d < 16 \<Longrightarrow> hex_val (hex_digit d) = d"
  by (simp add: hex_val_def hex_digit_def Let_def)

lemma hex_byte_decode:
  "char_of (16 * hex_val (hex_byte c ! 0) + hex_val (hex_byte c ! 1)) = c"
proof -
  have "16 * hex_val (hex_byte c ! 0) + hex_val (hex_byte c ! 1) = (of_char c :: nat)"
    using byte_nibbles[of c] by (simp add: hex_byte_def Let_def)
  then show ?thesis by simp
qed

lemma hex_byte_inject [simp]: "hex_byte c = hex_byte d \<longleftrightarrow> c = d"
  by (metis hex_byte_decode)

lemma length_hex_byte [simp]: "length (hex_byte c) = 2"
  by (simp add: hex_byte_def Let_def)

lemma length_hex_encode [simp]: "length (hex_encode s) = 2 * length s"
  by (induction s) (simp_all add: hex_encode_def)

lemma hex_encode_Cons: "hex_encode (c # s) = hex_byte c @ hex_encode s"
  by (simp add: hex_encode_def)

lemma hex_encode_inject [simp, encoding_inject]: "hex_encode s = hex_encode t \<longleftrightarrow> s = t"
proof
  assume eq: "hex_encode s = hex_encode t"
  then have "length s = length t" by (metis length_hex_encode mult_left_cancel zero_neq_numeral)
  then show "s = t" using eq
    by (induction s t rule: list_induct2) (auto simp: hex_encode_Cons append_eq_append_conv)
qed simp

definition is_hex :: "char \<Rightarrow> bool" where
  "is_hex c = (is_digit c \<or> (97 \<le> (of_char c :: nat) \<and> (of_char c :: nat) \<le> 102))"

lemma hex_digit_range: "d < 16 \<Longrightarrow> is_hex (hex_digit d)"
  by (auto simp: hex_digit_def is_digit_def is_hex_def)

lemma hex_encode_chars: "c \<in> set (hex_encode s) \<Longrightarrow> is_hex c"
proof -
  assume "c \<in> set (hex_encode s)"
  then obtain b where b: "c \<in> set (hex_byte b)" by (auto simp: hex_encode_def)
  then show ?thesis
    using hex_digit_range[OF byte_nibbles(1)[of b]] hex_digit_range[OF byte_nibbles(2)[of b]]
    by (auto simp: hex_byte_def Let_def)
qed

section \<open>Standard base64 with padding\<close>

definition b64_char :: "nat \<Rightarrow> char" where
  "b64_char n =
     (if n < 26 then char_of (65 + n) else if n < 52 then char_of (71 + n)
      else if n < 62 then char_of (n - 4) else if n = 62 then CHR ''+'' else CHR ''/'')"

definition b64_val :: "char \<Rightarrow> nat option" where
  "b64_val c =
     (let n = of_char c :: nat in
      if 65 \<le> n \<and> n \<le> 90 then Some (n - 65) else if 97 \<le> n \<and> n \<le> 122 then Some (n - 71)
      else if 48 \<le> n \<and> n \<le> 57 then Some (n + 4) else if n = 43 then Some 62
      else if n = 47 then Some 63 else None)"

fun b64_encode :: "bytes \<Rightarrow> string" where
  "b64_encode [] = []"
| "b64_encode [a] = [b64_char (of_char a div 4), b64_char (of_char a mod 4 * 16), CHR ''='', CHR ''='']"
| "b64_encode [a, b] =
     [b64_char (of_char a div 4), b64_char (of_char a mod 4 * 16 + of_char b div 16),
      b64_char (of_char b mod 16 * 4), CHR ''='']"
| "b64_encode (a # b # c # s) =
     b64_char (of_char a div 4) # b64_char (of_char a mod 4 * 16 + of_char b div 16)
     # b64_char (of_char b mod 16 * 4 + of_char c div 64) # b64_char (of_char c mod 64)
     # b64_encode s"

fun b64_groups :: "string \<Rightarrow> bytes option" where
  "b64_groups [] = Some []"
| "b64_groups (c1 # c2 # c3 # c4 # s) =
     (case (b64_val c1, b64_val c2) of
        (Some v1, Some v2) \<Rightarrow>
          (if c4 = CHR ''='' then
             (if s \<noteq> [] then None
              else if c3 = CHR ''='' then Some [char_of (v1 * 4 + v2 div 16)]
              else (case b64_val c3 of None \<Rightarrow> None
                    | Some v3 \<Rightarrow> Some [char_of (v1 * 4 + v2 div 16),
                                      char_of (v2 mod 16 * 16 + v3 div 4)]))
           else (case (b64_val c3, b64_val c4) of
                   (Some v3, Some v4) \<Rightarrow>
                     map_option (\<lambda>r. char_of (v1 * 4 + v2 div 16)
                                    # char_of (v2 mod 16 * 16 + v3 div 4)
                                    # char_of (v3 mod 4 * 64 + v4) # r) (b64_groups s)
                 | _ \<Rightarrow> None))
      | _ \<Rightarrow> None)"
| "b64_groups _ = None"

text \<open>\<open>base64.StdEncoding.DecodeString\<close> skips carriage returns and newlines; \<open>None\<close> is its error.\<close>

definition b64_decode :: "string \<Rightarrow> bytes option" where
  "b64_decode s = b64_groups (filter (\<lambda>c. c \<noteq> CHR 0x0A \<and> c \<noteq> CHR 0x0D) s)"

lemma b64_val_char [simp]: "n < 64 \<Longrightarrow> b64_val (b64_char n) = Some n"
  by (auto simp: b64_val_def b64_char_def Let_def)

lemma b64_char_noteq:
  "n < 64 \<Longrightarrow> b64_char n \<noteq> CHR ''='' \<and> b64_char n \<noteq> CHR 0x0A \<and> b64_char n \<noteq> CHR 0x0D"
proof -
  assume "n < 64"
  then have v: "b64_val (b64_char n) = Some n" by simp
  have "b64_val CHR ''='' = None" "b64_val CHR 0x0A = None" "b64_val CHR 0x0D = None"
    by (simp_all add: b64_val_def)
  with v show ?thesis by (metis option.distinct(1))
qed

lemma mult_add_div_mod:
  fixes x y k :: nat
  assumes "y < k"
  shows "(x * k + y) div k = x" and "(x * k + y) mod k = y"
  using assms by simp_all

lemma byte_lt: "(of_char a :: nat) < 256"
  by simp

lemma byte_div: "(of_char a :: nat) div 4 < 64" "(of_char a :: nat) div 16 < 16"
  "(of_char a :: nat) div 64 < 4"
  using byte_lt[of a] by (simp_all add: less_mult_imp_div_less)

lemma byte_sextets:
  "(of_char a :: nat) div 4 < 64" "(of_char a :: nat) mod 4 * 16 < 64"
  "(of_char a :: nat) mod 4 * 16 + (of_char b :: nat) div 16 < 64"
  "(of_char b :: nat) mod 16 * 4 < 64"
  "(of_char b :: nat) mod 16 * 4 + (of_char c :: nat) div 64 < 64"
  "(of_char c :: nat) mod 64 < 64"
proof -
  have m: "x mod 4 < 4" "x mod 16 < 16" "x mod 64 < 64" for x :: nat by simp_all
  show "(of_char a :: nat) div 4 < 64" "(of_char c :: nat) mod 64 < 64" by (rule byte_div, rule m)
  show "(of_char a :: nat) mod 4 * 16 < 64" using m(1)[of "of_char a"] by linarith
  show "(of_char b :: nat) mod 16 * 4 < 64" using m(2)[of "of_char b"] by linarith
  show "(of_char a :: nat) mod 4 * 16 + (of_char b :: nat) div 16 < 64"
    using m(1)[of "of_char a"] byte_div(2)[of b] by linarith
  show "(of_char b :: nat) mod 16 * 4 + (of_char c :: nat) div 64 < 64"
    using m(2)[of "of_char b"] byte_div(3)[of c] by linarith
qed

lemma regroup:
  fixes a b c :: nat
  assumes "b div 16 < 16" "c div 64 < 4"
  shows "a div 4 * 4 + (a mod 4 * 16 + b div 16) div 16 = a"
    and "a div 4 * 4 + (a mod 4 * 16) div 16 = a"
    and "(a mod 4 * 16 + b div 16) mod 16 * 16 + (b mod 16 * 4 + c div 64) div 4 = b"
    and "(a mod 4 * 16 + b div 16) mod 16 * 16 + (b mod 16 * 4) div 4 = b"
    and "(b mod 16 * 4 + c div 64) mod 4 * 64 + c mod 64 = c"
  using assms by (simp_all add: mult_add_div_mod)

lemmas b64_no_ctl = byte_sextets[THEN b64_char_noteq]

lemma b64_encode_no_newline:
  "c \<in> set (b64_encode s) \<Longrightarrow> c \<noteq> CHR 0x0A \<and> c \<noteq> CHR 0x0D"
proof (induction s rule: b64_encode.induct)
  case (4 a b d s)
  then show ?case
    using b64_no_ctl(1)[of a] b64_no_ctl(3)[of a b] b64_no_ctl(5)[of b d] b64_no_ctl(6)[of d]
    by auto
next
  case (3 a b)
  then show ?case
    using b64_no_ctl(1)[of a] b64_no_ctl(3)[of a b] b64_no_ctl(4)[of b] by auto
next
  case (2 a)
  then show ?case using b64_no_ctl(1)[of a] b64_no_ctl(2)[of a] by auto
qed simp

lemma b64_group_vals:
  "b64_val (b64_char (of_char a div 4)) = Some (of_char a div 4)"
  "b64_val (b64_char (of_char a mod 4 * 16)) = Some (of_char a mod 4 * 16)"
  "b64_val (b64_char (of_char a mod 4 * 16 + of_char b div 16)) = Some (of_char a mod 4 * 16 + of_char b div 16)"
  "b64_val (b64_char (of_char b mod 16 * 4)) = Some (of_char b mod 16 * 4)"
  "b64_val (b64_char (of_char b mod 16 * 4 + of_char c div 64)) = Some (of_char b mod 16 * 4 + of_char c div 64)"
  "b64_val (b64_char (of_char c mod 64)) = Some (of_char c mod 64)"
  by (rule b64_val_char, rule byte_sextets)+

lemma b64_group_no_pad:
  "b64_char (of_char b mod 16 * 4) \<noteq> CHR ''=''"
  "b64_char (of_char c mod 64) \<noteq> CHR ''=''"
  using b64_char_noteq byte_sextets by blast+

lemma b64_groups_encode: "b64_groups (b64_encode s) = Some s"
proof (induction s rule: b64_encode.induct)
  case 1
  show ?case by simp
next
  case (2 a)
  show ?case
    by (simp only: b64_encode.simps b64_groups.simps b64_group_vals)
      (simp add: regroup byte_div)
next
  case (3 a b)
  show ?case
    by (simp only: b64_encode.simps b64_groups.simps b64_group_vals b64_group_no_pad if_False)
      (simp add: regroup byte_div b64_group_no_pad del: split_paired_All)
next
  case (4 a b c s)
  then show ?case
    by (simp only: b64_encode.simps b64_groups.simps b64_group_vals b64_group_no_pad if_False)
      (simp add: regroup byte_div)
qed

lemma b64_decode_encode [simp]: "b64_decode (b64_encode s) = Some s"
proof -
  have "filter (\<lambda>c. c \<noteq> CHR 0x0A \<and> c \<noteq> CHR 0x0D) (b64_encode s) = b64_encode s"
    using b64_encode_no_newline by (simp add: filter_id_conv)
  then show ?thesis by (simp add: b64_decode_def b64_groups_encode)
qed

section \<open>Cryptographic functions\<close>

text \<open>
  SHA-256 and Ed25519 are parameters: \<open>sha256\<close> gives the digest bytes, \<open>ed25519_sign\<close> the signature
  of a message under a 64-byte private key.
\<close>

record crypto =
  sha256 :: "bytes \<Rightarrow> bytes"
  ed25519_sign :: "bytes \<Rightarrow> bytes \<Rightarrow> bytes"

definition sha256_hex :: "crypto \<Rightarrow> bytes \<Rightarrow> string" where
  "sha256_hex C b = hex_encode (sha256 C b)"

lemma sha256_hex_no_newline: "CHR 0x0A \<notin> set (sha256_hex C b)"
  using hex_encode_chars[of "CHR 0x0A" "sha256 C b"] by (auto simp: sha256_hex_def is_hex_def is_digit_def)

text \<open>Two particular texts that collide.\<close>

definition collide :: "crypto \<Rightarrow> bytes \<Rightarrow> bytes \<Rightarrow> bool" where
  "collide C x y = (x \<noteq> y \<and> sha256 C x = sha256 C y)"

lemma sha256_hex_collide: "sha256_hex C x = sha256_hex C y \<Longrightarrow> x = y \<or> collide C x y"
  by (auto simp: sha256_hex_def collide_def)

end
