(* ===== verification/JsonText.thy ===== *)
theory JsonText
  imports Encoding
begin

text \<open>
  Texts of JSON scalars. \<open>go_quote\<close> is what \<open>json.Marshal\<close> of package \<open>encoding/json\<close> (Go 1.23)
  makes of a string that is valid UTF-8: besides the escapes JSON asks for it escapes the HTML
  characters and the line separators U+2028 and U+2029. \<open>num\<close> holds the numbers of a JSON value:
  an integer as written, or a fraction as its shortest decimal; \<open>float64_num\<close> is the conversion an
  integer undergoes when the text is unmarshalled into an \<open>any\<close>, that is into a \<open>float64\<close>.

  The lemmas give the reading back of a quoted string and of a number from the front of a text,
  and the range of integers that the conversion leaves alone.
\<close>

section \<open>Quoted strings\<close>

definition quote_char :: char where "quote_char = CHR 0x22"
definition backslash :: char where "backslash = CHR 0x5C"

definition esc_byte :: "char \<Rightarrow> string" where
  "esc_byte c =
     (let n = of_char c :: nat in
      if c = quote_char \<or> c = backslash then [backslash, c]
      else if n = 8 then [backslash, CHR ''b''] else if n = 12 then [backslash, CHR ''f'']
      else if n = 10 then [backslash, CHR ''n''] else if n = 13 then [backslash, CHR ''r'']
      else if n = 9 then [backslash, CHR ''t'']
      else if n < 32 \<or> c = CHR ''<'' \<or> c = CHR ''>'' \<or> c = CHR ''&''
        then backslash # ''u00'' @ hex_byte c
      else [c])"

text \<open>The UTF-8 bytes of U+2028 and U+2029.\<close>

definition line_sep :: "char \<Rightarrow> char \<Rightarrow> char \<Rightarrow> bool" where
  "line_sep c d e = (c = CHR 0xE2 \<and> d = CHR 0x80 \<and> (e = CHR 0xA8 \<or> e = CHR 0xA9))"

fun go_escape :: "string \<Rightarrow> string" where
  "go_escape [] = []"
| "go_escape (c # s) =
     (case s of
        d # e # r \<Rightarrow>
          (if line_sep c d e
           then backslash # ''u202'' @ [hex_digit (of_char e mod 16)] @ go_escape r
           else esc_byte c @ go_escape s)
      | _ \<Rightarrow> esc_byte c @ go_escape s)"

declare go_escape.simps(2) [simp del]

lemma go_escape_byte:
  "\<not> (\<exists>d e r. s = d # e # r \<and> line_sep c d e) \<Longrightarrow> go_escape (c # s) = esc_byte c @ go_escape s"
  by (subst go_escape.simps) (auto split: list.split)

lemma go_escape_line:
  "line_sep c d e \<Longrightarrow>
   go_escape (c # d # e # r) = backslash # ''u202'' @ [hex_digit (of_char e mod 16)] @ go_escape r"
  by (subst go_escape.simps) simp

definition go_quote :: "string \<Rightarrow> string" where
  "go_quote s = quote_char # go_escape s @ [quote_char]"

text \<open>Reading a quoted string back: the content up to the closing quote, and the rest.\<close>

definition short_escape :: "char \<Rightarrow> char" where
  "short_escape e =
     (if e = CHR ''b'' then CHR 0x08 else if e = CHR ''f'' then CHR 0x0C
      else if e = CHR ''n'' then CHR 0x0A else if e = CHR ''r'' then CHR 0x0D
      else if e = CHR ''t'' then CHR 0x09 else e)"

definition u_escape :: "char \<Rightarrow> char \<Rightarrow> char \<Rightarrow> char \<Rightarrow> string" where
  "u_escape a b x y =
     (if a = CHR ''2'' then [CHR 0xE2, CHR 0x80, char_of (160 + hex_val y)]
      else [char_of (16 * hex_val x + hex_val y)])"

fun unquote :: "string \<Rightarrow> (string \<times> string) option" where
  "unquote [] = None"
| "unquote (c # r) =
     (if c = quote_char then Some ([], r)
      else if c = backslash then
        (case r of
           [] \<Rightarrow> None
         | e # r' \<Rightarrow>
             if e = CHR ''u'' then
               (case r' of
                  a # b # x # y # r'' \<Rightarrow> map_option (\<lambda>(s, t). (u_escape a b x y @ s, t)) (unquote r'')
                | _ \<Rightarrow> None)
             else map_option (\<lambda>(s, t). (short_escape e # s, t)) (unquote r'))
      else map_option (\<lambda>(s, t). (c # s, t)) (unquote r))"

lemma quote_backslash [simp]: "quote_char \<noteq> backslash" "backslash \<noteq> quote_char"
  by (simp_all add: quote_char_def backslash_def)

lemma of_char_eq_iff: "(of_char c :: nat) = of_char d \<longleftrightarrow> c = d"
  by simp

lemma short_escape_facts:
  "of_char c = (8::nat) \<Longrightarrow> c = CHR 0x08" "of_char c = (12::nat) \<Longrightarrow> c = CHR 0x0C"
  "of_char c = (10::nat) \<Longrightarrow> c = CHR 0x0A" "of_char c = (13::nat) \<Longrightarrow> c = CHR 0x0D"
  "of_char c = (9::nat) \<Longrightarrow> c = CHR 0x09"
  by (simp_all flip: of_char_eq_iff)

lemma unquote_esc_byte:
  "unquote (esc_byte c @ t) = map_option (\<lambda>(s, r). (c # s, r)) (unquote t)"
proof -
  have u: "c \<noteq> CHR ''u''" if "c = quote_char \<or> c = backslash"
    using that by (auto simp: quote_char_def backslash_def)
  have short: "short_escape c = c" if "c = quote_char \<or> c = backslash"
    using that by (auto simp: short_escape_def quote_char_def backslash_def)
  have hx: "unquote (backslash # ''u00'' @ hex_byte c @ t) = map_option (\<lambda>(s, r). (c # s, r)) (unquote t)"
  proof -
    have "u_escape CHR ''0'' CHR ''0'' (hex_byte c ! 0) (hex_byte c ! 1) = [c]"
      by (simp add: u_escape_def hex_byte_decode del: One_nat_def)
    then show ?thesis
      by (simp add: hex_byte_def Let_def)
  qed
  consider "c = quote_char \<or> c = backslash" | "of_char c \<in> {8::nat, 12, 10, 13, 9}"
    | "c \<noteq> quote_char" "c \<noteq> backslash" "of_char c \<notin> {8::nat, 12, 10, 13, 9}"
    by blast
  then show ?thesis
  proof cases
    case 1
    then show ?thesis using u short by (auto simp: esc_byte_def)
  next
    case 2
    then show ?thesis
      by (auto simp: esc_byte_def quote_char_def backslash_def short_escape_def
          dest: short_escape_facts)
  next
    case 3
    then show ?thesis using hx by (auto simp: esc_byte_def Let_def)
  qed
qed

lemma char_168_169: "char_of (168 :: nat) = CHR 0xA8" "char_of (169 :: nat) = CHR 0xA9"
  by code_simp+

lemma unquote_go_escape: "unquote (go_escape s @ quote_char # r) = Some (s, r)"
proof (induction s rule: length_induct)
  case (1 s)
  show ?case
  proof (cases s)
    case Nil
    then show ?thesis by simp
  next
    case c: (Cons c s1)
    show ?thesis
    proof (cases "\<exists>d e s'. s1 = d # e # s' \<and> line_sep c d e")
      case True
      then obtain d e s' where s1: "s1 = d # e # s'" and l: "line_sep c d e" by blast
      have "unquote (go_escape s' @ quote_char # r) = Some (s', r)" using 1 by (simp add: c s1)
      moreover have "char_of (160 + hex_val (hex_digit (of_char e mod 16))) = e"
        using l by (auto simp: line_sep_def char_168_169)
      ultimately show ?thesis
        using go_escape_line[OF l, of s'] l by (simp add: c s1 u_escape_def line_sep_def)
    next
      case False
      then have "go_escape s = esc_byte c @ go_escape s1" unfolding c by (rule go_escape_byte)
      moreover have "unquote (go_escape s1 @ quote_char # r) = Some (s1, r)" using 1 by (simp add: c)
      ultimately show ?thesis by (simp add: c unquote_esc_byte)
    qed
  qed
qed

lemma go_quote_unique:
  "go_quote s @ r = go_quote t @ r' \<Longrightarrow> s = t \<and> r = r'"
proof -
  assume "go_quote s @ r = go_quote t @ r'"
  then have "go_escape s @ quote_char # r = go_escape t @ quote_char # r'" by (simp add: go_quote_def)
  then show ?thesis by (metis unquote_go_escape option.inject prod.inject)
qed

lemma go_quote_inject [simp, encoding_inject]: "go_quote s = go_quote t \<longleftrightarrow> s = t"
  using go_quote_unique[of s "[]" t "[]"] by auto

lemma hd_go_quote: "go_quote s \<noteq> []" "hd (go_quote s @ r) = quote_char"
  by (simp_all add: go_quote_def)

section \<open>Numbers\<close>

text \<open>
  \<open>IntNum i\<close> is an integer literal. \<open>FracNum neg m k\<close> is the decimal fraction \<open>m / 10^k\<close> (negated
  when \<open>neg\<close>), with \<open>0 < k\<close> and a last digit that is not 0: the shortest decimal of a \<open>float64\<close> that is
  not an integer.
\<close>

datatype num = IntNum int | FracNum bool nat nat

definition num_wf :: "num \<Rightarrow> bool" where
  "num_wf n = (case n of IntNum i \<Rightarrow> True | FracNum neg m k \<Rightarrow> 0 < k \<and> m mod 10 \<noteq> 0)"

definition frac_digits :: "nat \<Rightarrow> nat \<Rightarrow> string" where
  "frac_digits m k = replicate (Suc k - length (nat_dec m)) CHR ''0'' @ nat_dec m"

text \<open>\<open>strconv.FormatFloat(v, 'f', -1, 64)\<close>.\<close>

definition num_text :: "num \<Rightarrow> string" where
  "num_text n =
     (case n of
        IntNum i \<Rightarrow> int_dec i
      | FracNum neg m k \<Rightarrow>
          (let d = frac_digits m k; w = length d - k
           in (if neg then ''-'' else []) @ take w d @ CHR ''.'' # drop w d))"

text \<open>
  Rounding of an integer to the nearest \<open>float64\<close>, ties to even: 53 significant bits are kept.
\<close>

fun bit_length :: "nat \<Rightarrow> nat" where
  "bit_length n = (if n = 0 then 0 else Suc (bit_length (n div 2)))"

declare bit_length.simps [simp del]

definition round_even :: "nat \<Rightarrow> nat \<Rightarrow> nat \<Rightarrow> nat \<Rightarrow> nat" where
  "round_even q r h u = (if r < h \<or> (r = h \<and> even q) then q * u else (q + 1) * u)"

definition round_at :: "nat \<Rightarrow> nat \<Rightarrow> nat" where
  "round_at n e = (if e = 0 then n else round_even (n div 2 ^ e) (n mod 2 ^ e) (2 ^ (e - 1)) (2 ^ e))"

definition round53 :: "nat \<Rightarrow> nat" where
  "round53 n = (if n < 2 ^ 53 then n else round_at n (bit_length n - 53))"

text \<open>
  The shortest decimal of an integral \<open>float64\<close> \<open>r\<close>: the multiple of the largest power of ten
  that rounds to \<open>r\<close>, the closer one where both neighbours do.
\<close>

definition closest :: "nat \<Rightarrow> nat \<Rightarrow> nat \<Rightarrow> bool \<Rightarrow> bool \<Rightarrow> nat option" where
  "closest r lo hi lo_ok hi_ok =
     (if lo_ok \<and> hi_ok then Some (if r - lo \<le> hi - r then lo else hi)
      else if lo_ok then Some lo else if hi_ok then Some hi else None)"

definition candidate :: "nat \<Rightarrow> nat \<Rightarrow> nat \<Rightarrow> nat option" where
  "candidate r lo p = closest r lo (lo + p) (round53 lo = r) (round53 (lo + p) = r)"

fun shortest_from :: "nat \<Rightarrow> nat \<Rightarrow> nat" where
  "shortest_from k r =
     (if k = 0 then r
      else case candidate r (r div 10 ^ k * 10 ^ k) (10 ^ k) of
             Some d \<Rightarrow> d | None \<Rightarrow> shortest_from (k - 1) r)"

declare shortest_from.simps [simp del]

definition shortest :: "nat \<Rightarrow> nat" where
  "shortest r = (if r < 2 ^ 53 then r else shortest_from 19 r)"

definition float64_num :: "num \<Rightarrow> num" where
  "float64_num n =
     (case n of
        IntNum i \<Rightarrow> IntNum (sgn i * int (shortest (round53 (nat \<bar>i\<bar>))))
      | FracNum neg m k \<Rightarrow> n)"

text \<open>What may follow a value inside a canonical text.\<close>

definition delim :: "string \<Rightarrow> bool" where
  "delim r = (r = [] \<or> hd r = CHR '','' \<or> hd r = CHR '']'' \<or> hd r = CHR ''}'')"

definition num_char :: "char \<Rightarrow> bool" where
  "num_char c = (is_digit c \<or> c = CHR ''-'' \<or> c = CHR ''.'')"

lemma float64_num_small:
  "\<bar>i\<bar> < 2 ^ 53 \<Longrightarrow> float64_num (IntNum i) = IntNum i"
proof -
  assume "\<bar>i\<bar> < 2 ^ 53"
  then have "nat \<bar>i\<bar> < 2 ^ 53" by (simp add: nat_less_iff)
  then have "shortest (round53 (nat \<bar>i\<bar>)) = nat \<bar>i\<bar>" by (simp add: shortest_def round53_def)
  then show ?thesis by (simp add: float64_num_def sgn_if)
qed

lemma float64_num_frac [simp]: "float64_num (FracNum neg m k) = FracNum neg m k"
  by (simp add: float64_num_def)

lemma digit_num_char: "is_digit c \<Longrightarrow> num_char c"
  by (simp add: num_char_def)

lemma frac_digits_digits: "c \<in> set (frac_digits m k) \<Longrightarrow> is_digit c"
  using nat_dec_digits by (auto simp: frac_digits_def is_digit_def)

lemma length_frac_digits: "k < length (frac_digits m k)"
  by (simp add: frac_digits_def)

lemma dec_nat_zeros: "dec_nat (replicate j CHR ''0'' @ s) = dec_nat s"
proof -
  have "foldl (\<lambda>a c. 10 * a + digit_val c) 0 (replicate j CHR ''0'') = 0"
    by (induction j) (simp_all add: digit_val_def)
  then show ?thesis by (simp add: dec_nat_def)
qed

lemma dec_nat_frac_digits [simp]: "dec_nat (frac_digits m k) = m"
  by (simp add: frac_digits_def dec_nat_zeros)

lemma num_text_chars: "c \<in> set (num_text n) \<Longrightarrow> num_char c"
proof (cases n)
  case (IntNum i)
  assume "c \<in> set (num_text n)"
  with IntNum show ?thesis
    using nat_dec_digits by (auto simp: num_text_def int_dec_def num_char_def split: if_splits)
next
  case (FracNum neg m k)
  assume "c \<in> set (num_text n)"
  with FracNum have "c \<in> set (frac_digits m k) \<or> c = CHR ''-'' \<or> c = CHR ''.''"
    by (auto simp: num_text_def Let_def dest: in_set_takeD in_set_dropD split: if_splits)
  then show ?thesis using frac_digits_digits by (auto simp: num_char_def)
qed

lemma num_text_not_Nil [simp]: "num_text n \<noteq> []"
  by (cases n) (simp_all add: num_text_def Let_def)

lemma int_dec_no_dot: "CHR ''.'' \<notin> set (int_dec i)"
  using nat_dec_digits[of "CHR ''.''"] by (auto simp: int_dec_def)

lemma digits_split_dot:
  assumes "a @ CHR ''.'' # b = a' @ CHR ''.'' # b'"
    and "\<forall>c \<in> set a. c \<noteq> CHR ''.''" and "\<forall>c \<in> set a'. c \<noteq> CHR ''.''"
  shows "a = a' \<and> b = b'"
proof -
  have t: "takeWhile (\<lambda>c. c \<noteq> CHR ''.'') (x @ CHR ''.'' # y) = x"
    if "\<forall>c \<in> set x. c \<noteq> CHR ''.''" for x y
    using that by (simp add: takeWhile_append2)
  have "a = a'" using t[OF assms(2)] t[OF assms(3)] assms(1) by metis
  with assms(1) show ?thesis by simp
qed

lemma num_text_frac:
  "num_text (FracNum neg m k) =
     (if neg then ''-'' else []) @ take (length (frac_digits m k) - k) (frac_digits m k)
     @ CHR ''.'' # drop (length (frac_digits m k) - k) (frac_digits m k)"
  by (simp add: num_text_def Let_def)

lemma frac_text_inject:
  assumes eq: "num_text (FracNum neg m k) = num_text (FracNum neg' m' k')"
  shows "FracNum neg m k = FracNum neg' m' k'"
proof -
  define d d' where "d = frac_digits m k" and "d' = frac_digits m' k'"
  define w w' where "w = length d - k" and "w' = length d' - k'"
  have w: "0 < w" "0 < w'" "k \<le> length d" "k' \<le> length d'"
    using length_frac_digits[of k m] length_frac_digits[of k' m'] by (auto simp: w_def w'_def d_def d'_def)
  have dg: "\<forall>c \<in> set d. is_digit c" "\<forall>c \<in> set d'. is_digit c"
    using frac_digits_digits by (auto simp: d_def d'_def)
  have e: "(if neg then ''-'' else []) @ take w d @ CHR ''.'' # drop w d =
      (if neg' then ''-'' else []) @ take w' d' @ CHR ''.'' # drop w' d'"
    using eq by (simp add: num_text_frac d_def d'_def w_def w'_def)
  have hd_take: "hd (take v x @ y) \<noteq> CHR ''-''" if "\<forall>c \<in> set x. is_digit c" "0 < v" "x \<noteq> []" for v x and y :: string
    using that by (cases x; cases v) auto
  have ne: "d \<noteq> []" "d' \<noteq> []" using w by (auto simp: w_def w'_def)
  have neg: "neg = neg'"
  proof (rule ccontr)
    assume "neg \<noteq> neg'"
    with e have "CHR ''-'' # take w d @ CHR ''.'' # drop w d = take w' d' @ CHR ''.'' # drop w' d'
      \<or> CHR ''-'' # take w' d' @ CHR ''.'' # drop w' d' = take w d @ CHR ''.'' # drop w d"
      by (cases neg) auto
    then show False using hd_take[OF dg(1) w(1) ne(1)] hd_take[OF dg(2) w(2) ne(2)] by (metis list.sel(1))
  qed
  with e have "take w d @ CHR ''.'' # drop w d = take w' d' @ CHR ''.'' # drop w' d'" by simp
  moreover have no_dot: "\<forall>c \<in> set (take v x). c \<noteq> CHR ''.''" if "\<forall>c \<in> set x. is_digit c" for v x
    using that dot_not_digit by (blast dest: in_set_takeD)
  ultimately have p: "take w d = take w' d'" "drop w d = drop w' d'"
    using digits_split_dot[OF _ no_dot[OF dg(1)] no_dot[OF dg(2)]] by simp_all
  then have dd: "d = d'" by (metis append_take_drop_id)
  have "k = length (drop w d)" "k' = length (drop w' d')" using w by (simp_all add: w_def w'_def)
  with p(2) have "k = k'" by (simp only:)
  moreover have "m = m'" using arg_cong[OF dd, of dec_nat] by (simp add: d_def d'_def)
  ultimately show ?thesis using neg by simp
qed

lemma num_text_inject [simp, encoding_inject]: "num_text n = num_text n' \<longleftrightarrow> n = n'"
proof
  assume eq: "num_text n = num_text n'"
  have frac_dot: "CHR ''.'' \<in> set (num_text (FracNum neg m k))" for neg m k
    by (simp add: num_text_frac)
  have int_dot: "CHR ''.'' \<notin> set (num_text (IntNum i))" for i
    using int_dec_no_dot by (simp add: num_text_def)
  show "n = n'"
  proof (cases n)
    case (IntNum i)
    with eq frac_dot int_dot[of i] obtain j where "n' = IntNum j" by (cases n') auto
    with IntNum eq show ?thesis by (simp add: num_text_def)
  next
    case (FracNum neg m k)
    with eq frac_dot[of neg m k] int_dot obtain neg' m' k' where "n' = FracNum neg' m' k'" by (cases n') auto
    with FracNum eq frac_text_inject[of neg m k neg' m' k'] show ?thesis by simp
  qed
qed simp

lemma delim_not_num_char: "delim r \<Longrightarrow> r \<noteq> [] \<Longrightarrow> \<not> num_char (hd r)"
  by (auto simp: delim_def num_char_def is_digit_def)

lemma num_text_unique:
  assumes "num_text n @ r = num_text n' @ r'" and "delim r" and "delim r'"
  shows "n = n' \<and> r = r'"
proof -
  have t: "takeWhile num_char (num_text m @ s) = num_text m" if "delim s" for m s
    using that delim_not_num_char[of s] num_text_chars[of _ m]
    by (cases s) (simp_all add: takeWhile_append2 takeWhile_eq_all_conv)
  have "num_text n = num_text n'" using t[OF assms(2), of n] t[OF assms(3), of n'] assms(1) by simp
  with assms(1) show ?thesis by simp
qed

end
