(* ===== verification/Protocol.thy ===== *)
theory Protocol
  imports JsonText
begin

text \<open>
  Package \<open>internal/protocol\<close>: the canonical JSON text that is hashed, and the signed envelope.

  A \<open>json\<close> is the tree a Go value has for \<open>encoding/json\<close>: a struct or a map is \<open>JObj\<close> with its
  fields in any order (the keys of a Go map are distinct, its iteration order is not fixed), and
  \<open>JOther\<close> is a dynamic type that \<open>encoding/json\<close> or the type switch does not support, tagged with
  its \<open>%T\<close>. Strings are taken to be valid UTF-8.
\<close>

datatype json =
    JNull
  | JBool bool
  | JNum num
  | JStr string
  | JArr "json list"
  | JObj "(string \<times> json) list"
  | JOther string

datatype protocol_err = MarshalUnsupported string | UnsupportedCanonical string | BadKeyLength

section \<open>json.Marshal followed by json.Unmarshal into an any\<close>

text \<open>
  The two calls at the head of \<open>CanonicalJSON\<close>: a value that cannot be marshalled is an error, and a
  marshalled value comes back with its numbers as \<open>float64\<close> values. \<open>first_other\<close> is the dynamic type
  at which \<open>json.Marshal\<close> stops.
\<close>

fun first_other :: "json \<Rightarrow> string option" where
  "first_other (JOther t) = Some t"
| "first_other (JArr vs) =
     foldr (\<lambda>o1 o2. case o1 of Some t \<Rightarrow> Some t | None \<Rightarrow> o2) (map first_other vs) None"
| "first_other (JObj kvs) =
     foldr (\<lambda>o1 o2. case o1 of Some t \<Rightarrow> Some t | None \<Rightarrow> o2) (map (\<lambda>kv. first_other (snd kv)) kvs) None"
| "first_other _ = None"

fun as_any :: "json \<Rightarrow> json" where
  "as_any (JNum n) = JNum (float64_num n)"
| "as_any (JArr vs) = JArr (map as_any vs)"
| "as_any (JObj kvs) = JObj (map (\<lambda>kv. (fst kv, as_any (snd kv))) kvs)"
| "as_any v = v"

definition normalized :: "json \<Rightarrow> protocol_err + json" where
  "normalized v =
     (case first_other v of Some t \<Rightarrow> Inl (MarshalUnsupported t) | None \<Rightarrow> Inr (as_any v))"

section \<open>writeCanonical\<close>

fun sequence_results :: "('e + 'a) list \<Rightarrow> 'e + 'a list" where
  "sequence_results [] = Inr []"
| "sequence_results (Inl e # rs) = Inl e"
| "sequence_results (Inr a # rs) =
     (case sequence_results rs of Inl e \<Rightarrow> Inl e | Inr as \<Rightarrow> Inr (a # as))"

definition member_text :: "string \<Rightarrow> string \<Rightarrow> string" where
  "member_text k t = go_quote k @ CHR '':'' # t"

definition array_text :: "string list \<Rightarrow> string" where
  "array_text ts = CHR ''['' # join_with '','' ts @ '']''"

definition object_text :: "(string \<times> string) list \<Rightarrow> string" where
  "object_text kts = CHR ''{'' # join_with '','' (map (\<lambda>(k, t). member_text k t) kts) @ ''}''"

text \<open>
  The keys of an object are collected, sorted bytewise and written with the text of their value; the
  first unsupported value met in that order is the error. The bytes written before an error are
  discarded by the only caller, so the model returns the text or the error.
\<close>

fun writeCanonical :: "json \<Rightarrow> protocol_err + string" where
  "writeCanonical JNull = Inr ''null''"
| "writeCanonical (JBool b) = Inr (if b then ''true'' else ''false'')"
| "writeCanonical (JStr s) = Inr (go_quote s)"
| "writeCanonical (JNum n) = Inr (num_text n)"
| "writeCanonical (JArr vs) = map_sum id array_text (sequence_results (map writeCanonical vs))"
| "writeCanonical (JObj kvs) =
     (let rs = sort_key fst (map (\<lambda>kv. (fst kv, writeCanonical (snd kv))) kvs)
      in map_sum id (\<lambda>ts. object_text (zip (map fst rs) ts)) (sequence_results (map snd rs)))"
| "writeCanonical (JOther t) = Inl (UnsupportedCanonical t)"

definition CanonicalJSON :: "json \<Rightarrow> protocol_err + bytes" where
  "CanonicalJSON v =
     (case normalized v of Inl e \<Rightarrow> Inl e | Inr normalized_value \<Rightarrow> writeCanonical normalized_value)"

section \<open>A canonical text as a function of a canonical tree\<close>

text \<open>
  \<open>canonical_tree\<close> is the specification: keys sorted at every level. \<open>emit\<close> prints a tree as it
  stands. \<open>writeCanonical\<close> is \<open>emit\<close> after \<open>canonical_tree\<close>, and \<open>emit\<close> is uniquely readable.
\<close>

fun supported :: "json \<Rightarrow> bool" where
  "supported (JOther t) = False"
| "supported (JArr vs) = (\<forall>v \<in> set vs. supported v)"
| "supported (JObj kvs) = (\<forall>kv \<in> set kvs. supported (snd kv))"
| "supported _ = True"

fun canonical_tree :: "json \<Rightarrow> json" where
  "canonical_tree (JArr vs) = JArr (map canonical_tree vs)"
| "canonical_tree (JObj kvs) = JObj (sort_key fst (map (\<lambda>kv. (fst kv, canonical_tree (snd kv))) kvs))"
| "canonical_tree v = v"

fun emit :: "json \<Rightarrow> string" where
  "emit JNull = ''null''"
| "emit (JBool b) = (if b then ''true'' else ''false'')"
| "emit (JStr s) = go_quote s"
| "emit (JNum n) = num_text n"
| "emit (JArr vs) = array_text (map emit vs)"
| "emit (JObj kvs) = object_text (map (\<lambda>kv. (fst kv, emit (snd kv))) kvs)"
| "emit (JOther t) = ''?''"

lemma sort_key_map_snd:
  "sort_key fst (map (\<lambda>kv. (fst kv, f (snd kv))) kvs) = map (\<lambda>kv. (fst kv, f (snd kv))) (sort_key fst kvs)"
proof -
  have i: "insort_key fst (fst x, f (snd x)) (map (\<lambda>kv. (fst kv, f (snd kv))) ys) =
      map (\<lambda>kv. (fst kv, f (snd kv))) (insort_key fst x ys)" for x ys
    by (induction ys) auto
  show ?thesis by (induction kvs) (simp_all add: sort_key_def i)
qed

lemma sequence_results_Inr: "sequence_results (map (\<lambda>x. Inr (f x)) xs) = Inr (map f xs)"
  by (induction xs) auto

lemma sequence_results_cong:
  "(\<And>x. x \<in> set xs \<Longrightarrow> r x = Inr (f x)) \<Longrightarrow> sequence_results (map r xs) = Inr (map f xs)"
  by (induction xs) auto

lemma zip_map_fst: "zip (map fst xs) (map g xs) = map (\<lambda>x. (fst x, g x)) xs"
  by (induction xs) auto

lemma writeCanonical_emit:
  "supported v \<Longrightarrow> writeCanonical v = Inr (emit (canonical_tree v))"
proof (induction v)
  case (JArr vs)
  then have "sequence_results (map writeCanonical vs) = Inr (map (\<lambda>v. emit (canonical_tree v)) vs)"
    by (intro sequence_results_cong) auto
  then show ?case by (simp add: comp_def)
next
  case (JObj kvs)
  let ?s = "sort_key fst kvs"
  have r: "sequence_results (map (\<lambda>kv. writeCanonical (snd kv)) ?s) =
      Inr (map (\<lambda>kv. emit (canonical_tree (snd kv))) ?s)"
  proof (rule sequence_results_cong)
    fix kv
    assume "kv \<in> set ?s"
    then have kv: "kv \<in> set kvs" by simp
    moreover have "snd kv \<in> Basic_BNFs.snds kv" by (cases kv) simp
    moreover have "supported (snd kv)" using JObj.prems kv by simp
    ultimately show "writeCanonical (snd kv) = Inr (emit (canonical_tree (snd kv)))"
      by (rule JObj.IH)
  qed
  have "writeCanonical (JObj kvs) =
      map_sum id (\<lambda>ts. object_text (zip (map fst ?s) ts))
        (sequence_results (map (\<lambda>kv. writeCanonical (snd kv)) ?s))"
    by (simp add: Let_def sort_key_map_snd comp_def)
  also have "\<dots> = Inr (emit (canonical_tree (JObj kvs)))"
    unfolding r by (simp add: sort_key_map_snd comp_def zip_map_fst)
  finally show ?case .
qed auto

section \<open>Canonical texts are uniquely readable\<close>

lemma delim_simps [simp]:
  "delim []" "delim (CHR '','' # r)" "delim (CHR '']'' # r)" "delim (CHR ''}'' # r)"
  by (simp_all add: delim_def)

fun list_tail :: "char \<Rightarrow> string list \<Rightarrow> string \<Rightarrow> string" where
  "list_tail close [] r = close # r"
| "list_tail close (t # ts) r = CHR '','' # t @ list_tail close ts r"

lemma join_with_list_tail: "join_with '','' (t # ts) @ close # r = t @ list_tail close ts r"
  by (induction ts arbitrary: t) auto

lemma list_tail_delim: "close \<in> set '']}'' \<Longrightarrow> delim (list_tail close ts r)"
  by (cases ts) auto

text \<open>
  Shared by arrays and objects: a comma-separated sequence is readable when its items are, given
  that no item starts with the closing bracket.
\<close>

lemma list_tail_unique:
  assumes item: "\<And>a b r s. a \<in> set as \<Longrightarrow> b \<in> set bs \<Longrightarrow> g a @ r = g b @ s \<Longrightarrow> delim r \<Longrightarrow> delim s \<Longrightarrow>
      a = b \<and> r = s"
    and close: "close \<in> set '']}''"
    and eq: "list_tail close (map g as) r = list_tail close (map g bs) s"
  shows "as = bs \<and> r = s"
  using item eq
proof (induction as arbitrary: bs)
  case Nil
  then show ?case using close by (cases bs) auto
next
  case (Cons a as)
  then obtain b bs' where bs: "bs = b # bs'" using close by (cases bs) auto
  with Cons.prems(2)
  have "g a @ list_tail close (map g as) r = g b @ list_tail close (map g bs') s" by simp
  then have ab: "a = b" and t: "list_tail close (map g as) r = list_tail close (map g bs') s"
    using Cons.prems(1)[of a b] bs close list_tail_delim by auto
  have "as = bs' \<and> r = s"
    by (rule Cons.IH[OF _ t]) (use Cons.prems(1) bs in auto)
  with ab bs show ?case by simp
qed

lemma join_unique:
  assumes item: "\<And>a b r s. a \<in> set as \<Longrightarrow> b \<in> set bs \<Longrightarrow> g a @ r = g b @ s \<Longrightarrow> delim r \<Longrightarrow> delim s \<Longrightarrow>
      a = b \<and> r = s"
    and close: "close \<in> set '']}''"
    and hd: "\<And>a r. a \<in> set as \<union> set bs \<Longrightarrow> g a \<noteq> [] \<and> hd (g a) \<noteq> close"
    and eq: "join_with '','' (map g as) @ close # r = join_with '','' (map g bs) @ close # s"
  shows "as = bs \<and> r = s"
proof (cases "as = [] \<or> bs = []")
  case True
  have ne: "close # x \<noteq> g a @ y" if "a \<in> set as \<union> set bs" for a x y
    using hd[OF that] by (cases "g a") auto
  have "\<not> (as = [] \<and> bs \<noteq> [])"
  proof
    assume "as = [] \<and> bs \<noteq> []"
    then obtain b bs' where "as = []" "bs = b # bs'" by (cases bs) auto
    with eq ne[of b r] show False by (auto simp: join_with_list_tail)
  qed
  moreover have "\<not> (bs = [] \<and> as \<noteq> [])"
  proof
    assume "bs = [] \<and> as \<noteq> []"
    then obtain a as' where "bs = []" "as = a # as'" by (cases as) auto
    with eq ne[of a s] show False by (auto simp: join_with_list_tail dest: sym)
  qed
  ultimately show ?thesis using True eq by auto
next
  case False
  then obtain a as' b bs' where ab: "as = a # as'" "bs = b # bs'" by (auto simp: neq_Nil_conv)
  have "list_tail close (map g as) r = list_tail close (map g bs) s"
    using eq unfolding ab by (simp add: join_with_list_tail)
  then show ?thesis using list_tail_unique[of as bs g close r s] item close by blast
qed

definition first_char :: "json \<Rightarrow> char \<Rightarrow> bool" where
  "first_char v c =
     (case v of
        JNull \<Rightarrow> c = CHR ''n'' | JBool b \<Rightarrow> c = (if b then CHR ''t'' else CHR ''f'')
      | JNum n \<Rightarrow> num_char c | JStr s \<Rightarrow> c = quote_char | JArr vs \<Rightarrow> c = CHR ''[''
      | JObj kvs \<Rightarrow> c = CHR ''{'' | JOther t \<Rightarrow> c = CHR ''?'')"

lemma emit_hd: "emit v \<noteq> [] \<and> first_char v (hd (emit v))"
proof (cases v)
  case (JNum n)
  then show ?thesis using num_text_chars[of "hd (num_text n)" n] by (simp add: first_char_def)
qed (simp_all add: first_char_def array_text_def object_text_def go_quote_def)

lemma first_char_not_num:
  "\<not> num_char CHR ''n''" "\<not> num_char CHR ''t''" "\<not> num_char CHR ''f''" "\<not> num_char quote_char"
  "\<not> num_char CHR ''[''" "\<not> num_char CHR ''{''" "\<not> num_char CHR ''?''"
  "\<not> num_char CHR '']''" "\<not> num_char CHR ''}''"
  by (simp_all add: num_char_def is_digit_def quote_char_def)

lemma emit_hd_eq:
  assumes "emit v @ r = emit w @ s"
  shows "hd (emit v) = hd (emit w)"
  using assms emit_hd[of v] emit_hd[of w] by (metis hd_append2)

lemma emit_not_close: "supported v \<Longrightarrow> hd (emit v) \<noteq> CHR '']''"
  using emit_hd[of v] first_char_not_num
  by (cases v) (auto simp: first_char_def quote_char_def split: if_splits)

lemma member_text_unique:
  assumes "member_text k t @ r = member_text k' t' @ r'"
  shows "k = k' \<and> t @ r = t' @ r'"
  using assms go_quote_unique[of k "CHR '':'' # t @ r" k' "CHR '':'' # t' @ r'"]
  by (simp add: member_text_def)

text \<open>Values whose texts begin alike have the same constructor.\<close>

lemma same_constructor:
  assumes "emit v @ r = emit w @ s" and "supported v" and "supported w"
  shows "case v of JNull \<Rightarrow> w = JNull | JBool b \<Rightarrow> w = JBool b | JNum n \<Rightarrow> \<exists>n'. w = JNum n'
    | JStr t \<Rightarrow> \<exists>t'. w = JStr t' | JArr vs \<Rightarrow> \<exists>ws. w = JArr ws | JObj kvs \<Rightarrow> \<exists>kws. w = JObj kws | JOther _ \<Rightarrow> True"
proof -
  have "first_char v (hd (emit w))" using emit_hd_eq[OF assms(1)] emit_hd[of v] by simp
  then show ?thesis using emit_hd[of w] first_char_not_num assms(2,3)
    by (cases v; cases w) (auto simp: first_char_def quote_char_def split: if_splits)
qed

lemma object_text_emit: "emit (JObj kvs) = CHR ''{'' # join_with '','' (map (\<lambda>kv. member_text (fst kv) (emit (snd kv))) kvs) @ ''}''"
  by (simp add: object_text_def comp_def)

text \<open>Arrays and objects, given that their elements are told apart.\<close>

lemma array_unique:
  assumes "emit (JArr vs) @ r = emit (JArr ws) @ s" and "supported (JArr vs)" and "supported (JArr ws)"
    and "\<And>a b r s. a \<in> set vs \<Longrightarrow> b \<in> set ws \<Longrightarrow> emit a @ r = emit b @ s \<Longrightarrow> delim r \<Longrightarrow> delim s \<Longrightarrow> a = b \<and> r = s"
  shows "vs = ws \<and> r = s"
proof (rule join_unique[where g = emit and close = "CHR '']''"])
  show "join_with '','' (map emit vs) @ CHR '']'' # r = join_with '','' (map emit ws) @ CHR '']'' # s"
    using assms(1) by (simp add: array_text_def)
  show "emit a \<noteq> [] \<and> hd (emit a) \<noteq> CHR '']''" if "a \<in> set vs \<union> set ws" for a
    using that emit_hd[of a] emit_not_close[of a] assms(2,3) by auto
qed (use assms(4) in simp_all)

lemma object_unique:
  assumes "emit (JObj kvs) @ r = emit (JObj kws) @ s"
    and "\<And>a b r s. a \<in> set kvs \<Longrightarrow> b \<in> set kws \<Longrightarrow> emit (snd a) @ r = emit (snd b) @ s \<Longrightarrow> delim r \<Longrightarrow> delim s \<Longrightarrow>
      snd a = snd b \<and> r = s"
  shows "kvs = kws \<and> r = s"
proof (rule join_unique[where g = "\<lambda>kv. member_text (fst kv) (emit (snd kv))" and close = "CHR ''}''"])
  let ?g = "\<lambda>kv. member_text (fst kv) (emit (snd kv))"
  show "join_with '','' (map ?g kvs) @ CHR ''}'' # r = join_with '','' (map ?g kws) @ CHR ''}'' # s"
    using assms(1) unfolding object_text_emit by simp
  show "a = b \<and> r = s" if "a \<in> set kvs" "b \<in> set kws" "?g a @ r = ?g b @ s" "delim r" "delim s" for a b r s
    using member_text_unique[OF that(3)] assms(2)[OF that(1,2) _ that(4,5)] by (auto simp: prod_eq_iff)
  show "?g a \<noteq> [] \<and> hd (?g a) \<noteq> CHR ''}''" for a
    by (simp add: member_text_def go_quote_def quote_char_def)
qed simp

lemma emit_unique:
  "emit v @ r = emit w @ s \<Longrightarrow> delim r \<Longrightarrow> delim s \<Longrightarrow> supported v \<Longrightarrow> supported w \<Longrightarrow>
   v = w \<and> r = s"
proof (induction v arbitrary: w r s)
  case JNull
  then show ?case using same_constructor[OF JNull(1)] by auto
next
  case (JBool b)
  then show ?case using same_constructor[OF JBool(1)] by auto
next
  case (JNum n)
  then obtain n' where "w = JNum n'" using same_constructor[OF JNum.prems(1)] by auto
  then show ?case using JNum.prems num_text_unique[of n r n' s] by simp
next
  case (JStr t)
  then obtain t' where "w = JStr t'" using same_constructor[OF JStr.prems(1)] by auto
  then show ?case using JStr.prems go_quote_unique[of t r t' s] by simp
next
  case (JArr vs)
  obtain ws where w: "w = JArr ws" using same_constructor[OF JArr.prems(1,4,5)] by auto
  have "a = b \<and> r = s" if "a \<in> set vs" "b \<in> set ws" "emit a @ r = emit b @ s" "delim r" "delim s" for a b r s
    using JArr.IH[OF that(1,3,4,5)] that JArr.prems(4,5) unfolding w by simp
  with JArr.prems(1,4,5) have "vs = ws \<and> r = s" unfolding w by (rule array_unique)
  with w show ?case by simp
next
  case (JObj kvs)
  obtain kws where w: "w = JObj kws" using same_constructor[OF JObj.prems(1,4,5)] by auto
  have "snd a = snd b \<and> r = s"
    if ab: "a \<in> set kvs" "b \<in> set kws" "emit (snd a) @ r = emit (snd b) @ s" "delim r" "delim s" for a b r s
  proof -
    have "snd a \<in> Basic_BNFs.snds a" by (cases a) simp
    from JObj.IH[OF ab(1) this ab(3,4,5)] ab(1,2) JObj.prems(4,5) show ?thesis unfolding w by simp
  qed
  with JObj.prems(1) have "kvs = kws \<and> r = s" unfolding w by (rule object_unique)
  with w show ?case by simp
next
  case (JOther t)
  then show ?case by simp
qed

lemma supported_canonical_tree: "supported v \<Longrightarrow> supported (canonical_tree v)"
  by (induction v) auto

lemma supported_as_any [simp]: "supported (as_any v) = supported v"
proof (induction v)
  case (JObj kvs)
  have "supported (as_any (snd kv)) = supported (snd kv)" if "kv \<in> set kvs" for kv
    using JObj[OF that, of "snd kv"] by (cases kv) simp
  then show ?case by simp
qed auto

lemma foldr_first_None:
  "foldr (\<lambda>o1 o2. case o1 of Some t \<Rightarrow> Some t | None \<Rightarrow> o2) os None = None \<longleftrightarrow> (\<forall>x \<in> set os. x = None)"
  by (induction os) (auto split: option.splits)

lemma first_other_supported: "first_other v = None \<longleftrightarrow> supported v"
proof (induction v)
  case (JArr vs)
  then show ?case by (simp add: foldr_first_None)
next
  case (JObj kvs)
  have "first_other (snd kv) = None \<longleftrightarrow> supported (snd kv)" if "kv \<in> set kvs" for kv
    using JObj[OF that, of "snd kv"] by (cases kv) simp
  then show ?case by (auto simp: foldr_first_None)
qed auto

lemma CanonicalJSON_supported:
  "supported v \<Longrightarrow> CanonicalJSON v = Inr (emit (canonical_tree (as_any v)))"
  by (simp add: CanonicalJSON_def normalized_def first_other_supported[THEN iffD2] writeCanonical_emit)

lemma CanonicalJSON_unsupported:
  "\<not> supported v \<Longrightarrow> \<exists>t. CanonicalJSON v = Inl (MarshalUnsupported t)"
  using first_other_supported[of v] by (auto simp: CanonicalJSON_def normalized_def)

section \<open>RFC 3339 timestamps\<close>

text \<open>Civil date of a day number, day 0 being 1 January of year 1 (proleptic Gregorian).\<close>

definition civil :: "int \<Rightarrow> int \<times> int \<times> int" where
  "civil days =
     (let z = days + 306; era = z div 146097; doe = z mod 146097;
          yoe = (doe - doe div 1460 + doe div 36524 - doe div 146096) div 365;
          doy = doe - (365 * yoe + yoe div 4 - yoe div 100);
          mp = (5 * doy + 2) div 153;
          d = doy - (153 * mp + 2) div 5 + 1;
          m = (if mp < 10 then mp + 3 else mp - 9)
      in (yoe + era * 400 + (if m \<le> 2 then 1 else 0), m, d))"

definition pad :: "nat \<Rightarrow> int \<Rightarrow> string" where
  "pad w i = (let d = nat_dec (nat i) in replicate (w - length d) CHR ''0'' @ d)"

definition format_date :: "go_time \<Rightarrow> string" where
  "format_date t =
     (case civil (nanos t div 86400000000000) of
        (y, m, d) \<Rightarrow> pad 4 y @ ''-'' @ pad 2 m @ ''-'' @ pad 2 d)"

definition format_clock :: "go_time \<Rightarrow> string" where
  "format_clock t =
     (let s = (nanos t div 1000000000) mod 86400
      in pad 2 (s div 3600) @ '':'' @ pad 2 (s div 60 mod 60) @ '':'' @ pad 2 (s mod 60))"

definition format_fraction :: "go_time \<Rightarrow> string" where
  "format_fraction t =
     (let n = nanos t mod 1000000000
      in if n = 0 then []
         else CHR ''.'' # rev (dropWhile (\<lambda>c. c = CHR ''0'') (rev (pad 9 n))))"

definition format_RFC3339Nano :: "go_time \<Rightarrow> string" where
  "format_RFC3339Nano t = format_date t @ ''T'' @ format_clock t @ format_fraction t @ ''Z''"

definition format_RFC3339 :: "go_time \<Rightarrow> string" where
  "format_RFC3339 t = format_date t @ ''T'' @ format_clock t @ ''Z''"

lemma pad_digits: "c \<in> set (pad w i) \<Longrightarrow> is_digit c"
  using nat_dec_digits by (auto simp: pad_def Let_def is_digit_def)

lemma digit_not_newline: "is_digit c \<Longrightarrow> c \<noteq> CHR 0x0A"
  by (auto simp: is_digit_def)

lemma format_no_newline:
  "CHR 0x0A \<notin> set (format_RFC3339Nano t)" "CHR 0x0A \<notin> set (format_RFC3339 t)"
proof -
  have p: "CHR 0x0A \<notin> set (pad w i)" for w i using pad_digits digit_not_newline by blast
  then have f: "CHR 0x0A \<notin> set (format_fraction t)"
    by (auto simp: format_fraction_def Let_def dest: set_dropWhileD)
  show "CHR 0x0A \<notin> set (format_RFC3339Nano t)" "CHR 0x0A \<notin> set (format_RFC3339 t)"
    using p f by (auto simp: format_RFC3339Nano_def format_RFC3339_def format_date_def format_clock_def
        Let_def split: prod.splits)
qed

section \<open>Signed envelopes\<close>

record Envelope =
  DeviceID :: string
  Sequence :: uint64
  Timestamp :: string
  EventID :: string
  Payload :: json
  Signature :: string

definition signed_message :: "string \<Rightarrow> uint64 \<Rightarrow> string \<Rightarrow> string \<Rightarrow> string \<Rightarrow> bytes" where
  "signed_message deviceID sequence timestamp eventID digest =
     join_with [CHR 0x0A] [deviceID, nat_dec (unat sequence), timestamp, eventID, digest]"

text \<open>\<open>ed25519.Sign\<close> panics on a key that is not 64 bytes long.\<close>

definition Sign ::
  "crypto \<Rightarrow> string \<Rightarrow> uint64 \<Rightarrow> string \<Rightarrow> json \<Rightarrow> bytes \<Rightarrow> go_time \<Rightarrow> protocol_err + Envelope" where
  "Sign C deviceID sequence eventID payload privateKey now =
     (let timestamp = format_RFC3339Nano now
      in case CanonicalJSON payload of
           Inl e \<Rightarrow> Inl e
         | Inr canonical \<Rightarrow>
             let message = signed_message deviceID sequence timestamp eventID (sha256_hex C canonical)
             in if length privateKey \<noteq> 64 then Inl BadKeyLength
                else Inr \<lparr>DeviceID = deviceID, Sequence = sequence, Timestamp = timestamp,
                          EventID = eventID, Payload = payload,
                          Signature = b64_encode (ed25519_sign C privateKey message)\<rparr>)"

text \<open>The JSON object that goes over the wire: \<open>json.Marshal(envelope)\<close>.\<close>

definition envelope_json :: "Envelope \<Rightarrow> json" where
  "envelope_json e =
     JObj [(''device_id'', JStr (DeviceID e)), (''sequence'', JNum (IntNum (uint (Sequence e)))),
           (''timestamp'', JStr (Timestamp e)), (''event_id'', JStr (EventID e)),
           (''payload'', Payload e), (''signature'', JStr (Signature e))]"

lemma Sign_fields:
  "Sign C d q ev p key now = Inr e \<Longrightarrow>
   DeviceID e = d \<and> Sequence e = q \<and> EventID e = ev \<and> Payload e = p \<and>
   Timestamp e = format_RFC3339Nano now"
  by (auto simp: Sign_def Let_def split: sum.splits if_splits)

lemma join_newline_last:
  assumes "a @ CHR 0x0A # x = b @ CHR 0x0A # y" and "CHR 0x0A \<notin> set x" and "CHR 0x0A \<notin> set y"
  shows "a = b \<and> x = y"
proof -
  have t: "takeWhile (\<lambda>c. c \<noteq> CHR 0x0A) (rev u @ CHR 0x0A # rev v) = rev u"
    if "CHR 0x0A \<notin> set u" for u v :: string
    using that by (subst takeWhile_append2) auto
  have "rev x @ CHR 0x0A # rev a = rev y @ CHR 0x0A # rev b"
    using arg_cong[OF assms(1), of rev] by simp
  with t[OF assms(2), of a] t[OF assms(3), of b] have "x = y" by (metis rev_rev_ident)
  with assms(1) show ?thesis by simp
qed

lemma nat_dec_no_newline: "CHR 0x0A \<notin> set (nat_dec n)"
  using nat_dec_digits digit_not_newline by blast

lemma hex_no_newline: "CHR 0x0A \<notin> set (hex_encode b)"
  using hex_encode_chars[of "CHR 0x0A" b] by (auto simp: is_hex_def is_digit_def)

lemma signed_message_inject:
  assumes eq: "signed_message d q t ev h = signed_message d' q' t' ev' h'"
    and t: "CHR 0x0A \<notin> set t" "CHR 0x0A \<notin> set t'"
    and ev: "CHR 0x0A \<notin> set ev" "CHR 0x0A \<notin> set ev'"
    and h: "CHR 0x0A \<notin> set h" "CHR 0x0A \<notin> set h'"
  shows "d = d' \<and> q = q' \<and> t = t' \<and> ev = ev' \<and> h = h'"
proof -
  let ?n = "\<lambda>q::uint64. nat_dec (unat q)"
  have e1: "(d @ CHR 0x0A # ?n q @ CHR 0x0A # t @ CHR 0x0A # ev) @ CHR 0x0A # h =
      (d' @ CHR 0x0A # ?n q' @ CHR 0x0A # t' @ CHR 0x0A # ev') @ CHR 0x0A # h'"
    using eq by (simp add: signed_message_def)
  from join_newline_last[OF e1 h]
  have e2: "(d @ CHR 0x0A # ?n q @ CHR 0x0A # t) @ CHR 0x0A # ev =
      (d' @ CHR 0x0A # ?n q' @ CHR 0x0A # t') @ CHR 0x0A # ev'" and hh: "h = h'" by simp_all
  from join_newline_last[OF e2 ev]
  have e3: "(d @ CHR 0x0A # ?n q) @ CHR 0x0A # t = (d' @ CHR 0x0A # ?n q') @ CHR 0x0A # t'"
    and ee: "ev = ev'" by simp_all
  from join_newline_last[OF e3 t]
  have e4: "d @ CHR 0x0A # ?n q = d' @ CHR 0x0A # ?n q'" and tt: "t = t'" by simp_all
  from join_newline_last[OF e4 nat_dec_no_newline nat_dec_no_newline]
  show ?thesis using hh ee tt by (auto dest: word_unat_eq_iff[THEN iffD2])
qed

text \<open>
  The message a signature of the agent covers, over the agent's own canonical text of the payload;
  \<open>None\<close> where the payload has none. The server verifies against a text of its own, which is a
  different one for some payloads (theory \<open>Verifier\<close>).
\<close>

definition envelope_message :: "crypto \<Rightarrow> Envelope \<Rightarrow> bytes option" where
  "envelope_message C e =
     (case CanonicalJSON (Payload e) of
        Inl _ \<Rightarrow> None
      | Inr b \<Rightarrow> Some (signed_message (DeviceID e) (Sequence e) (Timestamp e) (EventID e) (sha256_hex C b)))"

lemma Sign_message:
  assumes "Sign C d q ev p key now = Inr e"
  shows "\<exists>m. envelope_message C e = Some m \<and> Signature e = b64_encode (ed25519_sign C key m)"
  using assms by (auto simp: Sign_def Let_def envelope_message_def split: sum.splits if_splits)

section \<open>Properties of the signed bytes\<close>

text \<open>
  C17: the canonical text determines the value it was made of and nothing else: two marshallable
  values have the same canonical text exactly when, after the numbers have become \<open>float64\<close> values,
  they are the same tree up to the order of object keys.
\<close>

theorem canonical_injective:
  assumes "supported v" and "supported w"
  shows "CanonicalJSON v = CanonicalJSON w \<longleftrightarrow> canonical_tree (as_any v) = canonical_tree (as_any w)"
proof -
  have "emit (canonical_tree (as_any v)) = emit (canonical_tree (as_any w)) \<Longrightarrow>
      canonical_tree (as_any v) = canonical_tree (as_any w)"
    using emit_unique[of "canonical_tree (as_any v)" "[]" "canonical_tree (as_any w)" "[]"] assms
    by (simp add: supported_canonical_tree)
  with assms show ?thesis by (auto simp: CanonicalJSON_supported)
qed

theorem canonical_injective_witness:
  "CanonicalJSON (JArr [JNull]) \<noteq> CanonicalJSON (JArr [JBool True])"
  using canonical_injective[of "JArr [JNull]" "JArr [JBool True]"] by simp

text \<open>
  The canonical text does not depend on the iteration order of a Go map: permuting the
  members of an object with distinct keys leaves it unchanged.
\<close>

theorem canonical_key_order:
  assumes "mset kvs = mset kvs'" and "distinct (map fst kvs)" and "supported (JObj kvs)"
  shows "CanonicalJSON (JObj kvs) = CanonicalJSON (JObj kvs')"
proof -
  have s: "supported (JObj kvs')" using assms by (auto dest: mset_eq_setD)
  let ?f = "\<lambda>kv. (fst kv, canonical_tree (as_any (snd kv)))"
  have m: "mset (map ?f kvs) = mset (map ?f kvs')" using assms(1) by (simp add: mset_map)
  have d: "distinct (map fst (map ?f kvs))" using assms(2) by (simp add: comp_def)
  have "sort_key fst (map ?f kvs) = sort_key fst (map ?f kvs')" by (rule sorted_key_unique[OF m d])
  then show ?thesis using assms(3) s by (simp add: CanonicalJSON_supported comp_def)
qed

theorem canonical_key_order_witness:
  "CanonicalJSON (JObj [(''b'', JNull), (''a'', JBool True)]) =
   CanonicalJSON (JObj [(''a'', JBool True), (''b'', JNull)])"
  by (rule canonical_key_order) simp_all

text \<open>
  \<open>CanonicalJSON\<close> succeeds on every value that \<open>encoding/json\<close> can marshal, and the
  \<open>unsupported canonical JSON type\<close> error of \<open>writeCanonical\<close> never reaches a caller: a value with an
  unsupported dynamic type has already failed to marshal.
\<close>

theorem canonical_total:
  "(supported v \<longrightarrow> (\<exists>b. CanonicalJSON v = Inr b)) \<and>
   (\<not> supported v \<longrightarrow> (\<exists>t. CanonicalJSON v = Inl (MarshalUnsupported t))) \<and>
   (\<forall>t. CanonicalJSON v \<noteq> Inl (UnsupportedCanonical t))"
  using CanonicalJSON_supported[of v] CanonicalJSON_unsupported[of v]
  by (cases "supported v") auto

theorem canonical_total_witness:
  "CanonicalJSON (JArr [JOther ''chan int'']) \<noteq> Inl (UnsupportedCanonical ''chan int'') \<and>
   (\<exists>b. CanonicalJSON (JArr [JNum (IntNum 1)]) = Inr b)"
  using canonical_total[of "JArr [JOther ''chan int'']"] canonical_total[of "JArr [JNum (IntNum 1)]"]
  by simp

text \<open>
  C18: the signed message binds every field of the envelope. Two envelopes whose event id and
  timestamp contain no newline and that lead to the same signed bytes agree in device, sequence,
  timestamp and event id, and their payloads have the same canonical tree, or else two different
  canonical texts with the same SHA-256 digest have been found. The device id, which the server
  chooses, may contain anything.
\<close>

theorem signed_message_binds:
  assumes m: "envelope_message C e = Some m" "envelope_message C e' = Some m"
    and nl: "CHR 0x0A \<notin> set (Timestamp e)" "CHR 0x0A \<notin> set (Timestamp e')"
      "CHR 0x0A \<notin> set (EventID e)" "CHR 0x0A \<notin> set (EventID e')"
  shows "DeviceID e = DeviceID e' \<and> Sequence e = Sequence e' \<and> Timestamp e = Timestamp e' \<and>
    EventID e = EventID e' \<and>
    (canonical_tree (as_any (Payload e)) = canonical_tree (as_any (Payload e')) \<or>
     (\<exists>b b'. b \<noteq> b' \<and> sha256 C b = sha256 C b' \<and>
        CanonicalJSON (Payload e) = Inr b \<and> CanonicalJSON (Payload e') = Inr b'))"
proof -
  obtain b b' where b: "CanonicalJSON (Payload e) = Inr b" "CanonicalJSON (Payload e') = Inr b'"
    using m by (auto simp: envelope_message_def split: sum.splits)
  then have sup: "supported (Payload e)" "supported (Payload e')"
    using CanonicalJSON_unsupported by (metis Inl_Inr_False)+
  have "signed_message (DeviceID e) (Sequence e) (Timestamp e) (EventID e) (sha256_hex C b) =
      signed_message (DeviceID e') (Sequence e') (Timestamp e') (EventID e') (sha256_hex C b')"
    using m b by (simp add: envelope_message_def)
  from signed_message_inject[OF this nl(1,2,3,4)]
  have f: "DeviceID e = DeviceID e' \<and> Sequence e = Sequence e' \<and> Timestamp e = Timestamp e' \<and>
      EventID e = EventID e' \<and> sha256_hex C b = sha256_hex C b'"
    by (simp add: sha256_hex_def hex_no_newline)
  then have h: "sha256 C b = sha256 C b'" by (simp add: sha256_hex_def)
  show ?thesis
  proof (cases "b = b'")
    case True
    with f b canonical_injective[OF sup] show ?thesis by simp
  next
    case False
    with f b h show ?thesis by blast
  qed
qed

theorem signed_message_binds_witness:
  "\<exists>C e m. envelope_message C e = Some m \<and> Sequence e = 7 \<and> DeviceID e = ''dev'' \<and>
     canonical_tree (as_any (Payload e)) = JNull"
proof -
  let ?C = "\<lparr>sha256 = (\<lambda>b. b), ed25519_sign = (\<lambda>k m. m)\<rparr>"
  let ?e = "\<lparr>DeviceID = ''dev'', Sequence = 7, Timestamp = ''t'', EventID = ''e'', Payload = JNull,
      Signature = ''s''\<rparr>"
  have m: "envelope_message ?C ?e = Some (signed_message ''dev'' 7 ''t'' ''e'' (sha256_hex ?C ''null''))"
    by (simp add: envelope_message_def CanonicalJSON_def normalized_def)
  from signed_message_binds[OF m m] m show ?thesis by force
qed

lemma float64_rounding:
  "shortest (round53 9007199254740993) = 9007199254740992"
  "shortest (round53 9007199254740992) = 9007199254740992"
  "shortest (round53 18446744073709551615) = 18446744073709552000"
proof -
  note defs = shortest_def round53_def round_at_def round_even_def bit_length.simps
  have r: "round53 9007199254740993 = 9007199254740992" "round53 9007199254740992 = 9007199254740992"
    "round53 18446744073709551615 = 18446744073709551616"
    by (simp_all add: defs)
  have s: "shortest 9007199254740992 = 9007199254740992"
    "shortest 18446744073709551616 = 18446744073709552000"
    by (simp_all add: defs shortest_from.simps candidate_def closest_def)
  show "shortest (round53 9007199254740993) = 9007199254740992"
    "shortest (round53 9007199254740992) = 9007199254740992"
    "shortest (round53 18446744073709551615) = 18446744073709552000"
    unfolding r s by (rule refl)+
qed

text \<open>
  Canonicalisation is exact for integers below \<open>2^53\<close> in absolute value and loses integers
  above it: a counter of 9007199254740993 is signed as 9007199254740992, although the envelope's
  own JSON text carries all 64 bits.
\<close>

theorem canonical_integer_precision:
  "(\<forall>i. \<bar>i\<bar> < 2 ^ 53 \<longrightarrow> CanonicalJSON (JNum (IntNum i)) = Inr (int_dec i)) \<and>
   CanonicalJSON (JNum (IntNum 9007199254740993)) = CanonicalJSON (JNum (IntNum 9007199254740992)) \<and>
   CanonicalJSON (JNum (IntNum 18446744073709551615)) = Inr ''18446744073709552000''"
proof (intro conjI allI impI)
  show "CanonicalJSON (JNum (IntNum i)) = Inr (int_dec i)" if "\<bar>i\<bar> < 2 ^ 53" for i
    using that float64_num_small[OF that] by (simp add: CanonicalJSON_supported num_text_def)
  show "CanonicalJSON (JNum (IntNum 9007199254740993)) = CanonicalJSON (JNum (IntNum 9007199254740992))"
    by (simp add: CanonicalJSON_supported float64_num_def float64_rounding)
  show "CanonicalJSON (JNum (IntNum 18446744073709551615)) = Inr ''18446744073709552000''"
    by (simp add: CanonicalJSON_supported float64_num_def float64_rounding num_text_def int_dec_def
        nat_dec.simps digit_char_def digit_chars)
qed

theorem canonical_integer_precision_witness:
  "CanonicalJSON (JNum (IntNum 42)) = Inr (int_dec 42)"
  using canonical_integer_precision by simp

end
