(* ===== verification/Verifier.thy ===== *)
theory Verifier
  imports Protocol
begin

text \<open>
  The other side of the signature: \<open>canonical_payload\<close> of \<open>server/app/security.py\<close>, that is
  \<open>json.dumps\<close> with sorted keys, compact separators and \<open>ensure_ascii=False\<close> on the payload that Python
  has parsed, against \<open>CanonicalJSON\<close> of the agent. Strings are UTF-8 bytes, whose bytewise order is the
  order of the code points.
\<close>

section \<open>json.dumps\<close>

definition py_esc :: "char \<Rightarrow> string" where
  "py_esc c =
     (let n = of_char c :: nat in
      if c = quote_char \<or> c = backslash then [backslash, c]
      else if n = 8 then [backslash, CHR ''b''] else if n = 12 then [backslash, CHR ''f'']
      else if n = 10 then [backslash, CHR ''n''] else if n = 13 then [backslash, CHR ''r'']
      else if n = 9 then [backslash, CHR ''t'']
      else if n < 32 then backslash # ''u00'' @ hex_byte c
      else [c])"

definition py_quote :: "string \<Rightarrow> string" where
  "py_quote s = quote_char # concat (map py_esc s) @ [quote_char]"

text \<open>
  An integer literal becomes an \<open>int\<close>, any other number a \<open>float\<close>, which \<open>repr\<close> writes with an exponent
  when it is smaller than \<open>10^-4\<close>.
\<close>

definition exponent_text :: "nat \<Rightarrow> string" where
  "exponent_text e = ''e-'' @ (if e < 10 then ''0'' else []) @ nat_dec e"

definition py_num :: "num \<Rightarrow> string" where
  "py_num n =
     (case n of
        IntNum i \<Rightarrow> int_dec i
      | FracNum neg m k \<Rightarrow>
          (let d = nat_dec m in
           if length d + 4 \<le> k then
             (if neg then ''-'' else []) @ take 1 d @ (if length d = 1 then [] else CHR ''.'' # drop 1 d)
             @ exponent_text (k + 1 - length d)
           else num_text n))"

fun py_dumps :: "json \<Rightarrow> string" where
  "py_dumps JNull = ''null''"
| "py_dumps (JBool b) = (if b then ''true'' else ''false'')"
| "py_dumps (JStr s) = py_quote s"
| "py_dumps (JNum n) = py_num n"
| "py_dumps (JArr vs) = array_text (map py_dumps vs)"
| "py_dumps (JObj kvs) =
     CHR ''{'' # join_with '','' (map (\<lambda>(k, t). py_quote k @ CHR '':'' # t)
       (sort_key fst (map (\<lambda>kv. (fst kv, py_dumps (snd kv))) kvs))) @ ''}''"
| "py_dumps (JOther t) = []"

text \<open>
  \<open>signature_message\<close>: the bytes against which the server verifies a signature, over its own text of
  the payload; \<open>sequence\<close> is Python's unbounded integer.
\<close>

definition signature_message :: "crypto \<Rightarrow> string \<Rightarrow> int \<Rightarrow> string \<Rightarrow> string \<Rightarrow> json \<Rightarrow> bytes" where
  "signature_message C device_id sequence timestamp event_id payload =
     device_id @ CHR 0x0A # int_dec sequence @ CHR 0x0A # timestamp @ CHR 0x0A # event_id @ CHR 0x0A #
     sha256_hex C (py_dumps payload)"

section \<open>Where the two texts agree\<close>

text \<open>Strings without the characters that Go escapes for the sake of HTML and JavaScript.\<close>

fun web_safe :: "string \<Rightarrow> bool" where
  "web_safe [] = True"
| "web_safe (c # s) =
     (c \<notin> {CHR ''<'', CHR ''>'', CHR ''&''} \<and> \<not> (case s of d # e # r \<Rightarrow> line_sep c d e | _ \<Rightarrow> False) \<and> web_safe s)"

fun all_strings :: "(string \<Rightarrow> bool) \<Rightarrow> json \<Rightarrow> bool" where
  "all_strings P (JStr s) = P s"
| "all_strings P (JArr vs) = (\<forall>v \<in> set vs. all_strings P v)"
| "all_strings P (JObj kvs) = (\<forall>kv \<in> set kvs. P (fst kv) \<and> all_strings P (snd kv))"
| "all_strings P _ = True"

text \<open>Numbers that both sides write alike: integers below \<open>2^53\<close> and fractions from \<open>10^-4\<close> on.\<close>

definition plain_num :: "num \<Rightarrow> bool" where
  "plain_num n = (case n of IntNum i \<Rightarrow> \<bar>i\<bar> < 2 ^ 53 | FracNum neg m k \<Rightarrow> k < length (nat_dec m) + 4)"

fun plain_numbers :: "json \<Rightarrow> bool" where
  "plain_numbers (JNum n) = plain_num n"
| "plain_numbers (JArr vs) = (\<forall>v \<in> set vs. plain_numbers v)"
| "plain_numbers (JObj kvs) = (\<forall>kv \<in> set kvs. plain_numbers (snd kv))"
| "plain_numbers _ = True"

lemma py_esc_length: "length (py_esc c) \<le> length (esc_byte c)"
  by (simp add: py_esc_def esc_byte_def Let_def)

lemma py_esc_safe: "c \<notin> {CHR ''<'', CHR ''>'', CHR ''&''} \<Longrightarrow> py_esc c = esc_byte c"
  by (simp add: py_esc_def esc_byte_def Let_def)

lemma py_esc_unsafe: "c \<in> {CHR ''<'', CHR ''>'', CHR ''&''} \<Longrightarrow> length (py_esc c) < length (esc_byte c)"
  by (auto simp: py_esc_def esc_byte_def Let_def quote_char_def backslash_def)

lemma py_esc_line: "line_sep c d e \<Longrightarrow> py_esc c @ py_esc d @ py_esc e = [c, d, e]"
  by (auto simp: line_sep_def py_esc_def Let_def quote_char_def backslash_def)

lemma web_safe_escape: "web_safe s \<Longrightarrow> go_escape s = concat (map py_esc s)"
proof (induction s)
  case (Cons c s)
  then have "\<not> (\<exists>d e r. s = d # e # r \<and> line_sep c d e)" by (auto split: list.splits)
  with Cons show ?case by (simp add: go_escape_byte py_esc_safe)
qed simp

lemma escape_length: "length (concat (map py_esc s)) + (if web_safe s then 0 else 1) \<le> length (go_escape s)"
proof (induction s rule: length_induct)
  case (1 s)
  show ?case
  proof (cases s)
    case (Cons c t)
    show ?thesis
    proof (cases "\<exists>d e r. t = d # e # r \<and> line_sep c d e")
      case True
      then obtain d e r where t: "t = d # e # r" "line_sep c d e" by blast
      have "length (concat (map py_esc (c # t))) = 3 + length (concat (map py_esc r))"
        using arg_cong[OF py_esc_line[OF t(2)], of length] t(1) by simp
      moreover have "length (concat (map py_esc r)) + (if web_safe r then 0 else 1) \<le> length (go_escape r)"
        using 1 Cons t(1) by simp
      ultimately show ?thesis using Cons t by (simp add: go_escape_line split: if_splits)
    next
      case False
      then have l: "\<not> (case t of d # e # r \<Rightarrow> line_sep c d e | _ \<Rightarrow> False)" by (auto split: list.splits)
      have "length (concat (map py_esc t)) + (if web_safe t then 0 else 1) \<le> length (go_escape t)"
        using 1 Cons by simp
      then show ?thesis using Cons py_esc_length[of c] py_esc_unsafe[of c] l
        by (auto simp: go_escape_byte[OF False] split: if_splits)
    qed
  qed simp
qed

lemma quote_length: "length (py_quote s) + (if web_safe s then 0 else 1) \<le> length (go_quote s)"
  using escape_length[of s] by (simp add: py_quote_def go_quote_def)

lemma web_safe_quote: "web_safe s \<Longrightarrow> py_quote s = go_quote s"
  by (simp add: py_quote_def go_quote_def web_safe_escape)

section \<open>Whole payloads\<close>

text \<open>\<open>py_emit\<close> prints a tree as it stands, so \<open>py_dumps\<close> is \<open>py_emit\<close> after \<open>canonical_tree\<close>.\<close>

fun py_emit :: "json \<Rightarrow> string" where
  "py_emit (JStr s) = py_quote s"
| "py_emit (JArr vs) = array_text (map py_emit vs)"
| "py_emit (JObj kvs) = CHR ''{'' # join_with '','' (map (\<lambda>kv. py_quote (fst kv) @ CHR '':'' # py_emit (snd kv)) kvs) @ ''}''"
| "py_emit v = emit v"

lemma py_num_plain: "plain_num n \<Longrightarrow> py_num n = num_text n"
  by (auto simp: plain_num_def py_num_def num_text_def Let_def split: num.splits)

lemma py_dumps_emit: "plain_numbers v \<Longrightarrow> supported v \<Longrightarrow> py_dumps v = py_emit (canonical_tree v)"
proof (induction v)
  case (JArr vs)
  then have "map py_dumps vs = map (\<lambda>v. py_emit (canonical_tree v)) vs" by (intro map_cong) auto
  from arg_cong[OF this, of array_text] show ?case by (simp add: comp_def)
next
  case (JObj kvs)
  have "py_dumps (snd kv) = py_emit (canonical_tree (snd kv))" if "kv \<in> set kvs" for kv
    using JObj that by (metis plain_numbers.simps(3) prod_set_simps(2) singletonI snd_conv prod.collapse supported.simps(3) snds.intros)
  then have "map (\<lambda>kv. py_quote (fst kv) @ CHR '':'' # py_dumps (snd kv)) (sort_key fst kvs) =
      map (\<lambda>kv. py_quote (fst kv) @ CHR '':'' # py_emit (canonical_tree (snd kv))) (sort_key fst kvs)"
    by (intro map_cong) auto
  from arg_cong[OF this, of "join_with '',''"] show ?case by (simp add: sort_key_map_snd comp_def case_prod_beta)
qed (simp_all add: py_num_plain)

lemma join_length:
  "(\<And>x. x \<in> set xs \<Longrightarrow> length (f x) + (if ok x then 0 else 1) \<le> length (g x)) \<Longrightarrow>
   length (join_with sep (map f xs)) + (if \<forall>x \<in> set xs. ok x then 0 else 1) \<le> length (join_with sep (map g xs))"
proof (induction xs)
  case (Cons x xs)
  then have x: "length (f x) + (if ok x then 0 else 1) \<le> length (g x)" by simp
  have xs: "length (join_with sep (map f xs)) + (if \<forall>x \<in> set xs. ok x then 0 else 1) \<le> length (join_with sep (map g xs))"
    using Cons by simp
  show ?case
  proof (cases xs)
    case Nil
    with x show ?thesis by (auto split: if_splits)
  next
    case (Cons y ys)
    with x xs show ?thesis by (auto split: if_splits)
  qed
qed simp

lemma emit_length: "length (py_emit v) + (if all_strings web_safe v then 0 else 1) \<le> length (emit v)"
proof (induction v)
  case (JStr s)
  then show ?case using quote_length[of s] by simp
next
  case (JArr vs)
  then show ?case using join_length[of vs py_emit "all_strings web_safe" emit "'',''"] by (simp add: array_text_def)
next
  case (JObj kvs)
  let ?f = "\<lambda>kv. py_quote (fst kv) @ CHR '':'' # py_emit (snd kv)" and ?g = "\<lambda>kv. member_text (fst kv) (emit (snd kv))"
  have "length (?f kv) + (if web_safe (fst kv) \<and> all_strings web_safe (snd kv) then 0 else 1) \<le> length (?g kv)"
    if "kv \<in> set kvs" for kv
    using quote_length[of "fst kv"] JObj[OF that, of "snd kv"] by (auto simp: member_text_def snds.simps split: if_splits)
  from join_length[of kvs ?f _ ?g "'',''", OF this] show ?case
    by (simp add: object_text_def comp_def case_prod_beta)
qed simp_all

lemma emit_safe: "all_strings web_safe v \<Longrightarrow> py_emit v = emit v"
proof (induction v)
  case (JArr vs)
  then have "map py_emit vs = map emit vs" by (intro map_cong) auto
  from arg_cong[OF this, of array_text] show ?case by simp
next
  case (JObj kvs)
  have "py_quote (fst kv) @ CHR '':'' # py_emit (snd kv) = member_text (fst kv) (emit (snd kv))" if "kv \<in> set kvs" for kv
    using JObj.prems JObj.IH[OF that, of "snd kv"] that by (auto simp: member_text_def web_safe_quote snds.simps)
  then have m: "map (\<lambda>kv. py_quote (fst kv) @ CHR '':'' # py_emit (snd kv)) kvs =
      map (\<lambda>kv. member_text (fst kv) (emit (snd kv))) kvs" by (rule map_cong[OF refl])
  show ?case unfolding py_emit.simps m by (simp add: object_text_def comp_def)
qed (simp_all add: web_safe_quote)

lemma all_strings_canonical: "all_strings P (canonical_tree v) = all_strings P v"
proof (induction v)
  case (JObj kvs)
  have "all_strings P (canonical_tree (snd kv)) = all_strings P (snd kv)" if "kv \<in> set kvs" for kv
    using JObj[OF that, of "snd kv"] by (simp add: snds.simps)
  then show ?case by auto
qed auto

lemma plain_as_any: "plain_numbers v \<Longrightarrow> as_any v = v"
proof (induction v)
  case (JNum n)
  then show ?case using float64_num_small by (cases n) (simp_all add: plain_num_def)
next
  case (JArr vs)
  then show ?case by (simp add: map_idI)
next
  case (JObj kvs)
  have "(fst kv, as_any (snd kv)) = kv" if "kv \<in> set kvs" for kv
    using JObj.prems JObj.IH[OF that, of "snd kv"] that by (simp add: snds.simps prod_eq_iff)
  then show ?case by (simp add: map_idI)
qed simp_all

lemma canonical_is_py_dumps:
  assumes "supported v" and "plain_numbers v"
  shows "CanonicalJSON v = Inr (py_dumps v) \<longleftrightarrow> all_strings web_safe v"
proof -
  have c: "CanonicalJSON v = Inr (emit (canonical_tree v))"
    using CanonicalJSON_supported[OF assms(1)] plain_as_any[OF assms(2)] by simp
  note d = py_dumps_emit[OF assms(2,1)]
  show ?thesis
  proof (cases "all_strings web_safe v")
    case True
    then show ?thesis using c d emit_safe[of "canonical_tree v"] by (simp add: all_strings_canonical)
  next
    case False
    then have "length (py_emit (canonical_tree v)) < length (emit (canonical_tree v))"
      using emit_length[of "canonical_tree v"] by (simp add: all_strings_canonical)
    with False c d show ?thesis by auto
  qed
qed

text \<open>Payloads of which both sides make the same text.\<close>

definition signed_alike :: "json \<Rightarrow> bool" where
  "signed_alike v = (plain_numbers v \<and> all_strings web_safe v)"

lemma int_dec_uint: "int_dec (uint q) = nat_dec (unat (q :: uint64))"
proof -
  have "\<not> uint q < 0" using uint_ge_0[of q] by linarith
  then show ?thesis by (simp add: int_dec_def)
qed

lemma signature_message_signed:
  "CanonicalJSON p = Inr (py_dumps p) \<Longrightarrow>
   signature_message C d (uint q) ts ev p =
     signed_message d q ts ev (sha256_hex C (case CanonicalJSON p of Inr b \<Rightarrow> b | Inl _ \<Rightarrow> []))"
  by (simp add: signature_message_def signed_message_def int_dec_uint)

text \<open>For such a payload the message the agent has signed is the one the server verifies.\<close>

lemma signed_alike_message:
  assumes "envelope_message C e = Some m" and "signed_alike (Payload e)"
  shows "m = signature_message C (DeviceID e) (uint (Sequence e)) (Timestamp e) (EventID e) (Payload e)"
proof -
  have "supported (Payload e)"
    using assms(1) CanonicalJSON_unsupported[of "Payload e"] by (cases "supported (Payload e)") (auto simp: envelope_message_def)
  then have "CanonicalJSON (Payload e) = Inr (py_dumps (Payload e))"
    using assms(2) canonical_is_py_dumps by (simp add: signed_alike_def)
  with assms(1) show ?thesis by (simp add: envelope_message_def signature_message_signed)
qed

section \<open>Properties\<close>

text \<open>
  C16: agent and server sign the same bytes exactly for web-safe text. For a payload of integers below
  \<open>2^53\<close> and fractions from \<open>10^-4\<close> on, the bytes that the server recomputes are those the agent has
  signed if and only if no string and no key contains one of the characters that Go's \<open>json.Marshal\<close> escapes and
  Python's \<open>json.dumps\<close> does not: the angle brackets, the ampersand, U+2028 and U+2029.
\<close>

theorem server_recomputes:
  assumes "supported v" and "plain_numbers v"
  shows "CanonicalJSON v = Inr (py_dumps v) \<longleftrightarrow> all_strings web_safe v"
  by (rule canonical_is_py_dumps[OF assms])

theorem server_recomputes_witness:
  "CanonicalJSON (JObj [(''plan_type'', JStr ''pro'')]) = Inr (py_dumps (JObj [(''plan_type'', JStr ''pro'')])) \<and>
   CanonicalJSON (JObj [(''plan_type'', JStr ''<pro>'')]) \<noteq> Inr (py_dumps (JObj [(''plan_type'', JStr ''<pro>'')]))"
proof -
  have "all_strings web_safe (JObj [(''plan_type'', JStr ''pro'')])" "\<not> all_strings web_safe (JObj [(''plan_type'', JStr ''<pro>'')])"
    by code_simp+
  then show ?thesis
    using server_recomputes[of "JObj [(''plan_type'', JStr ''pro'')]"] server_recomputes[of "JObj [(''plan_type'', JStr ''<pro>'')]"]
    by simp
qed

end
