(* ===== verification/AtomicFile.thy ===== *)
theory AtomicFile
  imports Prelude
begin

text \<open>
  Package \<open>internal/atomicfile\<close> and the save protocol that the queue, the configuration, the
  integrity state and the OTel store share: create the directory, marshal, write \<open>path + ".tmp"\<close>,
  rename it over \<open>path\<close>.

  A state file is seen at the level of what \<open>json.Unmarshal\<close> makes of it. \<open>Malformed\<close> is a file that
  \<open>json.Unmarshal\<close> rejects; it holds what the call has left in its target, \<open>None\<close> when the text is not
  JSON at all and the target is untouched.
\<close>

datatype 'a state_file =
    Absent
  | Unreadable
  | Blank
  | Malformed "'a option"
  | Content 'a

record 'a slot =
  dest :: "'a state_file"
  temp :: "'a state_file"

definition empty_slot :: "'a slot" where
  "empty_slot = \<lparr>dest = Absent, temp = Absent\<rparr>"

datatype save_fault =
    MkdirFails
  | MarshalFails
  | WriteFails bool \<comment> \<open>whether the temporary file had been opened and truncated\<close>
  | ChmodFails
  | RenameFails

text \<open>\<open>atomicfile.Replace\<close>: one rename, which either happens or does not.\<close>

definition Replace :: "bool \<Rightarrow> 'a slot \<Rightarrow> save_fault option \<times> 'a slot" where
  "Replace rename_ok s =
     (if rename_ok then (None, s\<lparr>dest := temp s, temp := Absent\<rparr>) else (Some RenameFails, s))"

text \<open>
  The steps of a save, in the order of \<open>queue.save\<close>, \<open>saveOTelStore\<close>, \<open>saveIntegrityState\<close> and
  \<open>config.Save\<close>; only the last has the \<open>os.Chmod\<close> step (\<open>chmods\<close>). \<open>os.WriteFile\<close> is several system
  calls: the temporary file is created or truncated, then part of the text is in it, then all of it.
\<close>

datatype 'a effect = Mkdir | Marshal | OpenTemp | WritePart | WriteTemp 'a | Chmod | Rename

fun apply_effect :: "'a effect \<Rightarrow> 'a slot \<Rightarrow> 'a slot" where
  "apply_effect Mkdir s = s"
| "apply_effect Marshal s = s"
| "apply_effect OpenTemp s = s\<lparr>temp := Blank\<rparr>"
| "apply_effect WritePart s = s\<lparr>temp := Malformed None\<rparr>"
| "apply_effect (WriteTemp v) s = s\<lparr>temp := Content v\<rparr>"
| "apply_effect Chmod s = s"
| "apply_effect Rename s = snd (Replace True s)"

definition save_effects :: "bool \<Rightarrow> 'a \<Rightarrow> 'a effect list" where
  "save_effects chmods v =
     [Mkdir, Marshal, OpenTemp, WritePart, WriteTemp v] @ (if chmods then [Chmod] else []) @ [Rename]"

text \<open>The step at which a fault makes the save return its error.\<close>

fun interrupts :: "save_fault \<Rightarrow> 'a effect \<Rightarrow> bool" where
  "interrupts MkdirFails Mkdir = True"
| "interrupts MarshalFails Marshal = True"
| "interrupts (WriteFails False) OpenTemp = True"
| "interrupts (WriteFails True) (WriteTemp _) = True"
| "interrupts ChmodFails Chmod = True"
| "interrupts RenameFails Rename = True"
| "interrupts _ _ = False"

fun run_effects :: "save_fault option \<Rightarrow> 'a effect list \<Rightarrow> 'a slot \<Rightarrow> save_fault option \<times> 'a slot" where
  "run_effects fault [] s = (None, s)"
| "run_effects fault (e # es) s =
     (if (case fault of None \<Rightarrow> False | Some x \<Rightarrow> interrupts x e) then (fault, s)
      else run_effects fault es (apply_effect e s))"

text \<open>
  The save every store calls: the steps in order, under one fault at most, chosen by the
  environment. A process killed during a save has run some first steps of the same list.
\<close>

definition write_replace :: "bool \<Rightarrow> save_fault option \<Rightarrow> 'a \<Rightarrow> 'a slot \<Rightarrow> save_fault option \<times> 'a slot" where
  "write_replace chmods fault v s = run_effects fault (save_effects chmods v) s"

definition crash_after :: "nat \<Rightarrow> bool \<Rightarrow> 'a \<Rightarrow> 'a slot \<Rightarrow> 'a slot" where
  "crash_after n chmods v s = fold apply_effect (take n (save_effects chmods v)) s"

text \<open>The branches of a save, one per fault.\<close>

lemma write_replace_cases:
  "write_replace chmods fault v s =
     (case fault of
        Some MkdirFails \<Rightarrow> (Some MkdirFails, s)
      | Some MarshalFails \<Rightarrow> (Some MarshalFails, s)
      | Some (WriteFails opened) \<Rightarrow>
          (Some (WriteFails opened), if opened then s\<lparr>temp := Malformed None\<rparr> else s)
      | Some ChmodFails \<Rightarrow>
          if chmods then (Some ChmodFails, s\<lparr>temp := Content v\<rparr>)
          else (None, s\<lparr>dest := Content v, temp := Absent\<rparr>)
      | Some RenameFails \<Rightarrow> (Some RenameFails, s\<lparr>temp := Content v\<rparr>)
      | None \<Rightarrow> (None, s\<lparr>dest := Content v, temp := Absent\<rparr>))"
proof (cases fault)
  case (Some x)
  then show ?thesis
  proof (cases x)
    case (WriteFails b)
    with Some show ?thesis by (cases b) (simp_all add: write_replace_def save_effects_def)
  qed (simp_all add: write_replace_def save_effects_def Replace_def)
qed (simp add: write_replace_def save_effects_def Replace_def)

lemma write_replace_None [store_simps]:
  "write_replace chmods None v s = (None, s\<lparr>dest := Content v, temp := Absent\<rparr>)"
  by (simp add: write_replace_cases)

lemma write_replace_error:
  "write_replace chmods f v s = (Some e, s') \<Longrightarrow> dest s' = dest s"
  by (auto simp: write_replace_cases split: option.splits save_fault.splits if_splits)

lemma write_replace_ok:
  "write_replace chmods f v s = (None, s') \<Longrightarrow> dest s' = Content v"
  by (auto simp: write_replace_cases split: option.splits save_fault.splits if_splits)

section \<open>The contract of a save operation\<close>

text \<open>
  What a caller may rely on: without a fault the destination holds the value; an operation that
  reports an error has left the destination as it was, and one that reports none has replaced it.
\<close>

locale atomic_store =
  fixes save :: "save_fault option \<Rightarrow> 'a \<Rightarrow> 'a slot \<Rightarrow> 'e option \<times> 'a slot"
    and image :: "'a \<Rightarrow> 'a"
  assumes save_None: "save None v s = (None, s\<lparr>dest := Content (image v), temp := Absent\<rparr>)"
    and save_error: "save f v s = (Some e, s') \<Longrightarrow> dest s' = dest s"
    and save_ok: "save f v s = (None, s') \<Longrightarrow> dest s' = Content (image v)"
begin

lemma old_or_new: "dest (snd (save f v s)) = dest s \<or> dest (snd (save f v s)) = Content (image v)"
  by (cases "save f v s"; cases "fst (save f v s)") (auto dest: save_error save_ok)

lemma reports_truth:
  assumes "dest s \<noteq> Content (image v)"
  shows "fst (save f v s) = None \<longleftrightarrow> dest (snd (save f v s)) = Content (image v)"
  using assms by (cases "save f v s"; cases "fst (save f v s)") (auto dest: save_error save_ok)

text \<open>A failed save leaves the value of the last save that reported success.\<close>

lemma last_success:
  assumes "save f w s = (None, s1)" and "save f' v s1 = (Some e, s2)"
  shows "dest s2 = Content (image w)"
  using assms save_ok save_error by metis

end

interpretation plain_save: atomic_store "write_replace False" "\<lambda>v. v"
  by unfold_locales (auto simp: write_replace_None dest: write_replace_error write_replace_ok)

section \<open>Histories of saves\<close>

text \<open>
  What happens to a state file over time: saves that run to their return, with or without a fault,
  and saves during which the process is killed after some of its steps. Each leaves its temporary
  file, whatever is in it, to the next one. \<open>committed\<close> says, without running it, whether an attempt
  replaced the file: a save that met no fault of its own steps, or a kill after the last of them.
\<close>

datatype 'a attempt = Returned "save_fault option" 'a | Killed nat 'a

fun attempted :: "'a attempt \<Rightarrow> 'a" where
  "attempted (Returned fault v) = v"
| "attempted (Killed n v) = v"

fun run_attempt :: "bool \<Rightarrow> 'a attempt \<Rightarrow> 'a slot \<Rightarrow> 'a slot" where
  "run_attempt chmods (Returned fault v) s = snd (write_replace chmods fault v s)"
| "run_attempt chmods (Killed n v) s = crash_after n chmods v s"

fun committed :: "bool \<Rightarrow> 'a attempt \<Rightarrow> bool" where
  "committed chmods (Returned fault v) = (fault = None \<or> fault = Some ChmodFails \<and> \<not> chmods)"
| "committed chmods (Killed n v) = ((if chmods then 7 else 6) \<le> n)"

lemma length_save_effects: "length (save_effects chmods v) = (if chmods then 7 else 6)"
  by (simp add: save_effects_def)

text \<open>Only the last step of the list touches the destination, and by then the temporary file is whole.\<close>

lemma fold_keeps_dest: "Rename \<notin> set es \<Longrightarrow> dest (fold apply_effect es s) = dest s"
proof (induction es arbitrary: s)
  case (Cons e es)
  then show ?case by (cases e) simp_all
qed simp

lemma save_effects_butlast: "Rename \<notin> set (butlast (save_effects chmods v))"
  by (simp add: save_effects_def)

lemma crash_early:
  assumes "n < length (save_effects chmods v)"
  shows "dest (crash_after n chmods v s) = dest s"
proof -
  have "take n (save_effects chmods v) = take n (butlast (save_effects chmods v))"
    using assms by (simp add: take_butlast)
  with save_effects_butlast[of chmods v] show ?thesis
    unfolding crash_after_def by (metis fold_keeps_dest in_set_takeD)
qed

lemma crash_late:
  "length (save_effects chmods v) \<le> n \<Longrightarrow> dest (crash_after n chmods v s) = Content v"
  by (simp add: crash_after_def) (simp add: save_effects_def Replace_def)

text \<open>A save that stops at a fault is a save killed at that step.\<close>

lemma run_effects_prefix: "\<exists>n. snd (run_effects fault es s) = fold apply_effect (take n es) s"
proof (induction es arbitrary: s)
  case (Cons e es)
  from Cons.IH[of "apply_effect e s"] obtain n
    where n: "snd (run_effects fault es (apply_effect e s)) = fold apply_effect (take n es) (apply_effect e s)" ..
  show ?case
  proof (cases "case fault of None \<Rightarrow> False | Some x \<Rightarrow> interrupts x e")
    case True
    then show ?thesis by (intro exI[of _ 0]) simp
  next
    case False
    with n show ?thesis by (intro exI[of _ "Suc n"]) simp
  qed
qed simp

lemma write_replace_prefix: "\<exists>n. snd (write_replace chmods fault v s) = crash_after n chmods v s"
  unfolding write_replace_def crash_after_def by (rule run_effects_prefix)

lemma write_replace_committed:
  "fst (write_replace chmods fault v s) = None \<longleftrightarrow> committed chmods (Returned fault v)"
  by (auto simp: write_replace_cases split: option.splits save_fault.splits)

lemma run_attempt_dest:
  "dest (run_attempt chmods a s) = (if committed chmods a then Content (attempted a) else dest s)"
proof (cases a)
  case (Returned fault v)
  then show ?thesis
    by (cases "write_replace chmods fault v s"; cases "fst (write_replace chmods fault v s)")
      (use write_replace_committed[of chmods fault v s] in
        \<open>auto dest: write_replace_ok write_replace_error simp del: committed.simps\<close>)
next
  case (Killed n v)
  then show ?thesis
    using crash_early[of n chmods v s] crash_late[of chmods v n s] by (auto simp: length_save_effects)
qed

section \<open>Properties\<close>

text \<open>
  C23: over any history of saves, each run to its return under any fault or killed after any of its
  steps, the state file holds the value of the last attempt that replaced it, whole, or what it held
  at first: never a truncated or half written value, whatever the attempts have left in the
  temporary file. A save tells its caller that it succeeded exactly when it replaced the file, and
  what a faulty one leaves on disk is what a kill at that step leaves. A kill is the death of the
  process; the order in which a power failure lets blocks reach the disk is not modelled (the code
  calls no \<open>Sync\<close>).
\<close>

theorem save_crash_atomic:
  "dest (fold (run_attempt chmods) as s) =
     (case rev [a \<leftarrow> as. committed chmods a] of [] \<Rightarrow> dest s | a # _ \<Rightarrow> Content (attempted a)) \<and>
   (fst (write_replace chmods fault v s) = None \<longleftrightarrow> committed chmods (Returned fault v)) \<and>
   (\<exists>n. snd (write_replace chmods fault v s) = crash_after n chmods v s)"
proof -
  have "dest (fold (run_attempt chmods) as s) =
     (case rev [a \<leftarrow> as. committed chmods a] of [] \<Rightarrow> dest s | a # _ \<Rightarrow> Content (attempted a))"
    by (induction as rule: rev_induct) (simp_all add: run_attempt_dest)
  then show ?thesis
    by (intro conjI) (assumption, rule write_replace_committed, rule write_replace_prefix)
qed

text \<open>
  A save that returns an error has not touched the state file, and a save that returns no error
  has stored the new value, whatever step fails.
\<close>

theorem save_reports_truth:
  "(fst (write_replace chmods f v s) \<noteq> None \<longrightarrow> dest (snd (write_replace chmods f v s)) = dest s) \<and>
   (fst (write_replace chmods f v s) = None \<longrightarrow> dest (snd (write_replace chmods f v s)) = Content v)"
  by (cases "write_replace chmods f v s") (auto dest: write_replace_error write_replace_ok)

theorem save_reports_truth_witness:
  "dest (snd (write_replace True (Some ChmodFails) 1 \<lparr>dest = Content (0::nat), temp = Absent\<rparr>)) = Content 0"
  using save_reports_truth[of True "Some ChmodFails" "1::nat" "\<lparr>dest = Content 0, temp = Absent\<rparr>"]
  by (simp add: write_replace_cases)

end
