(* ===== verification/Queue.thy ===== *)
theory Queue
  imports AtomicFile
begin

text \<open>
  Package \<open>internal/queue\<close>: the durable FIFO of signed reports, one JSON file rewritten by every
  operation. The envelope of an item is a type parameter here; the client instantiates it.

  Each operation of the source holds the mutex from its first to its last statement, so an
  operation is one function of the state file. The clock reading of \<open>Push\<close> and the fault of the
  save are arguments.
\<close>

record 'e Item =
  Endpoint :: string
  CreatedAt :: go_time
  Envelope_data :: 'e

record Queue =
  retention :: duration

datatype queue_err = QueueRead | QueueParse | QueueSave save_fault

type_synonym 'e queue_slot = "'e Item list slot"

text \<open>\<open>time.Duration(retentionDays) * 24 * time.Hour\<close> is an \<open>int64\<close> product.\<close>

definition New_queue :: "int \<Rightarrow> Queue" where
  "New_queue retentionDays = \<lparr>retention = wrap64 (wrap64 (retentionDays * 24) * hour)\<rparr>"

definition queue_load :: "'e queue_slot \<Rightarrow> 'e Item list \<times> queue_err option" where
  "queue_load s =
     (case dest s of
        Absent \<Rightarrow> ([], None)
      | Unreadable \<Rightarrow> ([], Some QueueRead)
      | Blank \<Rightarrow> ([], None)
      | Malformed partial \<Rightarrow> ((case partial of None \<Rightarrow> [] | Some items \<Rightarrow> items), Some QueueParse)
      | Content items \<Rightarrow> (items, None))"

definition queue_save ::
  "save_fault option \<Rightarrow> 'e Item list \<Rightarrow> 'e queue_slot \<Rightarrow> queue_err option \<times> 'e queue_slot" where
  "queue_save fault items s =
     (case write_replace False fault items s of (e, s') \<Rightarrow> (map_option QueueSave e, s'))"

definition expiry :: "Queue \<Rightarrow> go_time \<Rightarrow> go_time" where
  "expiry q now = time_Add now (wrap64 (- retention q))"

definition live :: "Queue \<Rightarrow> go_time \<Rightarrow> 'e Item \<Rightarrow> bool" where
  "live q now item = After (CreatedAt item) (expiry q now)"

definition Push ::
  "Queue \<Rightarrow> go_time \<Rightarrow> save_fault option \<Rightarrow> 'e Item \<Rightarrow> 'e queue_slot \<Rightarrow> queue_err option \<times> 'e queue_slot" where
  "Push q now fault item s =
     (case queue_load s of
        (_, Some e) \<Rightarrow> (Some e, s)
      | (items, None) \<Rightarrow>
          let kept = filter (live q now) items
          in queue_save fault (kept @ [item]) s)"

definition Peek :: "'e queue_slot \<Rightarrow> 'e Item option \<times> queue_err option" where
  "Peek s =
     (case queue_load s of
        (items, err) \<Rightarrow>
          if err \<noteq> None \<or> length items = 0 then (None, err) else (Some (items ! 0), None))"

definition Pop :: "save_fault option \<Rightarrow> 'e queue_slot \<Rightarrow> queue_err option \<times> 'e queue_slot" where
  "Pop fault s =
     (case queue_load s of
        (items, err) \<Rightarrow>
          if err \<noteq> None \<or> length items = 0 then (err, s) else queue_save fault (drop 1 items) s)"

definition Clear :: "save_fault option \<Rightarrow> 'e queue_slot \<Rightarrow> queue_err option \<times> 'e queue_slot" where
  "Clear fault s = queue_save fault [] s"

definition Len :: "'e queue_slot \<Rightarrow> nat" where
  "Len s = length (fst (queue_load s))"

section \<open>The contract of a durable queue\<close>

text \<open>
  \<open>pending\<close> is the abstract queue, \<open>None\<close> when the file cannot be used. The client relies on these
  laws only.
\<close>

locale durable_queue =
  fixes pending :: "'s \<Rightarrow> 'a list option"
    and peek :: "'s \<Rightarrow> 'a option \<times> 'e option"
    and pop :: "'f option \<Rightarrow> 's \<Rightarrow> 'e option \<times> 's"
    and push :: "go_time \<Rightarrow> 'f option \<Rightarrow> 'a \<Rightarrow> 's \<Rightarrow> 'e option \<times> 's"
    and fresh :: "go_time \<Rightarrow> 'a \<Rightarrow> bool"
  assumes peek_pending: "pending s = Some xs \<Longrightarrow>
      peek s = (case xs of [] \<Rightarrow> (None, None) | x # _ \<Rightarrow> (Some x, None))"
    and peek_broken: "pending s = None \<Longrightarrow> \<exists>e. peek s = (None, Some e)"
    and pop_ok: "pending s = Some xs \<Longrightarrow> pop f s = (None, s') \<Longrightarrow> pending s' = Some (tl xs)"
    and pop_error: "pop f s = (Some e, s') \<Longrightarrow> pending s' = pending s"
    and pop_None: "pending s = Some xs \<Longrightarrow> fst (pop None s) = None"
    and push_ok: "pending s = Some xs \<Longrightarrow> push now f x s = (None, s') \<Longrightarrow>
      pending s' = Some (filter (fresh now) xs @ [x])"
    and push_error: "push now f x s = (Some e, s') \<Longrightarrow> pending s' = pending s"
    and push_None: "pending s = Some xs \<Longrightarrow> fst (push now None x s) = None"
    and push_broken: "pending s = None \<Longrightarrow> \<exists>e. push now f x s = (Some e, s)"
begin

lemmas queue_laws = peek_pending pop_ok pop_error push_ok push_error

lemma pop_step: "pending s = Some xs \<Longrightarrow> pending (snd (pop None s)) = Some (tl xs)"
  using pop_None[of s xs] pop_ok[of s xs None "snd (pop None s)"] by (metis prod.collapse)

lemma push_step:
  "pending s = Some xs \<Longrightarrow> pending (snd (push now None x s)) = Some (filter (fresh now) xs @ [x])"
  using push_None[of s xs now x] push_ok[of s xs now None x "snd (push now None x s)"]
  by (metis prod.collapse)

text \<open>First in, first out: popping as many items as stand in front uncovers the rest.\<close>

lemma pops: "pending s = Some (xs @ ys) \<Longrightarrow> pending (((\<lambda>s. snd (pop None s)) ^^ length xs) s) = Some ys"
proof (induction xs arbitrary: s)
  case Nil
  then show ?case by simp
next
  case (Cons x xs)
  have "pending (snd (pop None s)) = Some (xs @ ys)" using pop_step[OF Cons.prems] by simp
  from Cons.IH[OF this] show ?case by (simp add: funpow_Suc_right del: funpow.simps)
qed

lemma pushes:
  assumes "pending s = Some xs" and "\<forall>y \<in> set ys. fresh now y" and "\<forall>x \<in> set xs. fresh now x"
  shows "pending (fold (\<lambda>y s. snd (push now None y s)) ys s) = Some (xs @ ys)"
  using assms
proof (induction ys arbitrary: s xs)
  case Nil
  then show ?case by simp
next
  case (Cons y ys)
  have "pending (snd (push now None y s)) = Some (xs @ [y])"
    using push_step[OF Cons.prems(1), of now y] Cons.prems(3) by (simp add: filter_id_conv[THEN iffD2])
  from Cons.IH[OF this] Cons.prems(2,3) show ?case by simp
qed

text \<open>An item that has not expired survives every push, successful or not.\<close>

lemma push_keeps:
  assumes "pending s = Some xs" and "x \<in> set xs" and "fresh now x"
  shows "\<exists>ys. pending (snd (push now f y s)) = Some ys \<and> x \<in> set ys"
proof (cases "push now f y s")
  case (Pair e s')
  show ?thesis
  proof (cases e)
    case None
    with push_ok[OF assms(1)] Pair assms(2,3) show ?thesis by auto
  next
    case (Some e')
    with push_error Pair assms show ?thesis by auto
  qed
qed

end

section \<open>The file queue satisfies the contract\<close>

definition pending_items :: "'e queue_slot \<Rightarrow> 'e Item list option" where
  "pending_items s = (case queue_load s of (items, None) \<Rightarrow> Some items | (_, Some _) \<Rightarrow> None)"

lemma queue_save_ok: "queue_save f items s = (None, s') \<Longrightarrow> dest s' = Content items"
  by (auto simp: queue_save_def split: prod.splits dest: write_replace_ok)

lemma queue_save_error: "queue_save f items s = (Some e, s') \<Longrightarrow> dest s' = dest s"
  by (auto simp: queue_save_def split: prod.splits dest: write_replace_error)

lemma queue_save_None [store_simps]:
  "queue_save None items s = (None, s\<lparr>dest := Content items, temp := Absent\<rparr>)"
  by (simp add: queue_save_def write_replace_None)

lemma pending_dest_cong: "dest s = dest s' \<Longrightarrow> pending_items s = pending_items s'"
  by (simp add: pending_items_def queue_load_def)

lemma pending_Content: "dest s = Content items \<Longrightarrow> pending_items s = Some items"
  by (simp add: pending_items_def queue_load_def)

lemma pending_Some: "pending_items s = Some xs \<longleftrightarrow> queue_load s = (xs, None)"
  by (auto simp: pending_items_def split: prod.splits option.splits)

lemma pending_None: "pending_items s = None \<longleftrightarrow> (\<exists>items e. queue_load s = (items, Some e))"
  by (auto simp: pending_items_def split: prod.splits option.splits)

lemmas queue_save_facts = queue_save_ok queue_save_error

interpretation file_queue: durable_queue pending_items Peek Pop "Push q" "live q" for q
proof (unfold_locales, goal_cases)
  case (1 s xs)
  then show ?case by (simp add: pending_Some Peek_def split: list.splits)
next
  case (2 s)
  then show ?case by (auto simp: pending_None Peek_def)
next
  case (3 s xs f s')
  then show ?case
    by (cases xs) (auto simp: pending_Some Pop_def dest!: queue_save_ok pending_Content)
next
  case (4 f s e s')
  then show ?case
    by (auto simp: Pop_def split: prod.splits if_splits dest!: queue_save_error intro: pending_dest_cong)
next
  case (5 s xs)
  then show ?case by (auto simp: pending_Some Pop_def queue_save_None)
next
  case (6 s xs now f x s')
  then show ?case by (auto simp: pending_Some Push_def Let_def dest!: queue_save_ok pending_Content)
next
  case (7 now f x s e s')
  then show ?case
    by (auto simp: Push_def Let_def split: prod.splits option.splits dest!: queue_save_error
        intro: pending_dest_cong)
next
  case (8 s xs now x)
  then show ?case by (auto simp: pending_Some Push_def Let_def queue_save_None)
next
  case (9 s now f x)
  then show ?case by (auto simp: pending_None Push_def)
qed

interpretation queue_file: atomic_store queue_save "\<lambda>items. items"
  by unfold_locales (auto simp: queue_save_None dest: queue_save_facts)

section \<open>Properties\<close>

text \<open>Reading the queue to its end: what a sender that never fails would deliver, in order.\<close>

fun replay :: "nat \<Rightarrow> 'e queue_slot \<Rightarrow> 'e Item list" where
  "replay 0 s = []"
| "replay (Suc n) s =
     (case Peek s of (Some item, None) \<Rightarrow> item # replay n (snd (Pop None s)) | _ \<Rightarrow> [])"

lemma replay_pending: "pending_items s = Some xs \<Longrightarrow> length xs \<le> n \<Longrightarrow> replay n s = xs"
proof (induction n arbitrary: s xs)
  case 0
  then show ?case by simp
next
  case (Suc n)
  show ?case
  proof (cases xs)
    case Nil
    with Suc.prems file_queue.peek_pending[OF Suc.prems(1)] show ?thesis by simp
  next
    case (Cons x xs')
    have "Peek s = (Some x, None)" using file_queue.peek_pending[OF Suc.prems(1)] Cons by simp
    moreover have "pending_items (snd (Pop None s)) = Some xs'"
      using file_queue.pop_step[OF Suc.prems(1)] Cons by simp
    ultimately show ?thesis using Suc.IH[of "snd (Pop None s)" xs'] Suc.prems(2) Cons by simp
  qed
qed

text \<open>
  C31: the queue is first in, first out across restarts of the file: pushing reports that have not
  expired onto a queue of unexpired reports and then reading it to the end delivers the old
  reports and then the new ones, each exactly once and in the order of pushing.
\<close>

theorem queue_fifo:
  assumes "pending_items s = Some xs"
    and "\<forall>x \<in> set xs \<union> set ys. live q now x" and "length xs + length ys \<le> n"
  shows "replay n (fold (\<lambda>y s. snd (Push q now None y s)) ys s) = xs @ ys"
proof -
  have "pending_items (fold (\<lambda>y s. snd (Push q now None y s)) ys s) = Some (xs @ ys)"
    using assms(1,2) by (intro file_queue.pushes) auto
  then show ?thesis using assms(3) by (intro replay_pending) auto
qed

theorem queue_fifo_witness:
  "replay 2 (fold (\<lambda>y s. snd (Push (New_queue 30) (Time 0) None y s))
      [\<lparr>Endpoint = ''/one'', CreatedAt = Time 5, Envelope_data = ()\<rparr>,
       \<lparr>Endpoint = ''/two'', CreatedAt = Time 6, Envelope_data = ()\<rparr>] empty_slot) =
     [\<lparr>Endpoint = ''/one'', CreatedAt = Time 5, Envelope_data = ()\<rparr>,
      \<lparr>Endpoint = ''/two'', CreatedAt = Time 6, Envelope_data = ()\<rparr>]"
proof -
  let ?ys = "[\<lparr>Endpoint = ''/one'', CreatedAt = Time 5, Envelope_data = ()\<rparr>,
       \<lparr>Endpoint = ''/two'', CreatedAt = Time 6, Envelope_data = ()\<rparr>]"
  have "\<forall>x \<in> set [] \<union> set ?ys. live (New_queue 30) (Time 0) x"
    by (simp add: live_def expiry_def After_def less_go_time_def time_Add_def New_queue_def
        wrap64_def hour_def minute_def second_def)
  with queue_fifo[of empty_slot "[]" ?ys "New_queue 30" "Time 0" 2] show ?thesis
    by (simp add: pending_items_def queue_load_def empty_slot_def)
qed

text \<open>
  A push drops exactly the reports that are at least the retention period old and never one
  that is younger; without a wrap-around (up to 106751 days) the period is the configured number of
  days.
\<close>

theorem push_retention:
  assumes "pending_items s = Some xs" and "0 \<le> days" and "days \<le> 106751"
    and "Push (New_queue days) now f item s = (None, s')"
  shows "pending_items s' =
    Some (filter (\<lambda>x. nanos now - nanos (CreatedAt x) < days * 86400000000000) xs @ [item])"
proof -
  have r: "retention (New_queue days) = days * 86400000000000"
    using assms(2,3)
    by (simp add: New_queue_def wrap64_id hour_def minute_def second_def min_int64_def max_int64_def)
  have l: "live (New_queue days) now x = (nanos now - nanos (CreatedAt x) < days * 86400000000000)"
    if "x \<in> set xs" for x
  proof -
    have "wrap64 (- retention (New_queue days)) = - (days * 86400000000000)"
      unfolding r using assms(2,3) by (intro wrap64_id) (simp_all add: min_int64_def max_int64_def)
    then show ?thesis
      by (auto simp: live_def expiry_def After_def less_go_time_def time_Add_def)
  qed
  show ?thesis using file_queue.push_ok[OF assms(1,4)] filter_cong[OF refl l, of xs] by simp
qed

theorem push_retention_witness:
  "pending_items (snd (Push (New_queue 30) (Time 2592000000000001) None
       \<lparr>Endpoint = ''/new'', CreatedAt = Time 2592000000000001, Envelope_data = ()\<rparr>
       \<lparr>dest = Content [\<lparr>Endpoint = ''/old'', CreatedAt = Time 1, Envelope_data = ()\<rparr>], temp = Absent\<rparr>)) =
   Some [\<lparr>Endpoint = ''/new'', CreatedAt = Time 2592000000000001, Envelope_data = ()\<rparr>]"
proof -
  let ?s = "\<lparr>dest = Content [\<lparr>Endpoint = ''/old'', CreatedAt = Time 1, Envelope_data = ()\<rparr>], temp = Absent\<rparr>"
  let ?i = "\<lparr>Endpoint = ''/new'', CreatedAt = Time 2592000000000001, Envelope_data = ()\<rparr>"
  have p: "pending_items ?s = Some [\<lparr>Endpoint = ''/old'', CreatedAt = Time 1, Envelope_data = ()\<rparr>]"
    by (rule pending_Content) simp
  obtain s' where s': "Push (New_queue 30) (Time 2592000000000001) None ?i ?s = (None, s')"
    using file_queue.push_None[OF p] by (metis prod.collapse)
  from push_retention[OF p _ _ s'] s' show ?thesis by simp
qed

text \<open>
  A queue file that cannot be read or parsed is never overwritten by \<open>Push\<close> or \<open>Pop\<close>: each returns
  the error and leaves the file alone, \<open>Peek\<close> returns the error, and only \<open>Clear\<close> makes the queue
  usable again.
\<close>

theorem broken_queue_untouched:
  assumes "pending_items s = None"
  shows "(\<exists>e. Push q now f item s = (Some e, s)) \<and> (\<exists>e. Pop f s = (Some e, s)) \<and>
    (\<exists>e. Peek s = (None, Some e)) \<and> pending_items (snd (Clear None s)) = Some []"
proof -
  have "\<exists>e. Pop f s = (Some e, s)" using assms by (auto simp: pending_None Pop_def)
  moreover have "pending_items (snd (Clear None s)) = Some []"
    by (simp add: Clear_def queue_save_None pending_Content)
  ultimately show ?thesis
    using file_queue.push_broken[OF assms] file_queue.peek_broken[OF assms] by blast
qed

theorem broken_queue_untouched_witness:
  "\<exists>e. Pop None (\<lparr>dest = Malformed None, temp = Absent\<rparr> :: unit queue_slot) =
     (Some e, \<lparr>dest = Malformed None, temp = Absent\<rparr>)"
  using broken_queue_untouched[of "\<lparr>dest = Malformed None, temp = Absent\<rparr> :: unit queue_slot" "New_queue 30"
      "Time 0" None undefined]
  by (simp add: pending_items_def queue_load_def)

end
