(* ===== verification/Config.thy ===== *)
theory Config
  imports AtomicFile Encoding
begin

text \<open>
  Package \<open>internal/config\<close>: the agent's configuration record, its defaults, and \<open>Load\<close> / \<open>Save\<close> with
  the sealing of secrets. \<open>encoding/json\<close> restores every field it has written, also the ones an
  \<open>omitempty\<close> tag leaves out, so the file holds the record itself.

  The two files \<open>secrets_other.go\<close> and \<open>secrets_windows.go\<close> are two values of \<open>secrets\<close>; the DPAPI calls
  behind the Windows one are parameters.
\<close>

record Config =
  ServerURL :: string
  Config_DeviceID :: string
  StudentName :: string
  DeviceLabel :: string
  PrivateKey :: string
  ProtectedPrivateKey :: string
  PublicKey :: string
  OTLPToken :: string
  ProtectedOTLPToken :: string
  KeyProtection :: string
  CodexHome :: string
  CodexPath :: string
  CCUsagePath :: string
  AgentPath :: string
  StateDir :: string
  Timezone :: string
  HeartbeatSeconds :: int
  UsageSeconds :: int
  IntegritySeconds :: int
  RetentionDays :: int
  NextSequence :: uint64
  ExpectedConfigHash :: string
  OTelListen :: string

definition zero_config :: Config where
  "zero_config =
     \<lparr>ServerURL = [], Config_DeviceID = [], StudentName = [], DeviceLabel = [], PrivateKey = [],
      ProtectedPrivateKey = [], PublicKey = [], OTLPToken = [], ProtectedOTLPToken = [],
      KeyProtection = [], CodexHome = [], CodexPath = [], CCUsagePath = [], AgentPath = [],
      StateDir = [], Timezone = [], HeartbeatSeconds = 0, UsageSeconds = 0, IntegritySeconds = 0,
      RetentionDays = 0, NextSequence = 0, ExpectedConfigHash = [], OTelListen = []\<rparr>"

definition Defaults :: "Config \<Rightarrow> Config" where
  "Defaults c =
     c\<lparr>HeartbeatSeconds := (if HeartbeatSeconds c = 0 then 60 else HeartbeatSeconds c),
       UsageSeconds := (if UsageSeconds c = 0 then 300 else UsageSeconds c),
       IntegritySeconds := (if IntegritySeconds c < 300 then 300 else IntegritySeconds c),
       RetentionDays := (if RetentionDays c = 0 then 30 else RetentionDays c),
       Timezone := (if Timezone c = [] then ''UTC'' else Timezone c),
       CodexPath := (if CodexPath c = [] then ''codex'' else CodexPath c),
       NextSequence := (if NextSequence c = 0 then 1 else NextSequence c),
       OTelListen := (if OTelListen c = [] then ''127.0.0.1:9464'' else OTelListen c)\<rparr>"

section \<open>Secret storage of the platform\<close>

record secrets =
  secureSecretStorage :: bool
  protectionName :: string
  protectSecret :: "string \<Rightarrow> string option"
  unprotectSecret :: "string \<Rightarrow> string option"

definition secrets_other :: secrets where
  "secrets_other =
     \<lparr>secureSecretStorage = False, protectionName = ''root-owned-file'',
      protectSecret = (\<lambda>_. None), unprotectSecret = (\<lambda>_. None)\<rparr>"

text \<open>
  \<open>CryptProtectData\<close> and \<open>CryptUnprotectData\<close> are the parameters; \<open>None\<close> is their error. The sealed
  bytes are stored in base64.
\<close>

definition secrets_windows :: "(bytes \<Rightarrow> bytes option) \<Rightarrow> (bytes \<Rightarrow> bytes option) \<Rightarrow> secrets" where
  "secrets_windows CryptProtectData CryptUnprotectData =
     \<lparr>secureSecretStorage = True, protectionName = ''windows-dpapi-machine'',
      protectSecret = (\<lambda>value. map_option b64_encode (CryptProtectData value)),
      unprotectSecret = (\<lambda>value. case b64_decode value of
          None \<Rightarrow> None | Some ciphertext \<Rightarrow> CryptUnprotectData ciphertext)\<rparr>"

section \<open>Load and Save\<close>

datatype config_err =
    ConfigRead | ConfigParse | UnprotectPrivateKey | UnprotectOTLPToken | ConfigIncomplete
  | ProtectPrivateKey | ProtectOTLPToken | ConfigSave save_fault

definition unseal_key :: "secrets \<Rightarrow> Config \<Rightarrow> config_err + Config" where
  "unseal_key S c =
     (if PrivateKey c = [] \<and> ProtectedPrivateKey c \<noteq> [] then
        (case unprotectSecret S (ProtectedPrivateKey c) of
           None \<Rightarrow> Inl UnprotectPrivateKey | Some k \<Rightarrow> Inr (c\<lparr>PrivateKey := k\<rparr>))
      else Inr c)"

definition unseal_token :: "secrets \<Rightarrow> Config \<Rightarrow> config_err + Config" where
  "unseal_token S c =
     (if OTLPToken c = [] \<and> ProtectedOTLPToken c \<noteq> [] then
        (case unprotectSecret S (ProtectedOTLPToken c) of
           None \<Rightarrow> Inl UnprotectOTLPToken | Some t \<Rightarrow> Inr (c\<lparr>OTLPToken := t\<rparr>))
      else Inr c)"

definition complete :: "Config \<Rightarrow> bool" where
  "complete c = (ServerURL c \<noteq> [] \<and> Config_DeviceID c \<noteq> [] \<and> PrivateKey c \<noteq> [])"

definition config_Load :: "secrets \<Rightarrow> Config slot \<Rightarrow> config_err + Config" where
  "config_Load S s =
     (case dest s of
        Absent \<Rightarrow> Inl ConfigRead
      | Unreadable \<Rightarrow> Inl ConfigRead
      | Blank \<Rightarrow> Inl ConfigParse
      | Malformed _ \<Rightarrow> Inl ConfigParse
      | Content c0 \<Rightarrow>
          (case unseal_key S c0 of
             Inl e \<Rightarrow> Inl e
           | Inr c1 \<Rightarrow>
               (case unseal_token S c1 of
                  Inl e \<Rightarrow> Inl e
                | Inr c2 \<Rightarrow>
                    (let c = Defaults c2 in if complete c then Inr c else Inl ConfigIncomplete))))"

text \<open>The copy that is written: sealed where the platform can seal, else with the sealed fields cleared.\<close>

definition seal :: "secrets \<Rightarrow> Config \<Rightarrow> config_err + Config" where
  "seal S c =
     (if secureSecretStorage S then
        (case (if PrivateKey c \<noteq> [] then protectSecret S (PrivateKey c) else Some (ProtectedPrivateKey c)) of
           None \<Rightarrow> Inl ProtectPrivateKey
         | Some k \<Rightarrow>
             (case (if OTLPToken c \<noteq> [] then protectSecret S (OTLPToken c) else Some (ProtectedOTLPToken c)) of
                None \<Rightarrow> Inl ProtectOTLPToken
              | Some t \<Rightarrow>
                  Inr (c\<lparr>ProtectedPrivateKey := k, ProtectedOTLPToken := t, PrivateKey := [],
                         OTLPToken := [], KeyProtection := protectionName S\<rparr>)))
      else Inr (c\<lparr>ProtectedPrivateKey := [], ProtectedOTLPToken := [], KeyProtection := protectionName S\<rparr>))"

text \<open>
  \<open>Save\<close> completes the caller's record with the defaults first, creates the directory, seals, records
  the protection in the caller's record, and writes.
\<close>

definition config_Save ::
  "secrets \<Rightarrow> save_fault option \<Rightarrow> Config \<Rightarrow> Config slot \<Rightarrow> config_err option \<times> Config \<times> Config slot" where
  "config_Save S fault c0 s =
     (let c = Defaults c0
      in if fault = Some MkdirFails then (Some (ConfigSave MkdirFails), c, s)
         else case seal S c of
                Inl e \<Rightarrow> (Some e, c, s)
              | Inr disk \<Rightarrow>
                  (case write_replace True fault disk s of
                     (e, s') \<Rightarrow> (map_option ConfigSave e, c\<lparr>KeyProtection := KeyProtection disk\<rparr>, s')))"

lemma Defaults_idem [simp]: "Defaults (Defaults c) = Defaults c"
  by (cases c) (simp add: Defaults_def)

lemma Defaults_simps [simp]:
  "ServerURL (Defaults c) = ServerURL c" "Config_DeviceID (Defaults c) = Config_DeviceID c"
  "PrivateKey (Defaults c) = PrivateKey c" "OTLPToken (Defaults c) = OTLPToken c"
  "ProtectedPrivateKey (Defaults c) = ProtectedPrivateKey c"
  "ProtectedOTLPToken (Defaults c) = ProtectedOTLPToken c" "KeyProtection (Defaults c) = KeyProtection c"
  "CodexHome (Defaults c) = CodexHome c" "PublicKey (Defaults c) = PublicKey c"
  "StudentName (Defaults c) = StudentName c" "DeviceLabel (Defaults c) = DeviceLabel c"
  "ExpectedConfigHash (Defaults c) = ExpectedConfigHash c" "StateDir (Defaults c) = StateDir c"
  "NextSequence (Defaults c) = (if NextSequence c = 0 then 1 else NextSequence c)"
  by (simp_all add: Defaults_def)

lemma Defaults_KeyProtection [simp]:
  "Defaults (c\<lparr>KeyProtection := p\<rparr>) = (Defaults c)\<lparr>KeyProtection := p\<rparr>"
  by (simp add: Defaults_def)

lemma Defaults_secret_updates [simp]:
  "Defaults (c\<lparr>PrivateKey := k\<rparr>) = (Defaults c)\<lparr>PrivateKey := k\<rparr>"
  "Defaults (c\<lparr>OTLPToken := t\<rparr>) = (Defaults c)\<lparr>OTLPToken := t\<rparr>"
  "Defaults (c\<lparr>ProtectedPrivateKey := k\<rparr>) = (Defaults c)\<lparr>ProtectedPrivateKey := k\<rparr>"
  "Defaults (c\<lparr>ProtectedOTLPToken := t\<rparr>) = (Defaults c)\<lparr>ProtectedOTLPToken := t\<rparr>"
  by (simp_all add: Defaults_def)

lemma secrets_restored:
  "(c :: Config)\<lparr>ProtectedPrivateKey := [], ProtectedOTLPToken := [], PrivateKey := PrivateKey c,
     OTLPToken := OTLPToken c, KeyProtection := p\<rparr> =
   c\<lparr>ProtectedPrivateKey := [], ProtectedOTLPToken := [], KeyProtection := p\<rparr>"
  by (cases c) simp

lemma unseal_key_simps:
  "ProtectedPrivateKey c = [] \<Longrightarrow> unseal_key S c = Inr c"
  "PrivateKey c = [] \<Longrightarrow> ProtectedPrivateKey c \<noteq> [] \<Longrightarrow> unprotectSecret S (ProtectedPrivateKey c) = Some k \<Longrightarrow>
   unseal_key S c = Inr (c\<lparr>PrivateKey := k\<rparr>)"
  by (simp_all add: unseal_key_def)

lemma unseal_token_simps:
  "ProtectedOTLPToken c = [] \<Longrightarrow> unseal_token S c = Inr c"
  "OTLPToken c = [] \<Longrightarrow> ProtectedOTLPToken c \<noteq> [] \<Longrightarrow> unprotectSecret S (ProtectedOTLPToken c) = Some t \<Longrightarrow>
   unseal_token S c = Inr (c\<lparr>OTLPToken := t\<rparr>)"
  by (simp_all add: unseal_token_def)

lemma unprotect_windows:
  "un k = Some v \<Longrightarrow> unprotectSecret (secrets_windows pr un) (b64_encode k) = Some v"
  by (simp add: secrets_windows_def)

text \<open>Loading what sealing has left: the opened fields return, the rest is the defaulted record.\<close>

lemma config_Load_sealed:
  assumes "dest s = Content d" and "PrivateKey d = []" and "ProtectedPrivateKey d \<noteq> []"
    and "unprotectSecret S (ProtectedPrivateKey d) = Some k" and "OTLPToken d = []"
    and "if ProtectedOTLPToken d = [] then t = []
         else unprotectSecret S (ProtectedOTLPToken d) = Some t"
    and "complete (d\<lparr>PrivateKey := k\<rparr>)"
  shows "config_Load S s = Inr ((Defaults d)\<lparr>PrivateKey := k, OTLPToken := t\<rparr>)"
proof (cases "ProtectedOTLPToken d = []")
  case True
  have "c\<lparr>OTLPToken := []\<rparr> = c" if "OTLPToken c = []" for c :: Config using that by (cases c) simp
  from this[of "(Defaults d)\<lparr>PrivateKey := k\<rparr>"] show ?thesis using assms True
    by (simp add: config_Load_def unseal_key_simps unseal_token_simps complete_def)
next
  case False
  with assms show ?thesis
    by (simp add: config_Load_def unseal_key_simps unseal_token_simps complete_def)
qed

lemma complete_Defaults [simp]: "complete (Defaults c) = complete c"
  by (simp add: complete_def)

lemma config_Save_error:
  "config_Save S f c s = (Some e, c', s') \<Longrightarrow> dest s' = dest s"
  by (auto simp: config_Save_def Let_def split: if_splits sum.splits prod.splits dest: write_replace_error)

lemma config_Save_ok:
  "config_Save S f c s = (None, c', s') \<Longrightarrow>
   \<exists>disk. seal S (Defaults c) = Inr disk \<and> dest s' = Content disk \<and>
     c' = (Defaults c)\<lparr>KeyProtection := protectionName S\<rparr>"
  by (auto simp: config_Save_def Let_def seal_def split: if_splits sum.splits prod.splits option.splits
      dest: write_replace_ok)

lemma config_Save_None:
  "seal S (Defaults c) = Inr disk \<Longrightarrow>
   config_Save S None c s =
     (None, (Defaults c)\<lparr>KeyProtection := KeyProtection disk\<rparr>, s\<lparr>dest := Content disk, temp := Absent\<rparr>)"
  by (simp add: config_Save_def Let_def write_replace_None)

lemma seal_other: "seal secrets_other c =
    Inr (c\<lparr>ProtectedPrivateKey := [], ProtectedOTLPToken := [], KeyProtection := ''root-owned-file''\<rparr>)"
  by (simp add: seal_def secrets_other_def)

lemma seal_keeps:
  "seal S c = Inr disk \<Longrightarrow>
   NextSequence disk = NextSequence c \<and> Config_DeviceID disk = Config_DeviceID c \<and>
   ServerURL disk = ServerURL c \<and> CodexHome disk = CodexHome c \<and> KeyProtection disk = protectionName S"
  by (auto simp: seal_def split: if_splits option.splits)

lemma unseal_keeps:
  "unseal_key S c = Inr c' \<Longrightarrow> NextSequence c' = NextSequence c \<and> Config_DeviceID c' = Config_DeviceID c"
  "unseal_token S c = Inr c' \<Longrightarrow> NextSequence c' = NextSequence c \<and> Config_DeviceID c' = Config_DeviceID c"
  by (auto simp: unseal_key_def unseal_token_def split: if_splits option.splits)

lemma config_Load_Content:
  assumes "config_Load S s = Inr c" and "dest s = Content d"
  shows "NextSequence c = (if NextSequence d = 0 then 1 else NextSequence d)"
    and "Config_DeviceID c = Config_DeviceID d"
  using assms
  by (auto simp: config_Load_def Let_def split: sum.splits if_splits dest!: unseal_keeps)

text \<open>On a platform without sealing, saving is an instance of the save contract.\<close>

interpretation plain_config_save: atomic_store
  "\<lambda>f c s. case config_Save secrets_other f c s of (e, _, s') \<Rightarrow> (e, s')"
  "\<lambda>c. (Defaults c)\<lparr>ProtectedPrivateKey := [], ProtectedOTLPToken := [], KeyProtection := ''root-owned-file''\<rparr>"
proof (unfold_locales, goal_cases)
  case (1 v s)
  show ?case by (simp add: config_Save_None[OF seal_other])
next
  case (2 f v s e s')
  then show ?case by (auto split: prod.splits dest: config_Save_error)
next
  case (3 f v s s')
  then show ?case by (auto simp: seal_other split: prod.splits dest!: config_Save_ok)
qed

section \<open>Loading what was saved\<close>

lemma b64_encode_not_Nil: "b \<noteq> [] \<Longrightarrow> b64_encode b \<noteq> []"
  using b64_decode_encode[of b] b64_decode_encode[of "[]"] by (metis b64_encode.simps(1) option.inject)

lemma saved_loads_other:
  assumes "complete c" and disk: "seal secrets_other (Defaults c) = Inr disk" "dest s = Content disk"
  shows "\<exists>l. config_Load secrets_other s = Inr l \<and> complete l \<and>
    l\<lparr>ProtectedPrivateKey := [], ProtectedOTLPToken := []\<rparr> =
      (Defaults c)\<lparr>ProtectedPrivateKey := [], ProtectedOTLPToken := [], KeyProtection := protectionName secrets_other\<rparr>"
proof -
  have "disk = (Defaults c)\<lparr>ProtectedPrivateKey := [], ProtectedOTLPToken := [], KeyProtection := ''root-owned-file''\<rparr>"
    using disk(1) by (simp add: seal_other)
  with disk(2) assms(1) have "config_Load secrets_other s = Inr disk"
    by (simp add: config_Load_def unseal_key_def unseal_token_def complete_def)
  with assms(1) \<open>disk = _\<close> show ?thesis by (simp add: complete_def secrets_other_def)
qed

lemma saved_loads_windows:
  assumes S: "S = secrets_windows pr un"
    and dpapi: "\<And>v b. pr v = Some b \<Longrightarrow> un b = Some v \<and> b \<noteq> []"
    and c: "complete c" "OTLPToken c \<noteq> [] \<or> ProtectedOTLPToken c = []"
    and disk: "seal S (Defaults c) = Inr disk" "dest s = Content disk"
  shows "\<exists>l. config_Load S s = Inr l \<and> complete l \<and>
    l\<lparr>ProtectedPrivateKey := [], ProtectedOTLPToken := []\<rparr> =
      (Defaults c)\<lparr>ProtectedPrivateKey := [], ProtectedOTLPToken := [], KeyProtection := protectionName S\<rparr>"
proof -
  obtain k where k: "pr (PrivateKey c) = Some k"
    using disk(1) c(1) by (auto simp: S seal_def secrets_windows_def complete_def split: if_splits option.splits)
  have un: "unprotectSecret S (b64_encode b) = Some v \<and> b64_encode b \<noteq> []" if "pr v = Some b" for v b
    using dpapi[OF that] b64_encode_not_Nil[of b] by (simp add: S unprotect_windows)
  obtain t where t: "if OTLPToken c = [] then t = [] else \<exists>b. pr (OTLPToken c) = Some b \<and> t = b64_encode b"
    "disk = (Defaults c)\<lparr>ProtectedPrivateKey := b64_encode k, ProtectedOTLPToken := t,
        PrivateKey := [], OTLPToken := [], KeyProtection := protectionName S\<rparr>"
    using disk(1) k c
    by (auto simp: S seal_def secrets_windows_def complete_def split: if_splits option.splits)
  have "config_Load S s = Inr ((Defaults c)\<lparr>ProtectedPrivateKey := b64_encode k, ProtectedOTLPToken := t,
      PrivateKey := PrivateKey c, OTLPToken := OTLPToken c, KeyProtection := protectionName S\<rparr>)"
    using c(1) un[OF k] un t(1) config_Load_sealed[OF disk(2), of S "PrivateKey c" "OTLPToken c"]
    by (auto simp: t(2) complete_def split: if_splits)
  then show ?thesis using c(1) secrets_restored[where c = "Defaults c" and p = "protectionName S"]
    by (simp add: complete_def)
qed

lemma config_saved_loads:
  assumes S: "S = secrets_other \<or> S = secrets_windows pr un"
    and dpapi: "\<And>v b. pr v = Some b \<Longrightarrow> un b = Some v"
    and c: "complete c" "OTLPToken c \<noteq> [] \<or> ProtectedOTLPToken c = []"
    and sealed: "\<And>v b. pr v = Some b \<Longrightarrow> b \<noteq> []"
    and save: "config_Save S f c s = (None, c', s')"
  shows "\<exists>l. config_Load S s' = Inr l \<and> complete l \<and>
    l\<lparr>ProtectedPrivateKey := [], ProtectedOTLPToken := []\<rparr> =
      (Defaults c)\<lparr>ProtectedPrivateKey := [], ProtectedOTLPToken := [], KeyProtection := protectionName S\<rparr>"
proof -
  obtain disk where disk: "seal S (Defaults c) = Inr disk" "dest s' = Content disk"
    using config_Save_ok[OF save] by blast
  from S show ?thesis
  proof
    assume "S = secrets_other"
    with saved_loads_other[OF c(1)] disk show ?thesis by simp
  next
    assume "S = secrets_windows pr un"
    from saved_loads_windows[OF this _ c disk] dpapi sealed show ?thesis by blast
  qed
qed

text \<open>
  Where secrets are sealed, an empty token leaves a sealed copy of an earlier token in the file, and
  \<open>Load\<close> opens that copy.
\<close>

lemma kept_token_loads:
  assumes S: "S = secrets_windows pr un" and dpapi: "\<And>v b. pr v = Some b \<Longrightarrow> un b = Some v \<and> b \<noteq> []"
    and c: "complete c" "OTLPToken c = []" "ProtectedOTLPToken c \<noteq> []"
    and save: "config_Save S f c s = (None, c', s')"
  shows "case unprotectSecret S (ProtectedOTLPToken c) of
      None \<Rightarrow> config_Load S s' = Inl UnprotectOTLPToken
    | Some old \<Rightarrow> \<exists>l. config_Load S s' = Inr l \<and> complete l \<and>
        l\<lparr>ProtectedPrivateKey := [], ProtectedOTLPToken := []\<rparr> =
          (Defaults c)\<lparr>OTLPToken := old, ProtectedPrivateKey := [], ProtectedOTLPToken := [],
            KeyProtection := protectionName S\<rparr>"
proof -
  obtain disk where disk: "seal S (Defaults c) = Inr disk" "dest s' = Content disk"
    using config_Save_ok[OF save] by blast
  obtain k where k: "pr (PrivateKey c) = Some k"
    using disk(1) c(1) by (auto simp: S seal_def secrets_windows_def complete_def split: if_splits option.splits)
  have key: "unprotectSecret S (b64_encode k) = Some (PrivateKey c)" "b64_encode k \<noteq> []"
    using dpapi[OF k] b64_encode_not_Nil[of k] by (simp_all add: S unprotect_windows)
  have d: "disk = (Defaults c)\<lparr>ProtectedPrivateKey := b64_encode k,
        PrivateKey := [], OTLPToken := [], KeyProtection := protectionName S\<rparr>"
    using disk(1) k c by (auto simp: S seal_def secrets_windows_def complete_def split: if_splits option.splits)
  define l where "l = disk\<lparr>PrivateKey := PrivateKey c\<rparr>"
  have u: "unseal_key S disk = Inr l" by (simp add: unseal_key_def l_def) (simp add: d key)
  have t: "unseal_token S l = (case unprotectSecret S (ProtectedOTLPToken c) of
      None \<Rightarrow> Inl UnprotectOTLPToken | Some old \<Rightarrow> Inr (l\<lparr>OTLPToken := old\<rparr>))"
    unfolding unseal_token_def using c(3) by (simp add: l_def) (simp add: d)
  show ?thesis
  proof (cases "unprotectSecret S (ProtectedOTLPToken c)")
    case None
    with disk(2) u t show ?thesis by (simp add: config_Load_def)
  next
    case (Some old)
    have "config_Load S s' = Inr (Defaults (l\<lparr>OTLPToken := old\<rparr>)) \<and> complete (Defaults (l\<lparr>OTLPToken := old\<rparr>))"
      using disk(2) u t Some c(1) by (simp add: config_Load_def complete_def Let_def) (simp add: l_def d)
    moreover have "(Defaults (l\<lparr>OTLPToken := old\<rparr>))\<lparr>ProtectedPrivateKey := [], ProtectedOTLPToken := []\<rparr> =
      (Defaults c)\<lparr>OTLPToken := old, ProtectedPrivateKey := [], ProtectedOTLPToken := [], KeyProtection := protectionName S\<rparr>"
      by (cases c) (simp add: l_def d Defaults_def)
    ultimately show ?thesis using Some by auto
  qed
qed

definition sample_config :: Config where
  "sample_config = zero_config\<lparr>ServerURL := ''https://meter.example'', Config_DeviceID := ''device'',
     PrivateKey := ''private'', OTLPToken := ''otel''\<rparr>"

section \<open>Properties\<close>

text \<open>
  C24: what a complete configuration is after it has been saved and loaded again. On a platform that
  does not seal secrets, and on one that does when the OTel token is not empty or no sealed copy of a
  token is kept, every field comes back: because the plain fields are kept, or because
  \<open>CryptUnprotectData\<close> opens what \<open>CryptProtectData\<close> has sealed. Only the sealed copies and the
  protection label differ from the defaulted record that was saved. In the remaining case, a sealing
  platform with an empty token and a sealed copy of an earlier one, the earlier token comes back in
  the place of the empty one and all other fields as saved; when the copy cannot be opened, \<open>Load\<close> fails.
\<close>

theorem config_roundtrip:
  assumes S: "S = secrets_other \<or> S = secrets_windows pr un"
    and dpapi: "\<And>v b. pr v = Some b \<Longrightarrow> un b = Some v \<and> b \<noteq> []"
    and c: "complete c"
    and save: "config_Save S f c s = (None, c', s')"
  shows "if S = secrets_other \<or> OTLPToken c \<noteq> [] \<or> ProtectedOTLPToken c = []
    then (\<exists>l. config_Load S s' = Inr l \<and> complete l \<and>
      l\<lparr>ProtectedPrivateKey := [], ProtectedOTLPToken := []\<rparr> =
        (Defaults c)\<lparr>ProtectedPrivateKey := [], ProtectedOTLPToken := [], KeyProtection := protectionName S\<rparr>)
    else (case unprotectSecret S (ProtectedOTLPToken c) of
        None \<Rightarrow> config_Load S s' = Inl UnprotectOTLPToken
      | Some old \<Rightarrow> \<exists>l. config_Load S s' = Inr l \<and> complete l \<and>
          l\<lparr>ProtectedPrivateKey := [], ProtectedOTLPToken := []\<rparr> =
            (Defaults c)\<lparr>OTLPToken := old, ProtectedPrivateKey := [], ProtectedOTLPToken := [],
              KeyProtection := protectionName S\<rparr>)"
proof -
  obtain disk where disk: "seal S (Defaults c) = Inr disk" "dest s' = Content disk"
    using config_Save_ok[OF save] by blast
  show ?thesis
  proof (cases "S = secrets_other")
    case True
    with saved_loads_other[OF c] disk show ?thesis by simp
  next
    case False
    with S have w: "S = secrets_windows pr un" by blast
    show ?thesis
    proof (cases "OTLPToken c \<noteq> [] \<or> ProtectedOTLPToken c = []")
      case True
      with saved_loads_windows[OF w dpapi c True disk] show ?thesis by simp
    next
      case no: False
      with kept_token_loads[OF w dpapi c _ _ save] False show ?thesis by simp
    qed
  qed
qed

theorem config_roundtrip_witness:
  "\<exists>l. config_Load (secrets_windows (\<lambda>v. Some (CHR ''#'' # v)) (\<lambda>b. Some (tl b)))
      (snd (snd (config_Save (secrets_windows (\<lambda>v. Some (CHR ''#'' # v)) (\<lambda>b. Some (tl b)))
        None sample_config empty_slot))) = Inr l \<and> PrivateKey l = ''private'' \<and> OTLPToken l = ''otel''"
proof -
  let ?S = "secrets_windows (\<lambda>v. Some (CHR ''#'' # v)) (\<lambda>b. Some (tl b))"
  obtain c' s' where s: "config_Save ?S None sample_config empty_slot = (None, c', s')"
    by (simp add: config_Save_def seal_def secrets_windows_def sample_config_def Let_def write_replace_None)
  have tok: "OTLPToken sample_config \<noteq> []" and com: "complete sample_config"
    by (simp_all add: sample_config_def complete_def)
  have "if ?S = secrets_other \<or> OTLPToken sample_config \<noteq> [] \<or> ProtectedOTLPToken sample_config = []
    then (\<exists>l. config_Load ?S s' = Inr l \<and> complete l \<and>
      l\<lparr>ProtectedPrivateKey := [], ProtectedOTLPToken := []\<rparr> =
        (Defaults sample_config)\<lparr>ProtectedPrivateKey := [], ProtectedOTLPToken := [], KeyProtection := protectionName ?S\<rparr>)
    else (case unprotectSecret ?S (ProtectedOTLPToken sample_config) of
        None \<Rightarrow> config_Load ?S s' = Inl UnprotectOTLPToken
      | Some old \<Rightarrow> \<exists>l. config_Load ?S s' = Inr l \<and> complete l \<and>
          l\<lparr>ProtectedPrivateKey := [], ProtectedOTLPToken := []\<rparr> =
            (Defaults sample_config)\<lparr>OTLPToken := old, ProtectedPrivateKey := [], ProtectedOTLPToken := [],
              KeyProtection := protectionName ?S\<rparr>)"
    by (rule config_roundtrip[OF _ _ com s]) auto
  with tok obtain l where l: "config_Load ?S s' = Inr l"
    "l\<lparr>ProtectedPrivateKey := [], ProtectedOTLPToken := []\<rparr> =
      (Defaults sample_config)\<lparr>ProtectedPrivateKey := [], ProtectedOTLPToken := [],
        KeyProtection := protectionName ?S\<rparr>" by auto
  have "PrivateKey l = ''private'' \<and> OTLPToken l = ''otel''"
    using arg_cong[OF l(2), of PrivateKey] arg_cong[OF l(2), of OTLPToken] by (simp add: sample_config_def)
  with l(1) s show ?thesis by simp
qed

text \<open>
  C32: where the platform seals secrets, neither the private key nor the OTel token is ever written
  in plain text: whatever fault occurs, the file either is the old one or has both plain fields empty.
\<close>

theorem no_plaintext_secrets:
  assumes "secureSecretStorage S" and "config_Save S f c s = (e, c', s')"
  shows "dest s' = dest s \<or> (\<exists>d. dest s' = Content d \<and> PrivateKey d = [] \<and> OTLPToken d = [])"
proof (cases e)
  case None
  with assms(2) obtain disk where "seal S (Defaults c) = Inr disk" "dest s' = Content disk"
    using config_Save_ok by blast
  then show ?thesis using assms(1) by (auto simp: seal_def split: option.splits if_splits)
next
  case (Some e')
  with assms(2) show ?thesis by (auto dest: config_Save_error)
qed

theorem no_plaintext_secrets_witness:
  "\<exists>d. dest (snd (snd (config_Save (secrets_windows Some Some) None sample_config empty_slot))) = Content d \<and>
     PrivateKey d = []"
proof -
  obtain e c' s' where s: "config_Save (secrets_windows Some Some) None sample_config empty_slot = (e, c', s')"
    by (metis prod.collapse)
  have "dest s' \<noteq> dest (empty_slot :: Config slot)"
    using s by (auto simp: config_Save_def seal_def secrets_windows_def sample_config_def Let_def
        write_replace_None empty_slot_def)
  with no_plaintext_secrets[OF _ s] s show ?thesis by (auto simp: secrets_windows_def)
qed

text \<open>
  \<open>Defaults\<close> is idempotent and establishes the schedule the service relies on: an integrity scan
  at most every five minutes whatever an older file says, no zero interval or retention, and a first
  sequence number of 1.
\<close>

theorem defaults_establish:
  "Defaults (Defaults c) = Defaults c \<and> 300 \<le> IntegritySeconds (Defaults c) \<and>
   HeartbeatSeconds (Defaults c) \<noteq> 0 \<and> UsageSeconds (Defaults c) \<noteq> 0 \<and>
   RetentionDays (Defaults c) \<noteq> 0 \<and> NextSequence (Defaults c) \<noteq> 0 \<and>
   (IntegritySeconds c = 60 \<longrightarrow> IntegritySeconds (Defaults c) = 300) \<and>
   (300 \<le> IntegritySeconds c \<longrightarrow> IntegritySeconds (Defaults c) = IntegritySeconds c)"
  by (simp add: Defaults_def)

theorem defaults_establish_witness:
  "IntegritySeconds (Defaults (sample_config\<lparr>IntegritySeconds := 60\<rparr>)) = 300"
  using defaults_establish[of "sample_config\<lparr>IntegritySeconds := 60\<rparr>"] by simp

text \<open>
  Where secrets are sealed, clearing the OTel token does not clear its sealed copy: a
  configuration saved with an empty token and a sealed copy of an earlier token comes back from
  \<open>Load\<close> with the earlier token.
\<close>

theorem emptied_token_returns:
  assumes "pr (PrivateKey c) = Some k" and "un k = Some (PrivateKey c)" and "k \<noteq> []"
    and "ProtectedOTLPToken c = b64_encode b" and "b \<noteq> []" and "un b = Some old" and "old \<noteq> []"
    and "complete c" and "OTLPToken c = []"
  shows "\<exists>l. config_Load (secrets_windows pr un)
      (snd (snd (config_Save (secrets_windows pr un) None c s))) = Inr l \<and> OTLPToken l = old"
proof -
  have ne: "b64_encode x \<noteq> []" if "x \<noteq> []" for x
    using that b64_decode_encode[of x] b64_decode_encode[of "[]"] by (metis b64_encode.simps(1) option.inject)
  show ?thesis
    using assms ne[of k] ne[of b]
    by (auto simp: config_Save_def seal_def secrets_windows_def Let_def write_replace_None config_Load_def
        unseal_key_def unseal_token_def complete_def)
qed

theorem emptied_token_returns_witness:
  "\<exists>l. config_Load (secrets_windows Some Some)
      (snd (snd (config_Save (secrets_windows Some Some) None
        (sample_config\<lparr>OTLPToken := [], ProtectedOTLPToken := b64_encode ''old''\<rparr>) empty_slot))) = Inr l \<and>
    OTLPToken l = ''old''"
  by (rule emptied_token_returns[where k = "''private''" and b = "''old''"])
    (simp_all add: sample_config_def complete_def)

end
