(* ===== verification/FileTree.thy ===== *)
theory FileTree
  imports Prelude
begin

text \<open>
  What the agent sees of the file system: directory trees, \<open>os.Stat\<close>, \<open>filepath.WalkDir\<close>, and the
  POSIX half of package \<open>path/filepath\<close>.

  A tree is one snapshot: each operation of the source that walks a directory is a function of the
  tree at that moment. The constructors include what makes the calls fail. Symbolic links and
  special files are not represented.
\<close>

datatype io_err = NotExist | OtherErr

datatype node =
    File bytes go_time
  | NoOpen int go_time \<comment> \<open>\<open>os.Stat\<close> works, \<open>os.Open\<close> does not\<close>
  | NoStat io_err
  | Dir "io_err option" "(string \<times> node) list" \<comment> \<open>the error of reading the directory, and its entries\<close>

definition stat_child :: "node \<Rightarrow> string \<Rightarrow> io_err + node" where
  "stat_child d name =
     (case d of
        Dir _ es \<Rightarrow>
          (case map_of es name of
             None \<Rightarrow> Inl NotExist | Some (NoStat e) \<Rightarrow> Inl e | Some n \<Rightarrow> Inr n)
      | NoStat e \<Rightarrow> Inl e
      | _ \<Rightarrow> Inl OtherErr)"

definition is_dir :: "node \<Rightarrow> bool" where
  "is_dir n = (case n of Dir _ _ \<Rightarrow> True | _ \<Rightarrow> False)"

text \<open>
  The calls \<open>filepath.WalkDir\<close> makes to its callback: path and name of each entry in the order of
  the names, and the errors it passes on.
\<close>

datatype visit =
    AtDir string
  | AtFile string string node
  | AtErr io_err

fun visits :: "string \<Rightarrow> string \<Rightarrow> node \<Rightarrow> visit list"
  and visits_in :: "string \<Rightarrow> (string \<times> node) list \<Rightarrow> visit list" where
  "visits p name (Dir None es) = AtDir p # visits_in p es"
| "visits p name (Dir (Some e) es) = [AtDir p, AtErr e]"
| "visits p name (File b t) = [AtFile p name (File b t)]"
| "visits p name (NoOpen k t) = [AtFile p name (NoOpen k t)]"
| "visits p name (NoStat e) = [AtFile p name (NoStat e)]"
| "visits_in p [] = []"
| "visits_in p ((name, n) # es) = visits (p @ ''/'' @ name) name n @ visits_in p es"

text \<open>The walk that starts at the entry \<open>name\<close> of directory \<open>d\<close>; paths are relative to \<open>d\<close>.\<close>

definition walk_visits :: "node \<Rightarrow> string \<Rightarrow> visit list" where
  "walk_visits d name =
     (case stat_child d name of Inl e \<Rightarrow> [AtErr e] | Inr n \<Rightarrow> visits name name n)"

text \<open>
  The callback runs on the visits in order; its first error ends the walk. The variables it has
  assigned keep their values.
\<close>

fun walk :: "('s \<Rightarrow> visit \<Rightarrow> io_err option \<times> 's) \<Rightarrow> visit list \<Rightarrow> 's \<Rightarrow> io_err option \<times> 's" where
  "walk f [] s = (None, s)"
| "walk f (v # vs) s = (case f s v of (Some e, s') \<Rightarrow> (Some e, s') | (None, s') \<Rightarrow> walk f vs s')"

lemma walk_append:
  "walk f (vs @ ws) s =
     (case walk f vs s of (Some e, s') \<Rightarrow> (Some e, s') | (None, s') \<Rightarrow> walk f ws s')"
  by (induction vs arbitrary: s) (auto split: option.splits prod.splits)

lemma walk_invariant:
  "P s \<Longrightarrow> (\<And>a v. v \<in> set vs \<Longrightarrow> P a \<Longrightarrow> P (snd (f a v))) \<Longrightarrow> P (snd (walk f vs s))"
proof (induction vs arbitrary: s)
  case Nil
  then show ?case by simp
next
  case (Cons v vs)
  have "P (snd (f s v))" using Cons.prems by simp
  from Cons.IH[OF this] Cons.prems(2) show ?case using \<open>P (snd (f s v))\<close>
    by (cases "f s v"; cases "fst (f s v)") auto
qed

text \<open>A walk whose steps never fail is a fold.\<close>

lemma walk_fold:
  "(\<And>a v. v \<in> set vs \<Longrightarrow> f a v = (None, g v a)) \<Longrightarrow> walk f vs s = (None, fold g vs s)"
  by (induction vs arbitrary: s) auto

text \<open>\<open>strings.HasSuffix(strings.ToLower(entry.Name()), ".jsonl")\<close>.\<close>

definition is_jsonl :: "string \<Rightarrow> bool" where
  "is_jsonl name = HasSuffix (ToLower name) ''.jsonl''"

definition mtime :: "node \<Rightarrow> go_time" where
  "mtime n = (case n of File _ t \<Rightarrow> t | NoOpen _ t \<Rightarrow> t | _ \<Rightarrow> zero_time)"

definition log_dirs :: "string list" where
  "log_dirs = [''sessions'', ''archived_sessions'']"

section \<open>POSIX paths\<close>

definition slash :: char where "slash = CHR ''/''"
definition dot :: string where "dot = ''.''"
definition dotdot :: string where "dotdot = ''..''"

text \<open>\<open>filepath.Clean\<close>: the stack holds the components kept so far, the last one first.\<close>

definition clean_step :: "bool \<Rightarrow> string list \<Rightarrow> string \<Rightarrow> string list" where
  "clean_step rooted st c =
     (if c = [] \<or> c = dot then st
      else if c = dotdot then
        (if st \<noteq> [] \<and> hd st \<noteq> dotdot then tl st else if rooted then st else dotdot # st)
      else c # st)"

definition clean_parts :: "bool \<Rightarrow> string list \<Rightarrow> string list" where
  "clean_parts rooted cs = rev (fold (\<lambda>c st. clean_step rooted st c) cs [])"

definition IsAbs :: "string \<Rightarrow> bool" where
  "IsAbs p = (p \<noteq> [] \<and> hd p = slash)"

definition posix_Clean :: "string \<Rightarrow> string" where
  "posix_Clean p =
     (let parts = clean_parts (IsAbs p) (split_char slash p)
      in if IsAbs p then slash # join_with [slash] parts
         else if parts = [] then dot else join_with [slash] parts)"

definition posix_Join :: "string list \<Rightarrow> string" where
  "posix_Join elems =
     (let es = filter (\<lambda>e. e \<noteq> []) elems in if es = [] then [] else posix_Clean (join_with [slash] es))"

definition posix_Abs :: "string option \<Rightarrow> string \<Rightarrow> string option" where
  "posix_Abs cwd p =
     (if IsAbs p then Some (posix_Clean p)
      else (case cwd of None \<Rightarrow> None | Some wd \<Rightarrow> Some (posix_Join [wd, p])))"

definition posix_SplitList :: "string \<Rightarrow> string list" where
  "posix_SplitList s = (if s = [] then [] else split_char (CHR '':'') s)"

record path_ops =
  Clean :: "string \<Rightarrow> string"
  Abs :: "string \<Rightarrow> string option"
  Join :: "string list \<Rightarrow> string"
  SplitList :: "string \<Rightarrow> string list"

definition posix_paths :: "string option \<Rightarrow> path_ops" where
  "posix_paths cwd =
     \<lparr>Clean = posix_Clean, Abs = posix_Abs cwd, Join = posix_Join, SplitList = posix_SplitList\<rparr>"

lemma dots: "dot \<noteq> []" "dotdot \<noteq> []" "dot \<noteq> dotdot" "dotdot \<noteq> dot" "slash \<notin> set dot" "slash \<notin> set dotdot"
  by (simp_all add: dot_def dotdot_def slash_def)

text \<open>A component that \<open>Clean\<close> keeps, and a list of components it returns.\<close>

definition plain_part :: "string \<Rightarrow> bool" where
  "plain_part c = (c \<noteq> [] \<and> c \<noteq> dot \<and> slash \<notin> set c)"

text \<open>Last component first: a \<open>..\<close> only stands on other ones, at the front of a relative path.\<close>

fun clean_stack :: "bool \<Rightarrow> string list \<Rightarrow> bool" where
  "clean_stack rooted [] = True"
| "clean_stack rooted (c # st) =
     (plain_part c \<and> (c = dotdot \<longrightarrow> \<not> rooted \<and> set st \<subseteq> {dotdot}) \<and> clean_stack rooted st)"

lemma clean_stack_step:
  "clean_stack rooted st \<Longrightarrow> slash \<notin> set c \<Longrightarrow> clean_stack rooted (clean_step rooted st c)"
proof (cases st)
  case Nil
  assume "slash \<notin> set c"
  with Nil show ?thesis by (simp add: clean_step_def plain_part_def dots)
next
  case (Cons d ds)
  assume st: "clean_stack rooted st" and c: "slash \<notin> set c"
  show ?thesis
  proof (cases "c = dotdot")
    case True
    with Cons st show ?thesis by (cases "d = dotdot"; cases rooted) (simp_all add: clean_step_def plain_part_def dots)
  next
    case False
    with Cons st c show ?thesis by (cases "c = [] \<or> c = dot") (simp_all add: clean_step_def plain_part_def)
  qed
qed

lemma clean_stack_fold:
  "clean_stack rooted st \<Longrightarrow> (\<And>c. c \<in> set cs \<Longrightarrow> slash \<notin> set c) \<Longrightarrow>
   clean_stack rooted (fold (\<lambda>c st. clean_step rooted st c) cs st)"
  by (induction cs arbitrary: st) (auto intro: clean_stack_step)

lemma clean_stack_dots: "clean_stack rooted st \<Longrightarrow> st \<noteq> [] \<Longrightarrow> hd st = dotdot \<Longrightarrow> set st \<subseteq> {dotdot}"
  by (cases st) auto

lemma clean_step_push:
  "clean_stack rooted (c # st) \<Longrightarrow> clean_step rooted st c = c # st"
  by (cases st) (auto simp: clean_step_def plain_part_def)

lemma clean_fold_id:
  "clean_stack rooted st \<Longrightarrow> fold (\<lambda>c st. clean_step rooted st c) (rev st) [] = st"
  by (induction st) (simp_all add: clean_step_push)

lemma clean_parts_idem:
  assumes "\<And>c. c \<in> set cs \<Longrightarrow> slash \<notin> set c"
  shows "clean_parts rooted (clean_parts rooted cs) = clean_parts rooted cs"
proof -
  have "clean_stack rooted (fold (\<lambda>c st. clean_step rooted st c) cs [])"
    using assms by (intro clean_stack_fold) auto
  from clean_fold_id[OF this] show ?thesis by (simp add: clean_parts_def)
qed

lemma clean_stack_plain: "clean_stack rooted st \<Longrightarrow> c \<in> set st \<Longrightarrow> plain_part c"
  by (induction st) auto

lemma clean_parts_plain:
  assumes "c \<in> set (clean_parts rooted (split_char slash p))"
  shows "plain_part c"
  using assms clean_stack_fold[of rooted "[]" "split_char slash p"] split_char_no_sep[of _ slash p]
  by (auto simp: clean_parts_def dest: clean_stack_plain)

lemma posix_Clean_not_Nil [simp]: "posix_Clean p \<noteq> []"
proof -
  have "join_with [slash] parts \<noteq> []" if "parts \<noteq> []" "\<And>c. c \<in> set parts \<Longrightarrow> plain_part c" for parts
    using that by (cases parts; cases "tl parts") (auto simp: plain_part_def)
  with clean_parts_plain[of _ "IsAbs p" p] show ?thesis by (auto simp: posix_Clean_def Let_def dots)
qed

lemma join_plain_not_abs:
  assumes "parts \<noteq> []" "\<And>c. c \<in> set parts \<Longrightarrow> plain_part c"
  shows "\<not> IsAbs (join_with [slash] parts)"
proof (cases parts)
  case (Cons c cs)
  then have "c \<noteq> []" "slash \<notin> set c" using assms(2)[of c] by (auto simp: plain_part_def)
  then have "hd c \<noteq> slash" by (metis list.set_sel(1))
  with Cons \<open>c \<noteq> []\<close> show ?thesis by (cases cs) (auto simp: IsAbs_def)
qed (use assms in simp)

lemma clean_parts_Nil_Cons: "clean_parts rooted ([] # cs) = clean_parts rooted cs"
  by (simp add: clean_parts_def clean_step_def)

lemma posix_Clean_idem: "posix_Clean (posix_Clean p) = posix_Clean p"
proof -
  let ?ps = "clean_parts (IsAbs p) (split_char slash p)"
  have plain: "\<And>c. c \<in> set ?ps \<Longrightarrow> plain_part c" by (rule clean_parts_plain)
  have nos: "\<And>c. c \<in> set ?ps \<Longrightarrow> slash \<notin> set c" using plain by (auto simp: plain_part_def)
  have idem: "clean_parts (IsAbs p) ?ps = ?ps"
    by (rule clean_parts_idem) (rule split_char_no_sep)
  show ?thesis
  proof (cases "?ps = []")
    case True
    show ?thesis
    proof (cases "IsAbs p")
      case A: True
      with True have p: "posix_Clean p = [slash]" by (simp add: posix_Clean_def Let_def)
      show ?thesis unfolding p
        by (simp add: posix_Clean_def IsAbs_def clean_parts_def clean_step_def Let_def)
    next
      case False
      with True have p: "posix_Clean p = dot" by (simp add: posix_Clean_def Let_def)
      show ?thesis unfolding p
        by (simp add: posix_Clean_def IsAbs_def clean_parts_def clean_step_def Let_def slash_def dot_def)
    qed
  next
    case False
    have sp: "split_char slash (join_with [slash] ?ps) = ?ps"
      using False nos by (rule split_char_join_with)
    show ?thesis
    proof (cases "IsAbs p")
      case A: True
      have p: "posix_Clean p = slash # join_with [slash] ?ps" using A by (simp add: posix_Clean_def Let_def)
      have "IsAbs (slash # join_with [slash] ?ps)" by (simp add: IsAbs_def)
      with A idem sp show ?thesis unfolding p by (simp add: posix_Clean_def Let_def clean_parts_Nil_Cons)
    next
      case R: False
      have p: "posix_Clean p = join_with [slash] ?ps" using R False by (simp add: posix_Clean_def Let_def)
      have "\<not> IsAbs (join_with [slash] ?ps)" using False plain by (rule join_plain_not_abs)
      with R idem sp False show ?thesis unfolding p by (simp add: posix_Clean_def Let_def)
    qed
  qed
qed

section \<open>Paths of a tree are distinct\<close>

text \<open>What every file system guarantees: names are not empty, hold no slash and differ within a directory.\<close>

fun wf_node :: "node \<Rightarrow> bool" and wf_entries :: "(string \<times> node) list \<Rightarrow> bool" where
  "wf_node (Dir e es) = wf_entries es"
| "wf_node (File b t) = True"
| "wf_node (NoOpen k t) = True"
| "wf_node (NoStat e) = True"
| "wf_entries [] = True"
| "wf_entries ((name, n) # es) =
     (name \<noteq> [] \<and> slash \<notin> set name \<and> name \<notin> set (map fst es) \<and> wf_node n \<and> wf_entries es)"

fun file_path :: "visit \<Rightarrow> string option" where
  "file_path (AtFile p name n) = Some p"
| "file_path _ = None"

definition file_paths :: "visit list \<Rightarrow> string list" where
  "file_paths vs = List.map_filter file_path vs"

lemma file_paths_simps [simp]:
  "file_paths [] = []" "file_paths (AtFile p name n # vs) = p # file_paths vs"
  "file_paths (AtDir p # vs) = file_paths vs" "file_paths (AtErr e # vs) = file_paths vs"
  "file_paths (vs @ ws) = file_paths vs @ file_paths ws"
  by (simp_all add: file_paths_def map_filter_simps map_filter_def)

definition below :: "string \<Rightarrow> string \<Rightarrow> bool" where
  "below p q = (q = p \<or> (\<exists>r. q = p @ slash # r))"

lemma below_trans: "below (p @ slash # name) q \<Longrightarrow> \<exists>r. q = p @ slash # name @ r \<and> (r = [] \<or> hd r = slash)"
  by (auto simp: below_def)

lemma visits_below:
  "q \<in> set (file_paths (visits p name n)) \<Longrightarrow> below p q"
  "q \<in> set (file_paths (visits_in p es)) \<Longrightarrow> \<exists>nm \<in> set (map fst es). below (p @ slash # nm) q"
proof (induction p name n and p es rule: visits_visits_in.induct)
  case (1 p name es)
  then show ?case by (auto simp: below_def)
next
  case (7 p name n es)
  then show ?case by (auto simp: slash_def)
qed (auto simp: below_def)

lemma below_name:
  assumes "below (p @ slash # a) q" "below (p @ slash # b) q" "slash \<notin> set a" "slash \<notin> set b"
  shows "a = b"
proof -
  obtain r s where r: "q = p @ slash # a @ r" "r = [] \<or> hd r = slash"
    and s: "q = p @ slash # b @ s" "s = [] \<or> hd s = slash"
    using below_trans[OF assms(1)] below_trans[OF assms(2)] by blast
  have tw: "takeWhile (\<lambda>c. c \<noteq> slash) (x @ y) = x" if "slash \<notin> set x" "y = [] \<or> hd y = slash" for x y
    using that by (cases y) (auto simp: takeWhile_append takeWhile_eq_all_conv)
  have "a @ r = b @ s" using r(1) s(1) by simp
  then show ?thesis using tw[OF assms(3) r(2)] tw[OF assms(4) s(2)] by simp
qed

lemma wf_entries_names: "wf_entries es \<Longrightarrow> nm \<in> set (map fst es) \<Longrightarrow> slash \<notin> set nm"
  by (induction es) (auto simp del: set_map list.set_map)

lemma visits_distinct:
  "wf_node n \<Longrightarrow> distinct (file_paths (visits p name n))"
  "wf_entries es \<Longrightarrow> distinct (file_paths (visits_in p es))"
proof (induction p name n and p es rule: visits_visits_in.induct)
  case (7 p name n es)
  have "x \<notin> set (file_paths (visits_in p es))" if x: "x \<in> set (file_paths (visits (p @ ''/'' @ name) name n))" for x
  proof
    assume "x \<in> set (file_paths (visits_in p es))"
    then obtain nm where nm: "nm \<in> set (map fst es)" "below (p @ slash # nm) x" using visits_below(2) by blast
    have "below (p @ slash # name) x" using visits_below(1)[OF x] by (simp add: slash_def)
    from below_name[OF this nm(2)] 7(3) nm(1) wf_entries_names[of es nm] show False by auto
  qed
  with 7 show ?case by auto
qed auto

lemma wf_child: "wf_node d \<Longrightarrow> stat_child d name = Inr n \<Longrightarrow> wf_node n"
proof -
  have "wf_entries es \<Longrightarrow> map_of es name = Some n \<Longrightarrow> wf_node n" for es
    by (induction es) (auto split: if_splits)
  then show "wf_node d \<Longrightarrow> stat_child d name = Inr n \<Longrightarrow> wf_node n"
    by (cases d) (auto simp: stat_child_def split: option.splits node.splits)
qed

end
