(* ===== verification/CodexHome.thy ===== *)
theory CodexHome
  imports FileTree
begin

text \<open>
  \<open>internal/agent/codexhome.go\<close>: which directory is the Codex home of the machine. The host record
  holds what the functions ask the operating system for; a home directory is a tree of
  \<open>FileTree\<close>. The path functions of Windows are a field of it, those of POSIX are defined.
\<close>

record host =
  GOOS :: string
  cwd :: "string option"
  windows_paths :: path_ops
  Getenv :: "string \<Rightarrow> string"
  UserHomeDir :: "string option"
  Glob :: "string \<Rightarrow> string list"
  disk :: "string \<Rightarrow> io_err + node"

definition paths :: "host \<Rightarrow> path_ops" where
  "paths h = (if GOOS h = ''windows'' then windows_paths h else posix_paths (cwd h))"

record CodexHomeResolution =
  Path :: string
  Source :: string
  LogCount :: nat
  LatestLog :: go_time

record codexHomeCandidate =
  cpath :: string
  csource :: string

definition splitCodexHomes :: "path_ops \<Rightarrow> string \<Rightarrow> string list" where
  "splitCodexHomes P value =
     filter (\<lambda>p. p \<noteq> [])
       (map TrimSpace (concat (map (SplitList P) (split_char (CHR '','') value))))"

definition candidate :: "string \<Rightarrow> string \<Rightarrow> codexHomeCandidate" where
  "candidate p s = \<lparr>cpath = p, csource = s\<rparr>"

definition platformCodexHomeCandidates :: "host \<Rightarrow> codexHomeCandidate list" where
  "platformCodexHomeCandidates h =
     (let P = paths h;
          drive = (if Getenv h ''SystemDrive'' = [] then ''C:'' else Getenv h ''SystemDrive'')
      in (if Getenv h ''CODEX_HOME'' \<noteq> []
          then map (\<lambda>p. candidate p ''CODEX_HOME'') (splitCodexHomes P (Getenv h ''CODEX_HOME'')) else [])
       @ (case UserHomeDir h of
            Some home \<Rightarrow> (if home \<noteq> [] then [candidate (Join P [home, ''.codex'']) ''current-user''] else [])
          | None \<Rightarrow> [])
       @ (if GOOS h = ''windows'' then
            (if Getenv h ''USERPROFILE'' \<noteq> []
             then [candidate (Join P [Getenv h ''USERPROFILE'', ''.codex'']) ''USERPROFILE''] else [])
            @ map (\<lambda>p. candidate p ''windows-profile'')
                (Glob h (Join P [drive @ [CHR 0x5C], ''Users'', ''*'', ''.codex'']))
          else
            concat (map (\<lambda>pat. map (\<lambda>p. candidate p ''local-profile'') (Glob h pat))
              [''/home/*/.codex'', ''/Users/*/.codex''])))"

section \<open>Logs of a home\<close>

definition summary_visit :: "nat \<times> go_time \<Rightarrow> visit \<Rightarrow> io_err option \<times> (nat \<times> go_time)" where
  "summary_visit s v =
     (case v of
        AtErr e \<Rightarrow> (if e = NotExist then (None, s) else (Some e, s))
      | AtDir _ \<Rightarrow> (None, s)
      | AtFile _ name n \<Rightarrow>
          (if \<not> is_jsonl name then (None, s)
           else (case n of
                   NoStat e \<Rightarrow> (Some e, s)
                 | _ \<Rightarrow> (case s of (cnt, latest) \<Rightarrow>
                          (None, (cnt + 1, if After (mtime n) latest then mtime n else latest))))))"

text \<open>The loop over the two directories: only an error other than "does not exist" ends it.\<close>

fun summary_dirs :: "node \<Rightarrow> string list \<Rightarrow> nat \<times> go_time \<Rightarrow> io_err + nat \<times> go_time" where
  "summary_dirs home [] s = Inr s"
| "summary_dirs home (d # ds) s =
     (case walk summary_visit (walk_visits home d) s of
        (Some OtherErr, _) \<Rightarrow> Inl OtherErr
      | (_, s') \<Rightarrow> summary_dirs home ds s')"

definition sessionLogSummary :: "node \<Rightarrow> io_err + nat \<times> go_time" where
  "sessionLogSummary home = summary_dirs home log_dirs (0, zero_time)"

definition inspectCodexHome :: "host \<Rightarrow> codexHomeCandidate \<Rightarrow> CodexHomeResolution option" where
  "inspectCodexHome h c =
     (case Abs (paths h) (cpath c) of
        None \<Rightarrow> None
      | Some p \<Rightarrow>
          let path = Clean (paths h) p
          in (case disk h path of
                Inl _ \<Rightarrow> None
              | Inr home \<Rightarrow>
                  if \<not> is_dir home then None
                  else (case sessionLogSummary home of
                          Inl _ \<Rightarrow> None
                        | Inr (logs, latest) \<Rightarrow>
                            if logs = 0 \<and> (\<exists>e. stat_child home ''config.toml'' = Inl e) then None
                            else Some \<lparr>Path = path, Source = csource c, LogCount = logs, LatestLog = latest\<rparr>)))"

section \<open>Choice of the home\<close>

definition pathKey :: "host \<Rightarrow> string \<Rightarrow> string" where
  "pathKey h p =
     (let q = Clean (paths h) p in if GOOS h = ''windows'' then ToLower q else q)"

fun valid_homes :: "host \<Rightarrow> string list \<Rightarrow> codexHomeCandidate list \<Rightarrow> CodexHomeResolution list" where
  "valid_homes h seen [] = []"
| "valid_homes h seen (c # cs) =
     (if TrimSpace (cpath c) = [] then valid_homes h seen cs
      else if pathKey h (cpath c) \<in> set seen then valid_homes h seen cs
      else (case inspectCodexHome h c of None \<Rightarrow> [] | Some r \<Rightarrow> [r])
           @ valid_homes h (pathKey h (cpath c) # seen) cs)"

definition home_less :: "CodexHomeResolution \<Rightarrow> CodexHomeResolution \<Rightarrow> bool" where
  "home_less a b =
     (if (LogCount a > 0) \<noteq> (LogCount b > 0) then LogCount a > 0
      else if LatestLog a \<noteq> LatestLog b then After (LatestLog a) (LatestLog b)
      else Source a = ''configured'')"

definition resolveCodexHome :: "host \<Rightarrow> string \<Rightarrow> codexHomeCandidate list \<Rightarrow> CodexHomeResolution" where
  "resolveCodexHome h configured candidates =
     (let valid = valid_homes h [] (candidate configured ''configured'' # candidates)
      in if valid = [] then
           \<lparr>Path = Clean (paths h) (case Abs (paths h) configured of None \<Rightarrow> [] | Some p \<Rightarrow> p),
            Source = ''configured'', LogCount = 0, LatestLog = zero_time\<rparr>
         else (case find (\<lambda>r. Source r = ''configured'' \<and> LogCount r > 0) valid of
                 Some r \<Rightarrow> r
               | None \<Rightarrow> hd (SliceStable home_less valid)))"

definition ResolveCodexHome :: "host \<Rightarrow> string \<Rightarrow> CodexHomeResolution" where
  "ResolveCodexHome h configured = resolveCodexHome h configured (platformCodexHomeCandidates h)"

text \<open>The comparison orders by this key: homes with logs first, then the newest log, then the configured one.\<close>

definition home_key :: "CodexHomeResolution \<Rightarrow> bool \<times> int \<times> bool" where
  "home_key r = (LogCount r = 0, - nanos (LatestLog r), Source r \<noteq> ''configured'')"

definition one_configured :: "CodexHomeResolution list \<Rightarrow> bool" where
  "one_configured rs = (length (filter (\<lambda>r. Source r = ''configured'') rs) \<le> 1)"

lemma home_less_key:
  "\<not> (Source a = ''configured'' \<and> Source b = ''configured'') \<Longrightarrow> home_less a b \<longleftrightarrow> home_key a < home_key b"
  by (cases "LatestLog a"; cases "LatestLog b")
    (auto simp: home_less_def home_key_def After_def time_simps less_prod_def)

interpretation home_order: sort_contract home_less home_key one_configured
proof (unfold_locales, goal_cases)
  case (1 x xs)
  then show ?case by (auto simp: one_configured_def split: if_splits)
next
  case (2 x xs y)
  have "\<not> (Source y = ''configured'' \<and> Source x = ''configured'')"
  proof
    assume c: "Source y = ''configured'' \<and> Source x = ''configured''"
    with 2 have "filter (\<lambda>r. Source r = ''configured'') xs = []" by (auto simp: one_configured_def)
    with c 2(2) show False by (auto simp: filter_empty_conv)
  qed
  then show ?case by (rule home_less_key)
qed

lemma valid_homes_origin:
  "r \<in> set (valid_homes h seen cs) \<Longrightarrow>
   \<exists>c \<in> set cs. TrimSpace (cpath c) \<noteq> [] \<and> inspectCodexHome h c = Some r"
  by (induction cs arbitrary: seen) (auto split: if_splits option.splits)

lemma inspect_Source: "inspectCodexHome h c = Some r \<Longrightarrow> Source r = csource c"
  by (auto simp: inspectCodexHome_def Let_def split: option.splits sum.splits if_splits)

lemma inspect_Path:
  "inspectCodexHome h c = Some r \<Longrightarrow> \<exists>p. Abs (paths h) (cpath c) = Some p \<and> Path r = Clean (paths h) p"
  by (auto simp: inspectCodexHome_def Let_def split: option.splits sum.splits if_splits)

lemma inspect_useful:
  "inspectCodexHome h c = Some r \<Longrightarrow> LogCount r > 0 \<or>
    (\<exists>home n. disk h (Path r) = Inr home \<and> stat_child home ''config.toml'' = Inr n)"
  by (auto simp: inspectCodexHome_def Let_def split: option.splits sum.splits if_splits) (metis obj_sumE)

lemma platform_sources: "c \<in> set (platformCodexHomeCandidates h) \<Longrightarrow> csource c \<noteq> ''configured''"
  by (auto simp: platformCodexHomeCandidates_def candidate_def Let_def split: if_splits option.splits)

lemma valid_homes_configured:
  assumes "\<And>c. c \<in> set cs \<Longrightarrow> csource c \<noteq> ''configured''"
  shows "filter (\<lambda>r. Source r = ''configured'') (valid_homes h seen cs) = []"
  using assms valid_homes_origin[of _ h seen cs] inspect_Source
  by (auto simp: filter_empty_conv) metis

lemma valid_one_configured:
  assumes "\<And>c. c \<in> set cs \<Longrightarrow> csource c \<noteq> ''configured''"
  shows "one_configured (valid_homes h seen (candidate p ''configured'' # cs))"
  using valid_homes_configured[OF assms] by (auto simp: one_configured_def split: option.splits)

section \<open>POSIX paths: one key, one directory\<close>

lemma clean_replay:
  "clean_stack False T \<Longrightarrow> (\<And>c. c \<in> set cs \<Longrightarrow> slash \<notin> set c) \<Longrightarrow>
   fold (\<lambda>c st. clean_step True st c) (rev (fold (\<lambda>c st. clean_step False st c) cs T)) S =
   fold (\<lambda>c st. clean_step True st c) cs (fold (\<lambda>c st. clean_step True st c) (rev T) S)"
proof (induction cs arbitrary: T)
  case Nil
  then show ?case by simp
next
  case (Cons c cs)
  have step: "fold (\<lambda>c st. clean_step True st c) (rev (clean_step False T c)) S =
      clean_step True (fold (\<lambda>c st. clean_step True st c) (rev T) S) c"
  proof (cases "c = dotdot \<and> T \<noteq> [] \<and> hd T \<noteq> dotdot")
    case True
    then obtain d ds where T: "T = d # ds" "d \<noteq> dotdot" by (cases T) auto
    with Cons.prems(1) have "plain_part d" by simp
    with T True show ?thesis by (simp add: clean_step_def plain_part_def dots)
  next
    case False
    then show ?thesis by (auto simp: clean_step_def)
  qed
  have "clean_stack False (clean_step False T c)" using Cons.prems by (intro clean_stack_step) auto
  from Cons.IH[OF this] Cons.prems(2) step show ?case by simp
qed

definition rel_parts :: "string \<Rightarrow> string list" where
  "rel_parts p = clean_parts False (split_char slash p)"

lemma Clean_rel_inject:
  assumes "\<not> IsAbs p" "\<not> IsAbs q" "posix_Clean p = posix_Clean q"
  shows "rel_parts p = rel_parts q"
proof -
  have sp: "split_char slash (posix_Clean x) = (if rel_parts x = [] then [dot] else rel_parts x)"
    if "\<not> IsAbs x" for x
    using that clean_parts_plain[of _ False x]
    by (auto simp: posix_Clean_def Let_def rel_parts_def split_char_single dots plain_part_def
        intro!: split_char_join_with)
  have "dot \<notin> set (rel_parts x)" for x
    using clean_parts_plain[of dot False x] by (auto simp: rel_parts_def plain_part_def)
  with sp[OF assms(1)] sp[OF assms(2)] assms(3) show ?thesis
    by (metis list.set_intros(1))
qed

lemma split_char_join2: "split_char slash (a @ slash # b) = split_char slash a @ split_char slash b"
  by (induction a) (auto split: list.splits)

lemma join_clean:
  assumes "IsAbs wd" "p \<noteq> []"
  shows "posix_Join [wd, p] = slash # join_with [slash]
    (rev (fold (\<lambda>c st. clean_step True st c) (rel_parts p)
       (fold (\<lambda>c st. clean_step True st c) (split_char slash wd) [])))"
proof -
  have wd: "wd \<noteq> []" "IsAbs (wd @ slash # p)" using assms by (auto simp: IsAbs_def)
  have "fold (\<lambda>c st. clean_step True st c) (rel_parts p) S =
      fold (\<lambda>c st. clean_step True st c) (split_char slash p) S" for S
    unfolding rel_parts_def clean_parts_def
    using clean_replay[of "[]" "split_char slash p" S] split_char_no_sep[of _ slash p] by simp
  with wd assms show ?thesis
    by (simp add: posix_Join_def posix_Clean_def clean_parts_def Let_def split_char_join2)
qed

lemma IsAbs_Clean [simp]: "IsAbs (posix_Clean p) = IsAbs p"
proof (cases "IsAbs p")
  case True
  then show ?thesis by (simp add: posix_Clean_def IsAbs_def Let_def)
next
  case False
  have "\<not> IsAbs dot" by (simp add: IsAbs_def dot_def slash_def)
  with False join_plain_not_abs[of "clean_parts False (split_char slash p)"] clean_parts_plain[of _ False p]
  show ?thesis by (auto simp: posix_Clean_def Let_def)
qed

text \<open>Two non-empty paths with the same cleaned form name the same absolute path.\<close>

lemma Clean_eq_Abs_eq:
  assumes "posix_Clean p = posix_Clean q" "p \<noteq> []" "q \<noteq> []" "IsAbs wd"
  shows "posix_Abs (Some wd) p = posix_Abs (Some wd) q"
proof (cases "IsAbs p")
  case True
  with assms(1) have "IsAbs q" by (metis IsAbs_Clean)
  with True assms(1) show ?thesis by (simp add: posix_Abs_def)
next
  case False
  with assms(1) have "\<not> IsAbs q" by (metis IsAbs_Clean)
  with False Clean_rel_inject[OF False this assms(1)] assms show ?thesis
    by (simp add: posix_Abs_def join_clean)
qed

lemma posix_Abs_abs: "posix_Abs (Some wd) p = Some q \<Longrightarrow> IsAbs wd \<Longrightarrow> IsAbs q \<and> posix_Clean q = q"
  by (auto simp: posix_Abs_def posix_Join_def posix_Clean_idem IsAbs_def Let_def split: if_splits)
    (auto simp: posix_Clean_def IsAbs_def Let_def)

section \<open>What an inspection depends on\<close>

lemma summary_visit_keeps:
  "P 0 zero_time \<Longrightarrow> (\<And>k t. P (Suc k) t) \<Longrightarrow> P (fst s) (snd s) \<Longrightarrow>
   P (fst (snd (summary_visit s v))) (snd (snd (summary_visit s v)))"
  by (cases s) (auto simp: summary_visit_def split: visit.splits node.splits)

lemma summary_no_logs: "sessionLogSummary home = Inr (0, t) \<Longrightarrow> t = zero_time"
proof -
  let ?P = "\<lambda>s :: nat \<times> go_time. fst s = 0 \<longrightarrow> snd s = zero_time"
  have keep: "?P (snd (walk summary_visit vs s))" if "?P s" for vs s
  proof (rule walk_invariant[where P = ?P])
    show "?P s" by (rule that)
    fix a v
    assume "?P a"
    then show "?P (snd (summary_visit a v))"
      using summary_visit_keeps[of "\<lambda>k t. k = 0 \<longrightarrow> t = zero_time" a v] by simp
  qed
  have "?P s'" if "summary_dirs home ds s = Inr s'" "?P s" for ds s s'
    using that
  proof (induction ds arbitrary: s)
    case Nil
    then show ?case by simp
  next
    case (Cons d ds)
    obtain o' s1 where w: "walk summary_visit (walk_visits home d) s = (o', s1)" by (metis prod.collapse)
    with keep[OF Cons.prems(2), of "walk_visits home d"] have "?P s1" by simp
    moreover have "summary_dirs home ds s1 = Inr s'"
      using Cons.prems(1) w by (auto split: option.splits io_err.splits)
    ultimately show ?case by (intro Cons.IH)
  qed
  from this[of log_dirs "(0, zero_time)" "(0, t)"] show "sessionLogSummary home = Inr (0, t) \<Longrightarrow> t = zero_time"
    by (simp add: sessionLogSummary_def)
qed

lemma inspect_no_logs: "inspectCodexHome h c = Some r \<Longrightarrow> LogCount r = 0 \<Longrightarrow> LatestLog r = zero_time"
  by (auto simp: inspectCodexHome_def Let_def summary_no_logs
      split: option.splits sum.splits if_splits prod.splits)

lemma inspect_cong:
  assumes "map_option (Clean (paths h)) (Abs (paths h) (cpath c)) =
    map_option (Clean (paths h)) (Abs (paths h) (cpath d))"
  shows "map_option (\<lambda>r. r\<lparr>Source := s\<rparr>) (inspectCodexHome h c) =
    map_option (\<lambda>r. r\<lparr>Source := s\<rparr>) (inspectCodexHome h d)"
  using assms
  by (cases "Abs (paths h) (cpath c)"; cases "Abs (paths h) (cpath d)")
    (auto simp: inspectCodexHome_def Let_def split: sum.splits prod.splits)

lemma posix_host: "GOOS h \<noteq> ''windows'' \<Longrightarrow> paths h = posix_paths (cwd h)"
  by (simp add: paths_def)

definition posix_at :: "host \<Rightarrow> string \<Rightarrow> bool" where
  "posix_at h wd = (GOOS h \<noteq> ''windows'' \<and> cwd h = Some wd \<and> IsAbs wd)"

lemma posix_at_simps:
  assumes "posix_at h wd"
  shows "Clean (paths h) = posix_Clean" "Abs (paths h) = posix_Abs (Some wd)" "pathKey h p = posix_Clean p"
  using assms by (simp_all add: posix_at_def posix_host posix_paths_def pathKey_def)

lemma inspect_same_key:
  assumes "posix_at h wd" "pathKey h (cpath c) = pathKey h (cpath d)" "cpath c \<noteq> []" "cpath d \<noteq> []"
  shows "map_option (\<lambda>r. r\<lparr>Source := s\<rparr>) (inspectCodexHome h c) =
    map_option (\<lambda>r. r\<lparr>Source := s\<rparr>) (inspectCodexHome h d)"
  using assms Clean_eq_Abs_eq[of "cpath c" "cpath d" wd]
  by (intro inspect_cong) (simp add: posix_at_simps[OF assms(1)] posix_at_def)

lemma TrimSpace_not_Nil: "TrimSpace p \<noteq> [] \<Longrightarrow> p \<noteq> []"
  by auto

text \<open>Every candidate that passes the inspection is represented among the valid homes.\<close>

lemma valid_homes_complete:
  assumes "posix_at h wd" and "c \<in> set cs" "TrimSpace (cpath c) \<noteq> []" "inspectCodexHome h c = Some r"
    and "pathKey h (cpath c) \<notin> set seen"
  shows "\<exists>x \<in> set (valid_homes h seen cs). x\<lparr>Source := s\<rparr> = r\<lparr>Source := s\<rparr>"
  using assms(2,5)
proof (induction cs arbitrary: seen)
  case Nil
  then show ?case by simp
next
  case (Cons d ds)
  show ?case
  proof (cases "TrimSpace (cpath d) = [] \<or> pathKey h (cpath d) \<in> set seen")
    case True
    with Cons.prems assms(3) have "c \<in> set ds" by auto
    with Cons.IH[OF this Cons.prems(2)] True show ?thesis by auto
  next
    case new: False
    show ?thesis
    proof (cases "pathKey h (cpath c) = pathKey h (cpath d)")
      case True
      have "map_option (\<lambda>r. r\<lparr>Source := s\<rparr>) (inspectCodexHome h d) = Some (r\<lparr>Source := s\<rparr>)"
        using inspect_same_key[OF assms(1) True TrimSpace_not_Nil TrimSpace_not_Nil, of s] assms(3,4) new by simp
      then obtain x where "inspectCodexHome h d = Some x" "x\<lparr>Source := s\<rparr> = r\<lparr>Source := s\<rparr>" by auto
      with new show ?thesis by auto
    next
      case False
      with Cons.prems have "c \<in> set ds" by auto
      from Cons.IH[OF this, of "pathKey h (cpath d) # seen"] False Cons.prems(2) new show ?thesis by auto
    qed
  qed
qed

lemma find_None_hd: "find P xs = None \<Longrightarrow> x \<in> set xs \<Longrightarrow> \<not> P x"
  by (auto simp: find_None_iff)

lemma find_first: "xs \<noteq> [] \<Longrightarrow> P (hd xs) \<Longrightarrow> find P xs = Some (hd xs)"
  by (cases xs) auto

section \<open>Properties\<close>

lemma pinned_home:
  assumes "TrimSpace configured \<noteq> []"
    and "inspectCodexHome h (candidate configured ''configured'') = Some r" and "LogCount r > 0"
  shows "resolveCodexHome h configured candidates = r"
proof -
  let ?v = "valid_homes h [] (candidate configured ''configured'' # candidates)"
  have v: "?v \<noteq> []" "hd ?v = r" using assms(1,2) by (simp_all add: candidate_def)
  have "Source r = ''configured''" using inspect_Source[OF assms(2)] by (simp add: candidate_def)
  with v assms(3) find_first[of ?v "\<lambda>r. Source r = ''configured'' \<and> LogCount r > 0"] show ?thesis
    by (simp add: resolveCodexHome_def Let_def del: valid_homes.simps)
qed

text \<open>
  C33: a configured home that holds session logs stays pinned: whatever other candidates the machine
  offers, with however new logs, resolution returns the configured home.
\<close>

theorem resolve_pinned:
  assumes "TrimSpace configured \<noteq> []"
    and "inspectCodexHome h (candidate configured ''configured'') = Some r" and "LogCount r > 0"
  shows "resolveCodexHome h configured candidates = r"
  using assms by (rule pinned_home)

definition sample_host :: host where
  "sample_host = \<lparr>GOOS = ''linux'', cwd = Some ''/'', windows_paths = posix_paths None,
     Getenv = (\<lambda>_. []), UserHomeDir = Some ''/home/b'', Glob = (\<lambda>_. []),
     disk = (\<lambda>p. if p = ''/home/a/.codex'' then Inr (Dir None [(''sessions'', Dir None [(''s.jsonl'', File [] (Time 5))])])
       else if p = ''/home/b/.codex'' then Inr (Dir None [(''sessions'', Dir None [(''t.JSONL'', File [] (Time 9))])])
       else if p = ''/opt/codex'' then Inr (Dir None [(''config.toml'', File [] (Time 1))])
       else Inl NotExist)\<rparr>"

lemma sample_paths:
  "posix_Clean ''/home/a/.codex'' = ''/home/a/.codex''" "posix_Clean ''/opt/codex'' = ''/opt/codex''"
  "posix_Clean ''/home/b/.codex'' = ''/home/b/.codex''" "posix_Join [''/home/b'', ''.codex''] = ''/home/b/.codex''"
  by (simp_all add: posix_Join_def posix_Clean_def clean_parts_def clean_step_def IsAbs_def slash_def dot_def
      dotdot_def Let_def)

lemma sample_jsonl: "is_jsonl ''s.jsonl''" "is_jsonl ''t.JSONL''"
  by code_simp+

lemma sample_inspect:
  "inspectCodexHome sample_host (candidate ''/home/a/.codex'' s) =
     Some \<lparr>Path = ''/home/a/.codex'', Source = s, LogCount = 1, LatestLog = Time 5\<rparr>"
  "inspectCodexHome sample_host (candidate ''/home/b/.codex'' s) =
     Some \<lparr>Path = ''/home/b/.codex'', Source = s, LogCount = 1, LatestLog = Time 9\<rparr>"
  "inspectCodexHome sample_host (candidate ''/opt/codex'' s) =
     Some \<lparr>Path = ''/opt/codex'', Source = s, LogCount = 0, LatestLog = Time 0\<rparr>"
  by (simp_all add: inspectCodexHome_def candidate_def sample_host_def paths_def posix_paths_def posix_Abs_def
      IsAbs_def slash_def sample_paths Let_def is_dir_def stat_child_def sessionLogSummary_def log_dirs_def
      walk_visits_def summary_visit_def sample_jsonl After_def less_go_time_def zero_time_def mtime_def)

theorem resolve_pinned_witness:
  "LatestLog (resolveCodexHome sample_host ''/home/a/.codex'' [candidate ''/home/b/.codex'' ''current-user'']) = Time 5"
  using resolve_pinned[OF _ sample_inspect(1)] by (simp add: TrimSpace_def is_space_def)

abbreviation considered :: "host \<Rightarrow> string \<Rightarrow> CodexHomeResolution list" where
  "considered h configured \<equiv>
     valid_homes h [] (candidate configured ''configured'' # platformCodexHomeCandidates h)"

lemma resolve_cases:
  assumes "considered h configured \<noteq> []"
  shows "(\<exists>r \<in> set (considered h configured).
      Source r = ''configured'' \<and> LogCount r > 0 \<and> ResolveCodexHome h configured = r) \<or>
    ((\<forall>r \<in> set (considered h configured). Source r = ''configured'' \<longrightarrow> LogCount r = 0) \<and>
     ResolveCodexHome h configured = hd (SliceStable home_less (considered h configured)))"
proof (cases "find (\<lambda>r. Source r = ''configured'' \<and> LogCount r > 0) (considered h configured)")
  case None
  with assms have "ResolveCodexHome h configured = hd (SliceStable home_less (considered h configured))"
    by (simp add: ResolveCodexHome_def resolveCodexHome_def Let_def del: valid_homes.simps)
  moreover have "\<forall>r \<in> set (considered h configured). Source r = ''configured'' \<longrightarrow> LogCount r = 0"
    using None find_None_hd by fastforce
  ultimately show ?thesis by blast
next
  case (Some r)
  then have "r \<in> set (considered h configured) \<and> Source r = ''configured'' \<and> LogCount r > 0"
    by (auto simp: find_Some_iff simp del: valid_homes.simps)
  with Some assms show ?thesis
    by (auto simp: ResolveCodexHome_def resolveCodexHome_def Let_def simp del: valid_homes.simps)
qed

lemmas considered_one = valid_one_configured[OF platform_sources]

lemma resolve_least:
  assumes "considered h configured \<noteq> []"
    and "\<forall>r \<in> set (considered h configured). Source r = ''configured'' \<longrightarrow> LogCount r = 0"
  shows "ResolveCodexHome h configured \<in> set (considered h configured)"
    and "x \<in> set (considered h configured) \<Longrightarrow> home_key (ResolveCodexHome h configured) \<le> home_key x"
  using resolve_cases[OF assms(1)] assms(2) home_order.SliceStable_hd[OF considered_one assms(1)]
  by (auto simp del: valid_homes.simps)

lemma best_home:
  assumes "considered h configured \<noteq> []"
    and "\<forall>r \<in> set (considered h configured). Source r = ''configured'' \<longrightarrow> LogCount r = 0"
  shows "ResolveCodexHome h configured \<in> set (considered h configured) \<and>
    (\<forall>x \<in> set (considered h configured).
       (LogCount x > 0 \<longrightarrow> LogCount (ResolveCodexHome h configured) > 0 \<and>
          LatestLog x \<le> LatestLog (ResolveCodexHome h configured)) \<and>
       (LogCount (ResolveCodexHome h configured) = 0 \<and> Source x = ''configured'' \<longrightarrow>
          Source (ResolveCodexHome h configured) = ''configured''))"
proof -
  let ?r = "ResolveCodexHome h configured"
  have none: "LogCount y = 0 \<Longrightarrow> LatestLog y = zero_time" if "y \<in> set (considered h configured)" for y
    using valid_homes_origin[OF that] inspect_no_logs by blast
  have "(LogCount x > 0 \<longrightarrow> LogCount ?r > 0 \<and> LatestLog x \<le> LatestLog ?r) \<and>
      (LogCount ?r = 0 \<and> Source x = ''configured'' \<longrightarrow> Source ?r = ''configured'')"
    if x: "x \<in> set (considered h configured)" for x
    using resolve_least(2)[OF assms x] none[OF x] none[OF resolve_least(1)[OF assms]]
    by (auto simp: home_key_def less_eq_prod_def time_simps)
  with resolve_least(1)[OF assms] show ?thesis by blast
qed

text \<open>
  When the configured home holds no logs, resolution returns the best of the homes that passed
  the inspection: one with logs if there is any, the one with the newest log among them, and with no
  logs anywhere the configured home if it is valid. The choice always is a home that passed.
\<close>

theorem resolve_best:
  assumes "considered h configured \<noteq> []"
    and "\<forall>r \<in> set (considered h configured). Source r = ''configured'' \<longrightarrow> LogCount r = 0"
  shows "ResolveCodexHome h configured \<in> set (considered h configured) \<and>
    (\<forall>x \<in> set (considered h configured).
       (LogCount x > 0 \<longrightarrow> LogCount (ResolveCodexHome h configured) > 0 \<and>
          LatestLog x \<le> LatestLog (ResolveCodexHome h configured)) \<and>
       (LogCount (ResolveCodexHome h configured) = 0 \<and> Source x = ''configured'' \<longrightarrow>
          Source (ResolveCodexHome h configured) = ''configured''))"
  using assms by (rule best_home)

lemma sample_considered:
  "considered sample_host ''/opt/codex'' =
     [\<lparr>Path = ''/opt/codex'', Source = ''configured'', LogCount = 0, LatestLog = Time 0\<rparr>,
      \<lparr>Path = ''/home/b/.codex'', Source = ''current-user'', LogCount = 1, LatestLog = Time 9\<rparr>]"
proof -
  have "platformCodexHomeCandidates sample_host = [candidate ''/home/b/.codex'' ''current-user'']"
    by (simp add: platformCodexHomeCandidates_def sample_host_def Let_def paths_def posix_paths_def sample_paths)
  moreover have "pathKey sample_host ''/opt/codex'' = ''/opt/codex''"
    "pathKey sample_host ''/home/b/.codex'' = ''/home/b/.codex''"
    by (simp_all add: pathKey_def sample_host_def paths_def posix_paths_def sample_paths)
  moreover have "TrimSpace ''/opt/codex'' \<noteq> []" "TrimSpace ''/home/b/.codex'' \<noteq> []"
    by (simp_all add: TrimSpace_def is_space_def)
  ultimately show ?thesis
    using sample_inspect(2)[of "''current-user''"] sample_inspect(3)[of "''configured''"]
    by (simp add: candidate_def)
qed

theorem resolve_best_witness:
  "LogCount (ResolveCodexHome sample_host ''/opt/codex'') > 0"
  using resolve_best[of sample_host "''/opt/codex''", unfolded sample_considered] by simp

text \<open>A valid home, entered as the configured one, passes the inspection again with the same logs.\<close>

lemma reinspect:
  assumes "posix_at h wd" and c: "inspectCodexHome h c = Some r"
  shows "IsAbs (Path r) \<and> TrimSpace (Path r) \<noteq> [] \<and>
    (\<exists>r'. inspectCodexHome h (candidate (Path r) ''configured'') = Some r' \<and> Path r' = Path r \<and>
      LogCount r' = LogCount r \<and> Source r' = ''configured'')"
proof -
  from inspect_Path[OF c] obtain p where p: "posix_Abs (Some wd) (cpath c) = Some p" "Path r = posix_Clean p"
    by (auto simp: posix_at_simps[OF assms(1)])
  have pa: "IsAbs p" "posix_Clean p = p" using posix_Abs_abs[OF p(1)] assms(1) by (simp_all add: posix_at_def)
  with p have q: "IsAbs (Path r)" by simp
  have "map_option (\<lambda>r. r\<lparr>Source := []\<rparr>) (inspectCodexHome h (candidate (Path r) ''configured'')) =
      map_option (\<lambda>r. r\<lparr>Source := []\<rparr>) (inspectCodexHome h c)"
    using pa q p by (intro inspect_cong) (simp add: posix_at_simps[OF assms(1)] candidate_def posix_Abs_def)
  with c obtain r' where r': "inspectCodexHome h (candidate (Path r) ''configured'') = Some r'"
    "r'\<lparr>Source := []\<rparr> = r\<lparr>Source := []\<rparr>" by auto
  have "Path r' = Path r" "LogCount r' = LogCount r"
    using arg_cong[OF r'(2), of Path] arg_cong[OF r'(2), of LogCount] by simp_all
  moreover have "Source r' = ''configured''" using inspect_Source[OF r'(1)] by (simp add: candidate_def)
  moreover obtain s where "Path r = slash # s" using q by (cases "Path r") (auto simp: IsAbs_def)
  then have "TrimSpace (Path r) \<noteq> []"
    by (simp add: TrimSpace_def dropWhile_eq_Nil_conv is_space_def slash_def)
  ultimately show ?thesis using q r'(1) by blast
qed

lemma resolved_considered:
  "considered h configured \<noteq> [] \<Longrightarrow> ResolveCodexHome h configured \<in> set (considered h configured)"
  using resolve_cases[of h configured] home_order.SliceStable_hd(1)[OF considered_one[where h = h and p = configured]]
  by (auto simp del: valid_homes.simps)

text \<open>Where no platform candidate has logs, entering a home without logs does not bring any.\<close>

lemma considered_no_logs:
  assumes "posix_at h wd" and "\<forall>x \<in> set (considered h configured). LogCount x = 0"
    and "inspectCodexHome h (candidate q ''configured'') = Some r'" "LogCount r' = 0"
    and x: "x \<in> set (considered h q)"
  shows "LogCount x = 0"
proof -
  from valid_homes_origin[OF x] obtain d where d: "d = candidate q ''configured'' \<or>
      d \<in> set (platformCodexHomeCandidates h)" "TrimSpace (cpath d) \<noteq> []" "inspectCodexHome h d = Some x"
    by (auto simp del: valid_homes.simps)
  from d(1) show ?thesis
  proof
    assume "d = candidate q ''configured''"
    with d(3) assms(3,4) show ?thesis by simp
  next
    assume "d \<in> set (platformCodexHomeCandidates h)"
    then obtain y where y: "y \<in> set (considered h configured)" "y\<lparr>Source := []\<rparr> = x\<lparr>Source := []\<rparr>"
      using valid_homes_complete[OF assms(1) _ d(2,3), of
          "candidate configured ''configured'' # platformCodexHomeCandidates h" "[]" "[]"]
      by (auto simp del: valid_homes.simps)
    from assms(2) y(1) arg_cong[OF y(2), of LogCount] show ?thesis by simp
  qed
qed

text \<open>
  On a POSIX host resolution is stable: once the configuration holds the resolved home, and while
  the file system does not change, resolving again returns the same path. The path is
  absolute, so the guard against an empty path in \<open>refreshCodexHome\<close> never fires.
\<close>

theorem resolve_stable:
  assumes "posix_at h wd" and "considered h configured \<noteq> []"
  shows "Path (ResolveCodexHome h (Path (ResolveCodexHome h configured))) = Path (ResolveCodexHome h configured) \<and>
    IsAbs (Path (ResolveCodexHome h configured))"
proof -
  let ?r = "ResolveCodexHome h configured" and ?cand = "platformCodexHomeCandidates h"
  let ?q = "Path ?r"
  obtain c where c: "inspectCodexHome h c = Some ?r"
    using valid_homes_origin[OF resolved_considered[OF assms(2)]] by blast
  from reinspect[OF assms(1) c] obtain r' where q: "IsAbs ?q" "TrimSpace ?q \<noteq> []"
    and r': "inspectCodexHome h (candidate ?q ''configured'') = Some r'"
      "Path r' = ?q" "LogCount r' = LogCount ?r" "Source r' = ''configured''" by blast
  have v: "considered h ?q = r' # valid_homes h [pathKey h ?q] ?cand"
    using r'(1) q(2) by (simp add: candidate_def)
  show ?thesis
  proof (cases "LogCount ?r > 0")
    case True
    have "ResolveCodexHome h ?q = r'"
      using pinned_home[OF q(2) r'(1)] True r'(3) by (simp add: ResolveCodexHome_def[of h ?q])
    with r'(2) q show ?thesis by simp
  next
    case False
    have "\<forall>x \<in> set (considered h configured). LogCount x = 0"
      using resolve_cases[OF assms(2)] best_home[OF assms(2)] False by (metis (no_types, lifting) neq0_conv)
    from considered_no_logs[OF assms(1) this r'(1)] r'(3) False
    have z: "\<And>x. x \<in> set (considered h ?q) \<Longrightarrow> LogCount x = 0" by simp
    have ne: "considered h ?q \<noteq> []" unfolding v by simp
    have "Source (ResolveCodexHome h ?q) = ''configured'' \<and> ResolveCodexHome h ?q \<in> set (considered h ?q)"
      using best_home[OF ne] z r'(4) v by (metis (no_types, lifting) list.set_intros(1))
    with v r'(2,4) q show ?thesis
      using valid_homes_configured[where cs = ?cand and h = h and seen = "[pathKey h ?q]"] platform_sources
      by (auto simp: filter_empty_conv simp del: valid_homes.simps)
  qed
qed

theorem resolve_stable_witness:
  "Path (ResolveCodexHome sample_host (Path (ResolveCodexHome sample_host ''/opt/codex''))) =
     Path (ResolveCodexHome sample_host ''/opt/codex'')"
proof -
  have "posix_at sample_host ''/''" by (simp add: posix_at_def sample_host_def IsAbs_def slash_def)
  from resolve_stable[OF this, of "''/opt/codex''", unfolded sample_considered] show ?thesis by simp
qed

end
