(* ===== verification/Telemetry.thy ===== *)
theory Telemetry
  imports Encoding
begin

text \<open>
  \<open>internal/agent/detect.go\<close>: the edit of Codex's \<open>config.toml\<close> that installs the \<open>[otel]\<close> section, the
  check and fingerprint of the installed section, and the version strings of the two tools.

  The TOML parser is third-party code and a parameter. Texts are byte strings; white space and the
  escapes of the \<open>%q\<close> verb are those of ASCII, and a rune outside ASCII counts as printable.
\<close>

section \<open>Lines and section headers\<close>

definition newline :: char where "newline = CHR 0x0A"

text \<open>The class \<open>\s\<close> of package \<open>regexp\<close>: unlike \<open>unicode.IsSpace\<close> it has no vertical tab.\<close>

definition re_space :: "char \<Rightarrow> bool" where
  "re_space c = (c = CHR 0x09 \<or> c = CHR 0x0A \<or> c = CHR 0x0C \<or> c = CHR 0x0D \<or> c = CHR '' '')"

text \<open>The group of \<open>^\s*\[([^]]+)\]\s*(?:#.*)?$\<close>, when the line matches.\<close>

definition section_tail :: "string \<Rightarrow> bool" where
  "section_tail t = (let u = dropWhile re_space t in u = [] \<or> hd u = CHR ''#'')"

definition section_body :: "string \<Rightarrow> string option" where
  "section_body r =
     (let g = takeWhile (\<lambda>c. c \<noteq> CHR '']'') r; rest = dropWhile (\<lambda>c. c \<noteq> CHR '']'') r
      in if g \<noteq> [] \<and> rest \<noteq> [] \<and> section_tail (tl rest) then Some g else None)"

definition section_name :: "string \<Rightarrow> string option" where
  "section_name line =
     (case dropWhile re_space line of
        [] \<Rightarrow> None
      | c # r \<Rightarrow> (if c = CHR ''['' then section_body r else None))"

definition is_otel :: "string \<Rightarrow> bool" where
  "is_otel name = (name = ''otel'' \<or> HasPrefix name ''otel.'')"

fun keep_lines :: "bool \<Rightarrow> string list \<Rightarrow> string list" where
  "keep_lines inOtel [] = []"
| "keep_lines inOtel (line # lines) =
     (let inOtel' = (case section_name line of None \<Rightarrow> inOtel | Some name \<Rightarrow> is_otel name)
      in if inOtel' then keep_lines inOtel' lines else line # keep_lines inOtel' lines)"

section \<open>The installed section\<close>

definition quote_byte :: "char \<Rightarrow> string" where
  "quote_byte c =
     (let n = of_char c :: nat
      in if c = CHR 0x22 \<or> c = CHR 0x5C then [CHR 0x5C, c]
         else if n = 7 then [CHR 0x5C, CHR ''a''] else if n = 8 then [CHR 0x5C, CHR ''b'']
         else if n = 9 then [CHR 0x5C, CHR ''t''] else if n = 10 then [CHR 0x5C, CHR ''n'']
         else if n = 11 then [CHR 0x5C, CHR ''v''] else if n = 12 then [CHR 0x5C, CHR ''f'']
         else if n = 13 then [CHR 0x5C, CHR ''r'']
         else if n < 32 \<or> n = 127 then [CHR 0x5C, CHR ''x''] @ hex_byte c
         else [c])"

text \<open>\<open>fmt.Sprintf("%q", s)\<close>.\<close>

definition percent_q :: "string \<Rightarrow> string" where
  "percent_q s = [CHR 0x22] @ concat (map quote_byte s) @ [CHR 0x22]"

definition otel_endpoint :: string where
  "otel_endpoint = ''http://127.0.0.1:9464/v1/logs''"

definition bearer :: "string \<Rightarrow> string" where
  "bearer token = ''Bearer '' @ token"

definition block_lines :: "string \<Rightarrow> string list" where
  "block_lines token =
     [''[otel]'',
      ''environment = '' @ percent_q ''classroom'',
      ''log_user_prompt = false'',
      ''exporter = { otlp-http = { endpoint = '' @ percent_q otel_endpoint
        @ '', protocol = '' @ percent_q ''json'' @ '', headers = { Authorization = ''
        @ percent_q (bearer token) @ '' } } }'']"

definition telemetryBlock :: "string \<Rightarrow> string" where
  "telemetryBlock token = concat (map (\<lambda>l. l @ [newline]) (block_lines token))"

definition configured_text :: "string \<Rightarrow> string \<Rightarrow> string" where
  "configured_text data token =
     (let content = TrimSpace (join_with [newline] (keep_lines False (split_char newline data)))
      in (if content \<noteq> [] then content @ [newline, newline] else []) @ telemetryBlock token)"

section \<open>Status and fingerprint\<close>

record otel_exporter =
  exp_endpoint :: string
  exp_protocol :: string
  exp_headers :: "(string \<times> string) list"

record otel_document =
  LogUserPrompt :: "bool option"
  Exporter :: "(string \<times> otel_exporter) list"

definition zero_exporter :: otel_exporter where
  "zero_exporter = \<lparr>exp_endpoint = [], exp_protocol = [], exp_headers = []\<rparr>"

text \<open>\<open>config.toml\<close> as the file system gives it, and the error of \<open>TelemetryStatus\<close>.\<close>

datatype text_file = NoFile | NoRead | TextFile string

datatype telemetry_err = TomlMissing | TomlUnreadable | TomlInvalid | TomlMkdir | TomlWrite

definition http_exporter :: "otel_document \<Rightarrow> otel_exporter" where
  "http_exporter d = (case map_of (Exporter d) ''otlp-http'' of Some e \<Rightarrow> e | None \<Rightarrow> zero_exporter)"

definition exporter_auth :: "otel_exporter \<Rightarrow> string" where
  "exporter_auth e = (case map_of (exp_headers e) ''Authorization'' of Some v \<Rightarrow> v | None \<Rightarrow> [])"

definition prompt_disabled :: "otel_document \<Rightarrow> bool" where
  "prompt_disabled d = (LogUserPrompt d = Some False)"

definition telemetry_canonical :: "crypto \<Rightarrow> otel_exporter \<Rightarrow> bool \<Rightarrow> string" where
  "telemetry_canonical C e promptDisabled =
     ''endpoint='' @ exp_endpoint e @ [newline] @ ''protocol='' @ exp_protocol e @ [newline]
     @ ''log_user_prompt='' @ (if promptDisabled then ''false'' else ''true'') @ [newline]
     @ ''auth_sha256='' @ sha256_hex C (exporter_auth e)"

definition TelemetryStatus ::
  "crypto \<Rightarrow> (string \<Rightarrow> otel_document option) \<Rightarrow> text_file \<Rightarrow> string \<Rightarrow> string \<times> bool \<times> telemetry_err option" where
  "TelemetryStatus C toml f token =
     (case f of
        NoFile \<Rightarrow> (''missing'', False, Some TomlMissing)
      | NoRead \<Rightarrow> (''missing'', False, Some TomlUnreadable)
      | TextFile data \<Rightarrow>
          (case toml data of
             None \<Rightarrow> (''invalid'', False, Some TomlInvalid)
           | Some d \<Rightarrow>
               let e = http_exporter d
               in (sha256_hex C (telemetry_canonical C e (prompt_disabled d)),
                   prompt_disabled d \<and> exp_endpoint e = otel_endpoint \<and> exp_protocol e = ''json''
                     \<and> exporter_auth e = bearer token,
                   None)))"

definition TelemetryFingerprint ::
  "crypto \<Rightarrow> (string \<Rightarrow> otel_document option) \<Rightarrow> text_file \<Rightarrow> string \<Rightarrow> string \<times> telemetry_err option" where
  "TelemetryFingerprint C toml f token =
     (case TelemetryStatus C toml f token of (hash, _, err) \<Rightarrow> (hash, err))"

section \<open>ConfigureTelemetry\<close>

record toml_files =
  toml_config :: text_file
  toml_backup :: text_file

text \<open>
  What the environment does to one call: each of the three writing calls may fail, and a failing
  \<open>os.WriteFile\<close> may have truncated its file.
\<close>

datatype write_outcome = WriteOk | WriteFailed text_file

record toml_env =
  mkdir_ok :: bool
  backup_write :: write_outcome
  config_write :: write_outcome

definition toml_fine :: toml_env where
  "toml_fine = \<lparr>mkdir_ok = True, backup_write = WriteOk, config_write = WriteOk\<rparr>"

definition written :: "write_outcome \<Rightarrow> string \<Rightarrow> text_file" where
  "written w data = (case w of WriteOk \<Rightarrow> TextFile data | WriteFailed f \<Rightarrow> f)"

definition ConfigureTelemetry ::
  "crypto \<Rightarrow> (string \<Rightarrow> otel_document option) \<Rightarrow> toml_env \<Rightarrow> string \<Rightarrow> toml_files \<Rightarrow>
     (string \<times> telemetry_err option) \<times> toml_files" where
  "ConfigureTelemetry C toml env token fs =
     (if \<not> mkdir_ok env then (([], Some TomlMkdir), fs)
      else if toml_config fs = NoRead then (([], Some TomlUnreadable), fs)
      else
        let data = (case toml_config fs of TextFile d \<Rightarrow> d | _ \<Rightarrow> []);
            fs1 = (if data \<noteq> [] then fs\<lparr>toml_backup := written (backup_write env) data\<rparr> else fs);
            fs2 = fs1\<lparr>toml_config := written (config_write env) (configured_text data token)\<rparr>
        in if config_write env \<noteq> WriteOk then (([], Some TomlWrite), fs2)
           else (TelemetryFingerprint C toml (toml_config fs2) token, fs2))"

section \<open>Versions of the tools\<close>

text \<open>The combined output of \<open>path --version\<close>; \<open>None\<close> when the command fails.\<close>

definition CodexVersion :: "string option \<Rightarrow> string" where
  "CodexVersion out = (case out of None \<Rightarrow> ''not-detected'' | Some o' \<Rightarrow> TrimSpace o')"

definition CCUsageVersion :: "string option \<Rightarrow> string" where
  "CCUsageVersion out =
     (case out of
        None \<Rightarrow> ''not-detected''
      | Some o' \<Rightarrow> let fields = Fields o' in if length fields \<ge> 2 then last fields else TrimSpace o')"

section \<open>Headers survive trimming\<close>

definition otel_header :: "string \<Rightarrow> bool" where
  "otel_header line = (case section_name line of None \<Rightarrow> False | Some name \<Rightarrow> is_otel name)"

definition no_otel :: "string \<Rightarrow> bool" where
  "no_otel text = (\<forall>l \<in> set (split_char newline text). \<not> otel_header l)"

lemma keep_lines_no_otel: "l \<in> set (keep_lines b ls) \<Longrightarrow> \<not> otel_header l"
  by (induction ls arbitrary: b) (auto simp: otel_header_def Let_def split: if_splits option.splits)

lemma keep_lines_id: "(\<And>l. l \<in> set ls \<Longrightarrow> \<not> otel_header l) \<Longrightarrow> keep_lines False ls = ls"
  by (induction ls) (auto simp: otel_header_def Let_def split: option.splits)

lemma keep_lines_append:
  "keep_lines b (ls @ ms) = keep_lines b ls @ keep_lines (foldl (\<lambda>b l. case section_name l of
     None \<Rightarrow> b | Some name \<Rightarrow> is_otel name) b ls) ms"
  by (induction ls arbitrary: b) (auto simp: Let_def)

lemma keep_lines_in_otel:
  "(\<And>l. l \<in> set ls \<Longrightarrow> section_name l = None) \<Longrightarrow> keep_lines True ls = []"
  by (induction ls) (auto simp: Let_def)

lemma keep_lines_set: "set (keep_lines b ls) \<subseteq> set ls"
  by (induction ls arbitrary: b) (auto simp: Let_def split: if_splits)

lemma section_name_space: "re_space c \<Longrightarrow> section_name (c # l) = section_name l"
  by (simp add: section_name_def)

lemma section_tail_snoc: "section_tail t \<Longrightarrow> re_space c \<Longrightarrow> section_tail (t @ [c])"
  by (auto simp: section_tail_def Let_def dropWhile_append dropWhile_eq_Nil_conv hd_append split: if_splits)

lemma section_body_snoc: "section_body r = Some g \<Longrightarrow> re_space c \<Longrightarrow> section_body (r @ [c]) = Some g"
  by (auto simp: section_body_def Let_def dropWhile_append takeWhile_append dropWhile_eq_Nil_conv
      takeWhile_eq_all_conv intro: section_tail_snoc split: if_splits)

lemma dropWhile_append_ne: "dropWhile P xs \<noteq> [] \<Longrightarrow> dropWhile P (xs @ ys) = dropWhile P xs @ ys"
  by (induction xs) auto

lemma section_name_snoc: "section_name l = Some g \<Longrightarrow> re_space c \<Longrightarrow> section_name (l @ [c]) = Some g"
  by (cases "dropWhile re_space l")
    (auto simp: section_name_def dropWhile_append_ne section_body_snoc split: if_splits)

lemma otel_header_snoc: "otel_header l \<Longrightarrow> re_space c \<Longrightarrow> otel_header (l @ [c])"
  by (auto simp: otel_header_def section_name_snoc split: option.splits)

lemma no_otel_Cons: "no_otel (c # s) \<Longrightarrow> re_space c \<Longrightarrow> no_otel s"
  by (auto simp: no_otel_def otel_header_def section_name_space split: if_splits list.splits)

lemma split_char_snoc:
  "split_char sep (s @ [c]) =
     (if c = sep then split_char sep s @ [[]]
      else butlast (split_char sep s) @ [last (split_char sep s) @ [c]])"
  by (induction s) (auto split: list.splits)

lemma no_otel_snoc: "no_otel (s @ [c]) \<Longrightarrow> re_space c \<Longrightarrow> no_otel s"
proof -
  assume a: "no_otel (s @ [c])" "re_space c"
  have "set xs = insert (last xs) (set (butlast xs))" if "xs \<noteq> []" for xs :: "string list"
    using that by (induction xs) auto
  from this[of "split_char newline s"] have e: "set (split_char newline s) =
      insert (last (split_char newline s)) (set (butlast (split_char newline s)))" by simp
  show "no_otel s"
  proof (cases "c = newline")
    case True
    with a(1) show ?thesis by (auto simp: no_otel_def split_char_snoc)
  next
    case False
    with a otel_header_snoc[of "last (split_char newline s)" c] show ?thesis
      unfolding no_otel_def e by (auto simp: split_char_snoc)
  qed
qed

text \<open>The texts in which \<open>TrimSpace\<close> and \<open>\s\<close> agree: without a vertical tab.\<close>

definition no_vtab :: "string \<Rightarrow> bool" where
  "no_vtab s = (CHR 0x0B \<notin> set s)"

lemma is_space_re: "is_space c \<Longrightarrow> c \<noteq> CHR 0x0B \<Longrightarrow> re_space c"
proof -
  assume s: "is_space c" and v: "c \<noteq> CHR 0x0B"
  have "of_char c \<in> {9, 10, 11, 12, 13, 32 :: nat}" using s by (auto simp: is_space_def Let_def)
  then have "c \<in> {char_of (9 :: nat), char_of (10 :: nat), char_of (11 :: nat), char_of (12 :: nat),
      char_of (13 :: nat), char_of (32 :: nat)}" by (auto simp del: char_of_nat) (metis char_of_char)+
  moreover have "char_of (9 :: nat) = CHR 0x09" "char_of (10 :: nat) = CHR 0x0A" "char_of (11 :: nat) = CHR 0x0B"
    "char_of (12 :: nat) = CHR 0x0C" "char_of (13 :: nat) = CHR 0x0D" "char_of (32 :: nat) = CHR '' ''"
    by code_simp+
  ultimately show "re_space c" using v by (auto simp: re_space_def)
qed

lemma no_otel_dropWhile: "no_otel s \<Longrightarrow> no_vtab s \<Longrightarrow> no_otel (dropWhile is_space s)"
  by (induction s) (auto simp: no_vtab_def dest: no_otel_Cons intro: is_space_re)

lemma no_otel_trim_end: "no_otel (rev t) \<Longrightarrow> no_vtab t \<Longrightarrow> no_otel (rev (dropWhile is_space t))"
  by (induction t) (auto simp: no_vtab_def dest!: no_otel_snoc intro: is_space_re)

lemma no_vtab_dropWhile: "no_vtab s \<Longrightarrow> no_vtab (dropWhile P s)"
  by (auto simp: no_vtab_def dest: set_dropWhileD)

lemma no_otel_TrimSpace: "no_otel s \<Longrightarrow> no_vtab s \<Longrightarrow> no_otel (TrimSpace s)"
  unfolding TrimSpace_def
  by (rule no_otel_trim_end) (simp_all add: no_otel_dropWhile no_vtab_dropWhile no_vtab_def[of "rev _"]
      no_vtab_def[symmetric])

section \<open>The edit of the file\<close>

lemma percent_q_no_newline: "newline \<notin> set (percent_q s)"
proof -
  have "newline \<notin> set (quote_byte c)" for c
  proof (cases "c = newline")
    case True
    then show ?thesis by (simp add: quote_byte_def newline_def)
  next
    case False
    have "newline \<notin> set (hex_byte c)"
      using hex_encode_chars[of newline "[c]"] by (auto simp: hex_encode_def newline_def is_hex_def is_digit_def)
    with False show ?thesis by (auto simp: quote_byte_def newline_def Let_def)
  qed
  then show ?thesis by (auto simp: percent_q_def newline_def)
qed

lemma block_lines_no_newline: "l \<in> set (block_lines token) \<Longrightarrow> newline \<notin> set l"
  using percent_q_no_newline by (auto simp: block_lines_def newline_def)

lemma block_headers:
  "section_name ''[otel]'' = Some ''otel''"
  "l \<in> set (tl (block_lines token)) \<Longrightarrow> section_name l = None"
  "section_name [] = None"
proof -
  show "section_name ''[otel]'' = Some ''otel''" by code_simp
  show "section_name [] = None" by (simp add: section_name_def)
  show "l \<in> set (tl (block_lines token)) \<Longrightarrow> section_name l = None"
    by (auto simp: block_lines_def section_name_def re_space_def)
qed

lemma keep_block: "keep_lines b (block_lines token @ [[]]) = []"
proof -
  have e: "block_lines token @ [[]] = ''[otel]'' # tl (block_lines token) @ [[]]"
    by (simp add: block_lines_def)
  have "keep_lines True (tl (block_lines token) @ [[]]) = []"
    by (rule keep_lines_in_otel) (use block_headers in auto)
  then show ?thesis unfolding e by (simp add: block_headers is_otel_def)
qed

lemma split_block: "split_char newline (telemetryBlock token) = block_lines token @ [[]]"
  unfolding telemetryBlock_def by (rule split_char_lines) (rule block_lines_no_newline)

lemma keep_lines_prefix:
  "(\<And>l. l \<in> set ls \<Longrightarrow> \<not> otel_header l) \<Longrightarrow> keep_lines False (ls @ ms) = ls @ keep_lines False ms"
  by (induction ls) (auto simp: otel_header_def Let_def split: option.splits)

definition kept_text :: "string \<Rightarrow> string" where
  "kept_text data = TrimSpace (join_with [newline] (keep_lines False (split_char newline data)))"

lemma configured_text_kept:
  "configured_text data token =
     (if kept_text data \<noteq> [] then kept_text data @ [newline, newline] else []) @ telemetryBlock token"
  by (simp add: configured_text_def kept_text_def Let_def)

lemma kept_no_otel: assumes "no_vtab data" shows "no_otel (kept_text data)"
proof -
  let ?k = "keep_lines False (split_char newline data)"
  have k: "\<And>l. l \<in> set ?k \<Longrightarrow> newline \<notin> set l \<and> set l \<subseteq> set data"
    using keep_lines_set[of False "split_char newline data"] split_char_no_sep[of _ newline data]
      split_char_chars[of _ newline data] by blast
  have "no_otel (join_with [newline] ?k)"
  proof (cases "?k = []")
    case True
    then show ?thesis by (simp add: no_otel_def otel_header_def block_headers)
  next
    case False
    have "split_char newline (join_with [newline] ?k) = ?k"
      by (rule split_char_join_with[OF False]) (use k in blast)
    then show ?thesis using keep_lines_no_otel by (auto simp: no_otel_def)
  qed
  moreover have "no_vtab (join_with [newline] ?k)"
    using join_with_chars[of "[newline]" ?k] k assms by (auto simp: no_vtab_def newline_def)
  ultimately show ?thesis unfolding kept_text_def by (rule no_otel_TrimSpace)
qed

text \<open>What a second run keeps of the text that the first has written is what the first has kept.\<close>

lemma kept_configured:
  assumes "no_vtab data"
  shows "kept_text (configured_text data token) = kept_text data"
proof (cases "kept_text data = []")
  case True
  then show ?thesis
    by (simp add: configured_text_kept) (simp add: kept_text_def split_block keep_block)
next
  case False
  let ?ls = "split_char newline (kept_text data) @ [[]]"
  have "\<And>l. l \<in> set ?ls \<Longrightarrow> \<not> otel_header l"
    using kept_no_otel[OF assms] by (auto simp: no_otel_def otel_header_def block_headers)
  then have "keep_lines False (?ls @ block_lines token @ [[]]) = ?ls"
    using keep_lines_prefix[of ?ls "block_lines token @ [[]]"] keep_block by simp
  moreover have "split_char newline (configured_text data token) = ?ls @ block_lines token @ [[]]"
    using False by (simp add: configured_text_kept split_char_at split_block)
  moreover have "join_with [newline] ?ls = kept_text data @ [newline]"
    by (simp add: join_with_snoc split_char_join)
  moreover have "is_space newline" by (simp add: is_space_def newline_def)
  ultimately show ?thesis
    by (simp add: kept_text_def[of "configured_text data token"] TrimSpace_snoc) (simp add: kept_text_def)
qed

lemma configured_text_cong: "kept_text a = kept_text b \<Longrightarrow> configured_text a token = configured_text b token"
  by (simp add: configured_text_kept)

lemma configured_text_none:
  "keep_lines False (split_char newline data) = [] \<Longrightarrow> configured_text data token = telemetryBlock token"
  by (simp add: configured_text_def)

lemma ConfigureTelemetry_fine:
  "toml_config fs = TextFile data \<Longrightarrow>
   toml_config (snd (ConfigureTelemetry C toml toml_fine token fs)) = TextFile (configured_text data token)"
  by (simp add: ConfigureTelemetry_def toml_fine_def written_def Let_def)

lemma keep_section:
  assumes "\<forall>l \<in> set pre. \<not> otel_header l" and "otel_header hdr" and "\<forall>l \<in> set body. section_name l = None"
    and "\<forall>l \<in> set rest. \<not> otel_header l" and "rest = [] \<or> section_name (hd rest) \<noteq> None"
  shows "keep_lines False (pre @ hdr # body @ rest) = pre @ rest"
proof -
  have skip: "keep_lines True (body @ ms) = keep_lines True ms" for ms
    using assms(3) by (induction body) auto
  have "keep_lines True rest = rest"
  proof (cases rest)
    case (Cons r rs)
    with assms(4,5) have "keep_lines False rs = rs" by (intro keep_lines_id) auto
    with Cons assms(4,5) show ?thesis by (auto simp: otel_header_def split: option.splits)
  qed simp
  with assms(2) have "keep_lines False (hdr # body @ rest) = rest"
    by (auto simp: otel_header_def skip split: option.splits)
  with assms(1) show ?thesis by (simp add: keep_lines_prefix)
qed

section \<open>Properties\<close>

text \<open>
  C34: installing the telemetry section again, also with another token as after a re-enrollment, gives
  the same file as installing it once in the original file: no second section and no growing blank
  lines. The condition excludes vertical tabs, which \<open>TrimSpace\<close> removes and \<open>\s\<close> does not match.
\<close>

theorem configure_replaces:
  assumes "toml_config fs = TextFile data" and "no_vtab data"
  shows "toml_config (snd (ConfigureTelemetry C toml toml_fine token'
      (snd (ConfigureTelemetry C toml toml_fine token fs)))) =
    toml_config (snd (ConfigureTelemetry C toml toml_fine token' fs))"
  using configured_text_cong[OF kept_configured[OF assms(2)]]
  by (simp add: ConfigureTelemetry_fine[OF assms(1)] ConfigureTelemetry_fine[OF ConfigureTelemetry_fine[OF assms(1)]])

definition toml_crypto :: crypto where
  "toml_crypto = \<lparr>sha256 = (\<lambda>x. x), ed25519_sign = (\<lambda>_ _. [])\<rparr>"

definition sample_toml :: string where
  "sample_toml = ''a=1'' @ [newline] @ ''[otel]'' @ [newline] @ ''x=2''"

theorem configure_replaces_witness:
  "toml_config (snd (ConfigureTelemetry toml_crypto (\<lambda>_. None) toml_fine ''new''
      (snd (ConfigureTelemetry toml_crypto (\<lambda>_. None) toml_fine ''old'' \<lparr>toml_config = TextFile sample_toml, toml_backup = NoFile\<rparr>)))) =
    toml_config (snd (ConfigureTelemetry toml_crypto (\<lambda>_. None) toml_fine ''new'' \<lparr>toml_config = TextFile sample_toml, toml_backup = NoFile\<rparr>))"
proof (rule configure_replaces)
  show "no_vtab sample_toml" by code_simp
qed simp

text \<open>
  The edit cuts out exactly the \<open>[otel]\<close> section: the lines before its header and the lines from
  the next section header on stay as they are and in order, up to the white space at the two ends of
  the text, and the new section follows them. The old text is saved as the backup.
\<close>

theorem configure_cuts_section:
  assumes "toml_config fs = TextFile data" and "data \<noteq> []"
    and "split_char newline data = pre @ hdr # body @ rest"
    and "\<forall>l \<in> set pre. \<not> otel_header l" and "otel_header hdr" and "\<forall>l \<in> set body. section_name l = None"
    and "\<forall>l \<in> set rest. \<not> otel_header l" and "rest = [] \<or> section_name (hd rest) \<noteq> None"
    and "content = TrimSpace (join_with [newline] (pre @ rest))"
  shows "snd (ConfigureTelemetry C toml toml_fine token fs) =
    \<lparr>toml_config = TextFile ((if content \<noteq> [] then content @ [newline, newline] else []) @ telemetryBlock token),
     toml_backup = TextFile data\<rparr>"
proof -
  have "keep_lines False (split_char newline data) = pre @ rest"
    unfolding assms(3) using assms(4-8) by (rule keep_section)
  with assms(1,2,9) show ?thesis
    by (cases fs) (simp add: ConfigureTelemetry_def toml_fine_def written_def configured_text_def Let_def)
qed

lemma sample_lines:
  "split_char newline sample_toml = [''a=1''] @ ''[otel]'' # [''x=2''] @ []"
  by (simp add: sample_toml_def newline_def)

theorem configure_cuts_section_witness:
  "toml_config (snd (ConfigureTelemetry toml_crypto (\<lambda>_. None) toml_fine ''t'' \<lparr>toml_config = TextFile sample_toml, toml_backup = NoFile\<rparr>)) =
     TextFile (''a=1'' @ [newline, newline] @ telemetryBlock ''t'')"
proof -
  have h: "otel_header ''[otel]''" "\<not> otel_header ''a=1''" "section_name ''x=2'' = None"
    by (simp_all add: otel_header_def block_headers is_otel_def) (simp_all add: section_name_def re_space_def)
  have "snd (ConfigureTelemetry toml_crypto (\<lambda>_. None) toml_fine ''t'' \<lparr>toml_config = TextFile sample_toml, toml_backup = NoFile\<rparr>) =
    \<lparr>toml_config = TextFile ((if ''a=1'' \<noteq> '''' then ''a=1'' @ [newline, newline] else []) @ telemetryBlock ''t''),
     toml_backup = TextFile sample_toml\<rparr>"
    by (rule configure_cuts_section[OF _ _ sample_lines])
      (use h in \<open>simp_all add: sample_toml_def TrimSpace_def is_space_def\<close>)
  then show ?thesis by simp
qed

text \<open>
  The header of an array of tables does not end an \<open>[otel]\<close> section for this editor: an
  \<open>[[...]]\<close> header that follows the section, and the lines after it, are deleted from the file with
  the section.
\<close>

theorem array_table_deleted:
  assumes "toml_config fs = TextFile (join_with [newline] (hdr # (''[['' @ name @ '']]'') # body))"
    and "otel_header hdr" and "CHR '']'' \<notin> set name"
    and "\<forall>l \<in> set (hdr # name # body). newline \<notin> set l" and "\<forall>l \<in> set body. section_name l = None"
  shows "toml_config (snd (ConfigureTelemetry C toml toml_fine token fs)) = TextFile (telemetryBlock token)"
proof -
  let ?a = "''[['' @ name @ '']]''"
  have "\<forall>x \<in> set name. x \<noteq> CHR '']''" using assms(3) by auto
  then have "section_name ?a = None"
    by (simp add: section_name_def re_space_def section_body_def section_tail_def dropWhile_append Let_def)
  moreover have "\<And>l. l \<in> set (hdr # ?a # body) \<Longrightarrow> newline \<notin> set l" using assms(4) by (auto simp: newline_def)
  then have "split_char newline (join_with [newline] (hdr # ?a # body)) = [] @ hdr # (?a # body) @ []"
    using split_char_join_with[of "hdr # ?a # body" newline] by simp
  ultimately have "keep_lines False (split_char newline (join_with [newline] (hdr # ?a # body))) = []"
    using keep_section[of "[]" hdr "?a # body" "[]"] assms(2,5) by simp
  from configured_text_none[OF this] show ?thesis by (simp only: ConfigureTelemetry_fine[OF assms(1)])
qed

theorem array_table_deleted_witness:
  "toml_config (snd (ConfigureTelemetry toml_crypto (\<lambda>_. None) toml_fine ''t''
      \<lparr>toml_config = TextFile (''[otel]'' @ [newline] @ ''[[mcp]]'' @ [newline] @ ''name = 1''), toml_backup = NoFile\<rparr>)) =
   TextFile (telemetryBlock ''t'')"
proof (rule array_table_deleted[where hdr = "''[otel]''" and name = "''mcp''" and body = "[''name = 1'']"])
  show "otel_header ''[otel]''" by (simp add: otel_header_def block_headers is_otel_def)
qed (simp_all add: newline_def section_name_def re_space_def)

lemma canonical_lines:
  "telemetry_canonical C e b = join_with [newline]
     [''endpoint='' @ exp_endpoint e, ''protocol='' @ exp_protocol e,
      ''log_user_prompt='' @ (if b then ''false'' else ''true''), ''auth_sha256='' @ sha256_hex C (exporter_auth e)]"
  by (simp add: telemetry_canonical_def)

lemma split_four:
  "split_char sep (join_with [sep] [a, b, c, d]) =
     split_char sep a @ split_char sep b @ split_char sep c @ split_char sep d"
  by (simp add: split_char_at)

text \<open>A text with the four lines of an accepted canonical form fixes the four fields.\<close>

lemma canonical_fields:
  assumes "telemetry_canonical C e b = telemetry_canonical C e' b'"
    and "newline \<notin> set (exp_endpoint e)" and "newline \<notin> set (exp_protocol e)"
  shows "exp_endpoint e = exp_endpoint e' \<and> exp_protocol e = exp_protocol e' \<and> b = b' \<and>
    sha256_hex C (exporter_auth e) = sha256_hex C (exporter_auth e')"
proof -
  let ?l = "\<lambda>e b. [''endpoint='' @ exp_endpoint e, ''protocol='' @ exp_protocol e,
      ''log_user_prompt='' @ (if b then ''false'' else ''true''), ''auth_sha256='' @ sha256_hex C (exporter_auth e)]"
  have hexn: "newline \<notin> set (sha256_hex C x)" for x using sha256_hex_no_newline by (simp add: newline_def)
  have lit: "newline \<notin> set ''endpoint=''" "newline \<notin> set ''protocol=''" "newline \<notin> set ''auth_sha256=''"
    "newline \<notin> set ''log_user_prompt=''" "\<And>b. newline \<notin> set (if b then ''false'' else ''true'')"
    by (simp_all add: newline_def)
  have s: "split_char newline (telemetry_canonical C e b) = ?l e b"
    unfolding canonical_lines using assms(2,3) hexn lit by (intro split_char_join_with) auto
  have len: "length (split_char newline x) \<ge> 1" for x by (cases "split_char newline x") auto
  have one: "newline \<notin> set x" if "length (split_char newline x) = 1" for x
  proof -
    from that obtain l where "split_char newline x = [l]" by (cases "split_char newline x") auto
    with split_char_join[of newline x] split_char_no_sep[of l newline x] show ?thesis by simp
  qed
  have "length (split_char newline (join_with [newline] (?l e' b'))) = 4"
    using s assms(1) unfolding canonical_lines[of C e' b'] by simp
  then have "length (split_char newline (''endpoint='' @ exp_endpoint e')) = 1"
    "length (split_char newline (''protocol='' @ exp_protocol e')) = 1"
    using len[of "''endpoint='' @ exp_endpoint e'"] len[of "''protocol='' @ exp_protocol e'"]
      len[of "''log_user_prompt='' @ (if b' then ''false'' else ''true'')"]
      len[of "''auth_sha256='' @ sha256_hex C (exporter_auth e')"]
    unfolding split_four length_append by linarith+
  from this[THEN one] have n: "newline \<notin> set (exp_endpoint e')" "newline \<notin> set (exp_protocol e')"
    by simp_all
  have "split_char newline (telemetry_canonical C e' b') = ?l e' b'"
    unfolding canonical_lines using n hexn lit by (intro split_char_join_with) auto
  with s assms(1) have "?l e b = ?l e' b'" by simp
  then show ?thesis by (auto split: if_splits)
qed

definition document_canonical :: "crypto \<Rightarrow> otel_document \<Rightarrow> string" where
  "document_canonical C d = telemetry_canonical C (http_exporter d) (prompt_disabled d)"

lemma TelemetryStatus_TextFile:
  "toml data = Some d \<Longrightarrow> TelemetryStatus C toml (TextFile data) token =
     (sha256_hex C (document_canonical C d),
      prompt_disabled d \<and> exp_endpoint (http_exporter d) = otel_endpoint \<and>
        exp_protocol (http_exporter d) = ''json'' \<and> exporter_auth (http_exporter d) = bearer token, None)"
  by (simp add: TelemetryStatus_def document_canonical_def Let_def)

text \<open>
  The fingerprint decides acceptance. A \<open>config.toml\<close> whose fingerprint is that of an accepted one
  is accepted itself (prompt logging off, local endpoint, protocol and token as installed), whatever
  text its fields hold, unless the canonical texts or the authorization values of these two files are
  a SHA-256 collision.
\<close>

theorem fingerprint_decides:
  assumes "toml data = Some d" and "toml data' = Some d'"
    and "TelemetryStatus C toml (TextFile data) token = (h, True, None)"
    and "TelemetryStatus C toml (TextFile data') token = (h, v, None)"
  shows "v \<or> collide C (document_canonical C d) (document_canonical C d') \<or>
    collide C (exporter_auth (http_exporter d)) (exporter_auth (http_exporter d'))"
proof (rule disjCI)
  let ?e = "http_exporter d" and ?e' = "http_exporter d'"
  assume nc: "\<not> (collide C (document_canonical C d) (document_canonical C d') \<or>
    collide C (exporter_auth ?e) (exporter_auth ?e'))"
  have d: "h = sha256_hex C (document_canonical C d)" "prompt_disabled d" "exp_endpoint ?e = otel_endpoint"
    "exp_protocol ?e = ''json''" "exporter_auth ?e = bearer token"
    using assms(3) by (auto simp: TelemetryStatus_TextFile[of toml, OF assms(1)])
  have d': "h = sha256_hex C (document_canonical C d')"
    "v = (prompt_disabled d' \<and> exp_endpoint ?e' = otel_endpoint \<and> exp_protocol ?e' = ''json'' \<and>
      exporter_auth ?e' = bearer token)"
    using assms(4) by (auto simp: TelemetryStatus_TextFile[of toml, OF assms(2)])
  have "document_canonical C d = document_canonical C d'"
    using sha256_hex_collide[of C "document_canonical C d" "document_canonical C d'"] d(1) d'(1) nc by simp
  moreover have "newline \<notin> set otel_endpoint" "newline \<notin> set ''json''"
    by (simp_all add: otel_endpoint_def newline_def)
  ultimately have f: "exp_endpoint ?e = exp_endpoint ?e' \<and> exp_protocol ?e = exp_protocol ?e' \<and>
      prompt_disabled d = prompt_disabled d' \<and> sha256_hex C (exporter_auth ?e) = sha256_hex C (exporter_auth ?e')"
    using canonical_fields[of C ?e "prompt_disabled d" ?e' "prompt_disabled d'"] d(3,4)
    by (simp add: document_canonical_def)
  then have "exporter_auth ?e = exporter_auth ?e'"
    using sha256_hex_collide[of C "exporter_auth ?e" "exporter_auth ?e'"] nc by simp
  with f d d'(2) show v by simp
qed

definition sample_document :: otel_document where
  "sample_document = \<lparr>LogUserPrompt = Some False, Exporter = [(''otlp-http'',
     \<lparr>exp_endpoint = otel_endpoint, exp_protocol = ''json'', exp_headers = [(''Authorization'', ''Bearer t'')]\<rparr>)]\<rparr>"

theorem fingerprint_decides_witness:
  "fst (snd (TelemetryStatus \<lparr>sha256 = (\<lambda>x. x), ed25519_sign = (\<lambda>_ _. [])\<rparr> (\<lambda>_. Some sample_document) (TextFile ''b'') ''t''))"
proof -
  let ?C = "\<lparr>sha256 = (\<lambda>x. x), ed25519_sign = (\<lambda>_ _. [])\<rparr> :: crypto"
  let ?h = "sha256_hex ?C (document_canonical ?C sample_document)"
  have h: "TelemetryStatus ?C (\<lambda>_. Some sample_document) (TextFile x) ''t'' = (?h, True, None)" for x
    by (simp add: TelemetryStatus_TextFile) (simp add: sample_document_def prompt_disabled_def http_exporter_def
        exporter_auth_def bearer_def)
  have "True \<or> collide ?C (document_canonical ?C sample_document) (document_canonical ?C sample_document) \<or>
      collide ?C (exporter_auth (http_exporter sample_document)) (exporter_auth (http_exporter sample_document))"
    by (rule fingerprint_decides[where toml = "\<lambda>_. Some sample_document", OF _ _ h[of "''a''"] h[of "''b''"]]) simp_all
  then show ?thesis using h by simp
qed

end
