(* ===== verification/Quota.thy ===== *)
theory Quota
  imports Protocol FileTree Telemetry
begin

text \<open>
  \<open>internal/agent/quota.go\<close>: the newest rate-limit reading in the tails of the Codex logs.
  \<open>json.Unmarshal\<close> of a line and \<open>time.Parse\<close> are parameters; a \<open>float64\<close> is the decimal number of
  \<open>JsonText\<close>, exact for the comparisons with 0 and 100.
\<close>

record RateLimitWindow =
  UsedPercent :: num
  WindowMinutes :: int
  ResetsAt :: int

record QuotaSnapshot =
  PlanType :: string
  Primary :: "RateLimitWindow option"
  Secondary :: "RateLimitWindow option"
  ObservedAt :: string

record rate_limits =
  rate_PlanType :: string
  rate_Primary :: "RateLimitWindow option"
  rate_Secondary :: "RateLimitWindow option"

record quotaLogEntry =
  entry_Timestamp :: string
  entry_Type :: string
  entry_PayloadType :: string
  RateLimits :: "rate_limits option"

record quotaFile =
  qf_path :: string
  qf_node :: node
  modTime :: go_time

record quota_reader =
  Unmarshal_entry :: "bytes \<Rightarrow> quotaLogEntry option"
  Parse_RFC3339Nano :: "string \<Rightarrow> go_time option"

definition quotaTailBytes :: nat where "quotaTailBytes = 4194304"
definition quotaFileLimit :: nat where "quotaFileLimit = 8"

section \<open>The candidate files\<close>

definition quota_visit :: "quotaFile list \<Rightarrow> visit \<Rightarrow> io_err option \<times> quotaFile list" where
  "quota_visit files v =
     (case v of
        AtErr e \<Rightarrow> (if e = NotExist then (None, files) else (Some e, files))
      | AtDir _ \<Rightarrow> (None, files)
      | AtFile path name n \<Rightarrow>
          (if \<not> is_jsonl name then (None, files)
           else (case n of
                   NoStat e \<Rightarrow> (Some e, files)
                 | _ \<Rightarrow> (None, files @ [\<lparr>qf_path = path, qf_node = n, modTime = mtime n\<rparr>]))))"

fun quota_dirs :: "node \<Rightarrow> string list \<Rightarrow> quotaFile list \<Rightarrow> io_err + quotaFile list" where
  "quota_dirs home [] files = Inr files"
| "quota_dirs home (d # ds) files =
     (case walk quota_visit (walk_visits home d) files of
        (Some OtherErr, _) \<Rightarrow> Inl OtherErr
      | (_, files') \<Rightarrow> quota_dirs home ds files')"

definition newer :: "quotaFile \<Rightarrow> quotaFile \<Rightarrow> bool" where
  "newer a b = After (modTime a) (modTime b)"

text \<open>\<open>Slice\<close> is \<open>sort.Slice\<close>: a permutation sorted by the comparison, not stable beyond twelve elements.\<close>

type_synonym slice_sort = "(quotaFile \<Rightarrow> quotaFile \<Rightarrow> bool) \<Rightarrow> quotaFile list \<Rightarrow> quotaFile list"

definition quotaFiles :: "slice_sort \<Rightarrow> node \<Rightarrow> io_err + quotaFile list" where
  "quotaFiles Slice home =
     (case quota_dirs home log_dirs [] of
        Inl e \<Rightarrow> Inl e
      | Inr files \<Rightarrow> Inr (take quotaFileLimit (Slice newer files)))"

section \<open>One file\<close>

text \<open>\<open>bufio.ScanLines\<close>.\<close>

definition dropCR :: "string \<Rightarrow> string" where
  "dropCR s = (if s \<noteq> [] \<and> last s = CHR 0x0D then butlast s else s)"

definition scan_lines :: "bytes \<Rightarrow> string list" where
  "scan_lines b =
     (let ls = split_char newline b in map dropCR (if last ls = [] then butlast ls else ls))"

definition negative :: "num \<Rightarrow> bool" where
  "negative n = (case n of IntNum i \<Rightarrow> i < 0 | FracNum neg m k \<Rightarrow> neg)"

definition over_100 :: "num \<Rightarrow> bool" where
  "over_100 n = (case n of IntNum i \<Rightarrow> i > 100 | FracNum neg m k \<Rightarrow> \<not> neg \<and> m > 100 * 10 ^ k)"

definition valid_window :: "RateLimitWindow option \<Rightarrow> RateLimitWindow option" where
  "valid_window w =
     (case w of
        None \<Rightarrow> None
      | Some r \<Rightarrow> if negative (UsedPercent r) \<or> over_100 (UsedPercent r) \<or> WindowMinutes r < 1 then None else w)"

text \<open>What one line contributes to the loop: the time and the snapshot, unless it is skipped.\<close>

definition line_reading :: "quota_reader \<Rightarrow> go_time \<Rightarrow> bytes \<Rightarrow> (go_time \<times> QuotaSnapshot) option" where
  "line_reading Q mod_time line =
     (case Unmarshal_entry Q line of
        None \<Rightarrow> None
      | Some e \<Rightarrow>
          if entry_Type e \<noteq> ''event_msg'' \<or> entry_PayloadType e \<noteq> ''token_count'' then None
          else (case RateLimits e of
                  None \<Rightarrow> None
                | Some rate \<Rightarrow>
                    let p = valid_window (rate_Primary rate); q = valid_window (rate_Secondary rate)
                    in if p = None \<and> q = None then None
                       else let observedAt = (case Parse_RFC3339Nano Q (entry_Timestamp e) of
                                                Some t \<Rightarrow> t | None \<Rightarrow> mod_time)
                            in Some (observedAt, \<lparr>PlanType = rate_PlanType rate, Primary = p, Secondary = q,
                                                  ObservedAt = format_RFC3339 observedAt\<rparr>)))"

definition quota_line ::
  "quota_reader \<Rightarrow> go_time \<Rightarrow> bytes \<Rightarrow> QuotaSnapshot option \<times> go_time \<Rightarrow> QuotaSnapshot option \<times> go_time" where
  "quota_line Q mod_time line acc =
     (case acc of (latest, latestAt) \<Rightarrow>
        (case line_reading Q mod_time line of
           None \<Rightarrow> acc
         | Some (observedAt, snapshot) \<Rightarrow>
             if latest = None \<or> After observedAt latestAt then (Some snapshot, observedAt) else acc))"

text \<open>
  The lines of the tail window: the first one is dropped when the window does not start at the
  beginning of the file. A token never exceeds the scanner's limit, one byte more than the window.
\<close>

definition tail_lines :: "bytes \<Rightarrow> string list" where
  "tail_lines b =
     (let start = length b - quotaTailBytes; ls = scan_lines (drop start b) in if start > 0 then drop 1 ls else ls)"

definition quotaFromFile :: "quota_reader \<Rightarrow> quotaFile \<Rightarrow> io_err + QuotaSnapshot option \<times> go_time" where
  "quotaFromFile Q f =
     (case qf_node f of
        File b _ \<Rightarrow> Inr (fold (quota_line Q (modTime f)) (tail_lines b) (None, zero_time))
      | _ \<Rightarrow> Inl OtherErr)"

fun quota_loop ::
  "quota_reader \<Rightarrow> quotaFile list \<Rightarrow> QuotaSnapshot option \<times> go_time \<Rightarrow> io_err + QuotaSnapshot option" where
  "quota_loop Q [] acc = Inr (fst acc)"
| "quota_loop Q (f # fs) acc =
     (case quotaFromFile Q f of
        Inl e \<Rightarrow> Inl e
      | Inr (snapshot, observedAt) \<Rightarrow>
          (case acc of (latest, latestAt) \<Rightarrow>
             quota_loop Q fs
               (if snapshot \<noteq> None \<and> (latest = None \<or> After observedAt latestAt) then (snapshot, observedAt) else acc)))"

definition LatestQuota :: "slice_sort \<Rightarrow> quota_reader \<Rightarrow> node \<Rightarrow> io_err + QuotaSnapshot option" where
  "LatestQuota Slice Q home =
     (case quotaFiles Slice home of
        Inl e \<Rightarrow> Inl e
      | Inr files \<Rightarrow> quota_loop Q files (None, zero_time))"

text \<open>The JSON of a snapshot, with its \<open>omitempty\<close> fields.\<close>

definition window_json :: "RateLimitWindow \<Rightarrow> json" where
  "window_json w =
     JObj [(''used_percent'', JNum (UsedPercent w)), (''window_minutes'', JNum (IntNum (WindowMinutes w))),
           (''resets_at'', JNum (IntNum (ResetsAt w)))]"

definition quota_json :: "QuotaSnapshot \<Rightarrow> json" where
  "quota_json s =
     JObj ((if PlanType s \<noteq> [] then [(''plan_type'', JStr (PlanType s))] else [])
         @ (case Primary s of None \<Rightarrow> [] | Some w \<Rightarrow> [(''primary'', window_json w)])
         @ (case Secondary s of None \<Rightarrow> [] | Some w \<Rightarrow> [(''secondary'', window_json w)])
         @ [(''observed_at'', JStr (ObservedAt s))])"

section \<open>The newest reading\<close>

interpretation quota_order: sort_contract newer "\<lambda>f. - nanos (modTime f)" "\<lambda>_. True"
  by unfold_locales (auto simp: newer_def After_def time_simps)

section \<open>The lines of the tail\<close>

text \<open>
  What \<open>bufio.ScanLines\<close> after the \<open>Seek\<close> is for, written over the positions of the file instead of
  the scanner's loop: a line is a maximal stretch without a newline, without its carriage return; the
  empty stretch after a final newline is none; and one that begins at or before the offset four MiB
  from the end is not read, unless the file is no longer than that.
\<close>

definition tail_line :: "bytes \<Rightarrow> string \<Rightarrow> bool" where
  "tail_line b l =
     (\<exists>before raw after. b = before @ raw @ after \<and> newline \<notin> set raw \<and> l = dropCR raw \<and>
        (before = [] \<or> last before = newline) \<and> (after = [] \<or> hd after = newline) \<and>
        (raw \<noteq> [] \<or> after \<noteq> []) \<and> (length b \<le> 4194304 \<or> length b - 4194304 < length before))"

lemma join_with_append:
  "xs \<noteq> [] \<Longrightarrow> ys \<noteq> [] \<Longrightarrow> join_with [c] (xs @ ys) = join_with [c] xs @ c # join_with [c] ys"
proof (induction xs)
  case (Cons x xs)
  obtain y ys' where ys: "ys = y # ys'" using Cons.prems by (cases ys) auto
  with Cons show ?case by (cases xs) auto
qed simp

lemma split_char_piece:
  assumes "split_char c s = xs @ l # ys"
  shows "s = (if xs = [] then [] else join_with [c] xs @ [c]) @ l @ (if ys = [] then [] else c # join_with [c] ys)"
proof -
  have "s = join_with [c] (xs @ l # ys)" using assms split_char_join[of c s] by simp
  moreover have "join_with [c] (l # ys) = l @ (if ys = [] then [] else c # join_with [c] ys)" by (cases ys) auto
  moreover have "join_with [c] (xs @ l # ys) =
      (if xs = [] then [] else join_with [c] xs @ [c]) @ join_with [c] (l # ys)"
    using join_with_append[of xs "l # ys" c] by auto
  ultimately show ?thesis by metis
qed

lemma split_char_head:
  assumes "c \<notin> set l" "after = [] \<or> hd after = c"
  obtains ys where "split_char c (l @ after) = l # ys" and "ys = [] \<longleftrightarrow> after = []"
proof (cases after)
  case Nil
  with that[of "[]"] assms(1) show ?thesis by (simp add: split_char_single)
next
  case (Cons x xs)
  with that[of "split_char c xs"] assms show ?thesis by (simp add: split_char_append)
qed

lemma split_char_at_piece:
  assumes "c \<notin> set l" "before = [] \<or> last before = c" "after = [] \<or> hd after = c"
  obtains xs ys where "split_char c (before @ l @ after) = xs @ l # ys"
    and "xs = [] \<longleftrightarrow> before = []" and "ys = [] \<longleftrightarrow> after = []"
proof -
  obtain ys where ys: "split_char c (l @ after) = l # ys" "ys = [] \<longleftrightarrow> after = []"
    by (rule split_char_head[OF assms(1,3)])
  show ?thesis
  proof (cases before rule: rev_cases)
    case Nil
    with that[of "[]" ys] ys show ?thesis by simp
  next
    case (snoc b x)
    with assms(2) have "before @ l @ after = b @ c # l @ after" by simp
    then have "split_char c (before @ l @ after) = split_char c b @ l # ys" by (simp add: split_char_at ys(1))
    with that[of "split_char c b" ys] ys(2) snoc show ?thesis by simp
  qed
qed

text \<open>Dropping an empty last line and, in a window, the first.\<close>

lemma scanned_piece:
  assumes "ls \<noteq> []" "k \<le> 1"
  shows "x \<in> set (drop k (if last ls = [] then butlast ls else ls)) \<longleftrightarrow>
    (\<exists>xs ys. ls = xs @ x # ys \<and> (x \<noteq> [] \<or> ys \<noteq> []) \<and> k \<le> length xs)"
proof -
  define kept where "kept = (if last ls = [] then butlast ls else ls)"
  have ls: "ls = kept @ (if last ls = [] then [[]] else [])"
    using append_butlast_last_id[OF assms(1)] by (auto simp: kept_def)
  have "x \<in> set (drop k kept) \<longleftrightarrow> (\<exists>xs ys. kept = xs @ x # ys \<and> k \<le> length xs)"
  proof
    assume "x \<in> set (drop k kept)"
    then obtain xs ys where d: "drop k kept = xs @ x # ys" by (auto simp: in_set_conv_decomp)
    then have "kept = (take k kept @ xs) @ x # ys" by (metis append.assoc append_take_drop_id)
    moreover have "k \<le> length (take k kept @ xs)" using d by (cases "k \<le> length kept") auto
    ultimately show "\<exists>xs ys. kept = xs @ x # ys \<and> k \<le> length xs" by blast
  qed (auto simp: drop_append)
  also have "\<dots> \<longleftrightarrow> (\<exists>xs ys. ls = xs @ x # ys \<and> (x \<noteq> [] \<or> ys \<noteq> []) \<and> k \<le> length xs)"
  proof
    assume "\<exists>xs ys. kept = xs @ x # ys \<and> k \<le> length xs"
    then obtain xs ys where x: "kept = xs @ x # ys" "k \<le> length xs" by blast
    have "ls = xs @ x # ys @ (if last ls = [] then [[]] else [])" using ls x(1) by simp
    moreover have "x \<noteq> [] \<or> ys @ (if last ls = [] then [[]] else []) \<noteq> []" if "ls = xs @ x # ys @ t"
      "t = (if last ls = [] then [[]] else [])" for t
      using that x(1) ls by (cases "last ls = []") auto
    ultimately show "\<exists>xs ys. ls = xs @ x # ys \<and> (x \<noteq> [] \<or> ys \<noteq> []) \<and> k \<le> length xs" using x(2) by blast
  next
    assume "\<exists>xs ys. ls = xs @ x # ys \<and> (x \<noteq> [] \<or> ys \<noteq> []) \<and> k \<le> length xs"
    then obtain xs ys where x: "ls = xs @ x # ys" "x \<noteq> [] \<or> ys \<noteq> []" "k \<le> length xs" by blast
    show "\<exists>xs ys. kept = xs @ x # ys \<and> k \<le> length xs"
    proof (cases "ys = []")
      case True
      with x have "kept = xs @ x # []" by (simp add: kept_def)
      with x(3) show ?thesis by blast
    next
      case False
      with x(1) have "kept = xs @ x # (if last ls = [] then butlast ys else ys)"
        by (simp add: kept_def butlast_append)
      with x(3) show ?thesis by blast
    qed
  qed
  finally show ?thesis by (simp add: kept_def)
qed

lemma tail_lines_raw:
  "tail_lines b = map dropCR
     (let start = length b - quotaTailBytes; ls = split_char newline (drop start b)
      in drop (if 0 < start then 1 else 0) (if last ls = [] then butlast ls else ls))"
  by (simp add: tail_lines_def scan_lines_def Let_def drop_map)

lemma tail_lines_iff: "l \<in> set (tail_lines b) \<longleftrightarrow> tail_line b l"
proof -
  define start where "start = length b - 4194304"
  define ls where "ls = split_char newline (drop start b)"
  define k where "k = (if 0 < start then 1 else 0 :: nat)"
  have kept: "raw \<in> set (drop k (if last ls = [] then butlast ls else ls)) \<longleftrightarrow>
      (\<exists>xs ys. ls = xs @ raw # ys \<and> (raw \<noteq> [] \<or> ys \<noteq> []) \<and> k \<le> length xs)" for raw
    by (rule scanned_piece) (simp_all add: ls_def k_def)
  have "l \<in> set (tail_lines b) \<longleftrightarrow>
      (\<exists>raw. l = dropCR raw \<and> raw \<in> set (drop k (if last ls = [] then butlast ls else ls)))"
    unfolding tail_lines_raw Let_def quotaTailBytes_def start_def[symmetric] ls_def[symmetric] k_def[symmetric] by auto
  also have "\<dots> \<longleftrightarrow> tail_line b l"
  proof
    assume "\<exists>raw. l = dropCR raw \<and> raw \<in> set (drop k (if last ls = [] then butlast ls else ls))"
    then obtain raw xs ys where r: "l = dropCR raw" "ls = xs @ raw # ys" "raw \<noteq> [] \<or> ys \<noteq> []" "k \<le> length xs"
      unfolding kept by blast
    let ?after = "if ys = [] then [] else newline # join_with [newline] ys"
    let ?before = "take start b @ (if xs = [] then [] else join_with [newline] xs @ [newline])"
    have "drop start b = (if xs = [] then [] else join_with [newline] xs @ [newline]) @ raw @ ?after"
      using split_char_piece r(2) unfolding ls_def by blast
    then have b: "b = ?before @ raw @ ?after" using append_take_drop_id[of start b] by auto
    have n: "newline \<notin> set raw" using split_char_no_sep r(2) unfolding ls_def by (metis in_set_conv_decomp)
    have e: "?before = [] \<or> last ?before = newline"
      using r(4) by (cases "xs = []") (auto simp: k_def split: if_splits)
    have w: "length b \<le> 4194304 \<or> length b - 4194304 < length ?before"
      using r(4) by (cases "xs = []") (auto simp: k_def start_def split: if_splits)
    show "tail_line b l"
      unfolding tail_line_def
      by (rule exI[of _ ?before], rule exI[of _ raw], rule exI[of _ ?after]) (use b n e w r(1,3) in auto)
  next
    assume "tail_line b l"
    then obtain before raw after where r: "b = before @ raw @ after" "newline \<notin> set raw" "l = dropCR raw"
      "before = [] \<or> last before = newline" "after = [] \<or> hd after = newline"
      "raw \<noteq> [] \<or> after \<noteq> []" "length b \<le> 4194304 \<or> start < length before"
      unfolding tail_line_def start_def by blast
    have st: "start = 0 \<or> start < length before" using r(7) by (auto simp: start_def)
    have d: "drop start b = drop start before @ raw @ after" using st r(1) by auto
    have "drop start before = [] \<or> last (drop start before) = newline" using st r(4) by (auto simp: last_drop)
    then obtain xs ys where xy: "split_char newline (drop start before @ raw @ after) = xs @ raw # ys"
      "xs = [] \<longleftrightarrow> drop start before = []" "ys = [] \<longleftrightarrow> after = []"
      by (rule split_char_at_piece[OF r(2) _ r(5)])
    have "ls = xs @ raw # ys" using xy(1) by (simp add: ls_def d)
    moreover have "k \<le> length xs" using xy(2) st by (cases xs) (auto simp: k_def)
    moreover have "raw \<noteq> [] \<or> ys \<noteq> []" using r(6) xy(3) by simp
    ultimately have "raw \<in> set (drop k (if last ls = [] then butlast ls else ls))" unfolding kept by blast
    with r(3) show "\<exists>raw. l = dropCR raw \<and> raw \<in> set (drop k (if last ls = [] then butlast ls else ls))" by blast
  qed
  finally show ?thesis .
qed

text \<open>The reference: all readings of the selected files, and the first of the latest ones.\<close>

definition file_readings :: "quota_reader \<Rightarrow> quotaFile \<Rightarrow> (go_time \<times> QuotaSnapshot) list" where
  "file_readings Q f =
     (case qf_node f of
        File b _ \<Rightarrow> List.map_filter (line_reading Q (modTime f)) (tail_lines b)
      | _ \<Rightarrow> [])"

definition latest_of :: "(go_time \<times> QuotaSnapshot) list \<Rightarrow> QuotaSnapshot option \<times> go_time \<Rightarrow> bool" where
  "latest_of rs acc =
     (case fst acc of
        None \<Rightarrow> rs = []
      | Some s \<Rightarrow> (snd acc, s) \<in> set rs \<and> (\<forall>(t, _) \<in> set rs. t \<le> snd acc))"

lemma latest_of_empty: "latest_of [] (None, t)"
  by (simp add: latest_of_def)

lemma latest_of_snoc:
  assumes "latest_of rs (latest, latestAt)"
  shows "latest_of (rs @ [(t, s)]) (if latest = None \<or> After t latestAt then (Some s, t) else (latest, latestAt))"
  using assms by (cases latest) (auto simp: latest_of_def After_def)

lemma latest_of_append:
  assumes "latest_of rs (latest, latestAt)" and "latest_of qs (s, t)"
  shows "latest_of (rs @ qs)
    (if s \<noteq> None \<and> (latest = None \<or> After t latestAt) then (s, t) else (latest, latestAt))"
  using assms by (cases latest; cases s) (auto simp: latest_of_def After_def)

lemma fold_quota_line:
  "latest_of rs acc \<Longrightarrow>
   latest_of (rs @ List.map_filter (line_reading Q m) ls) (fold (quota_line Q m) ls acc)"
proof (induction ls arbitrary: rs acc)
  case Nil
  then show ?case by (simp add: List.map_filter_def)
next
  case (Cons l ls)
  show ?case
  proof (cases "line_reading Q m l")
    case None
    with Cons show ?thesis by (cases acc) (simp add: quota_line_def List.map_filter_simps)
  next
    case (Some r)
    obtain t s latest latestAt where r: "r = (t, s)" "acc = (latest, latestAt)" by (cases r; cases acc) auto
    have "latest_of (rs @ [(t, s)]) (quota_line Q m l acc)"
      using latest_of_snoc[of rs latest latestAt t s] Cons.prems by (simp add: quota_line_def Some r)
    from Cons.IH[OF this] show ?thesis by (simp add: Some r List.map_filter_simps)
  qed
qed

lemma quotaFromFile_latest:
  "quotaFromFile Q f = Inr acc \<Longrightarrow> latest_of (file_readings Q f) acc"
  using fold_quota_line[OF latest_of_empty, of Q "modTime f"]
  by (auto simp: quotaFromFile_def file_readings_def split: node.splits)

lemma quota_loop_latest:
  "latest_of rs acc \<Longrightarrow> quota_loop Q fs acc = Inr r \<Longrightarrow>
   \<exists>t. latest_of (rs @ concat (map (file_readings Q) fs)) (r, t)"
proof (induction fs arbitrary: rs acc)
  case Nil
  then show ?case by (cases acc) auto
next
  case (Cons f fs)
  obtain s t latest latestAt where f: "quotaFromFile Q f = Inr (s, t)" "acc = (latest, latestAt)"
    using Cons.prems(2) by (cases acc) (auto split: sum.splits)
  have l: "latest_of (rs @ file_readings Q f)
      (if s \<noteq> None \<and> (latest = None \<or> After t latestAt) then (s, t) else (latest, latestAt))"
    using latest_of_append quotaFromFile_latest[OF f(1)] Cons.prems(1) f(2) by blast
  have "quota_loop Q fs (if s \<noteq> None \<and> (latest = None \<or> After t latestAt) then (s, t) else (latest, latestAt)) = Inr r"
    using Cons.prems(2) by (simp add: f)
  from Cons.IH[OF l this] show ?case by simp
qed

definition sane_window :: "RateLimitWindow option \<Rightarrow> bool" where
  "sane_window w = (\<forall>r. w = Some r \<longrightarrow> \<not> negative (UsedPercent r) \<and> \<not> over_100 (UsedPercent r) \<and> 1 \<le> WindowMinutes r)"

lemma valid_window_sane: "valid_window w = x \<Longrightarrow> sane_window x"
  by (auto simp: sane_window_def valid_window_def split: option.splits if_splits)

lemma line_reading_sane:
  "line_reading Q m l = Some (t, s) \<Longrightarrow>
   sane_window (Primary s) \<and> sane_window (Secondary s) \<and> (Primary s \<noteq> None \<or> Secondary s \<noteq> None) \<and>
   ObservedAt s = format_RFC3339 t"
  by (auto simp: line_reading_def Let_def valid_window_sane split: option.splits if_splits)

text \<open>A reading of a file, over the lines of its tail.\<close>

definition has_reading :: "quota_reader \<Rightarrow> quotaFile \<Rightarrow> go_time \<Rightarrow> QuotaSnapshot \<Rightarrow> bool" where
  "has_reading Q f t s =
     (\<exists>b m l. qf_node f = File b m \<and> tail_line b l \<and> line_reading Q (modTime f) l = Some (t, s))"

lemma file_readings_iff: "(t, s) \<in> set (file_readings Q f) \<longleftrightarrow> has_reading Q f t s"
proof -
  have "r \<in> set (List.map_filter g ls) \<longleftrightarrow> (\<exists>l \<in> set ls. g l = Some r)" for r :: "go_time \<times> QuotaSnapshot" and g and ls :: "string list"
    by (induction ls) (auto simp: List.map_filter_simps split: option.splits)
  then show ?thesis
    by (cases "qf_node f") (auto simp: file_readings_def has_reading_def tail_lines_iff)
qed

lemma quota_loop_source:
  assumes "LatestQuota Slice Q home = Inr r"
  obtains fs t where "quotaFiles Slice home = Inr fs"
    and "latest_of (concat (map (file_readings Q) fs)) (r, t)"
proof -
  obtain fs where fs: "quotaFiles Slice home = Inr fs" "quota_loop Q fs (None, zero_time) = Inr r"
    using assms by (auto simp: LatestQuota_def split: sum.splits)
  from quota_loop_latest[OF latest_of_empty fs(2)] that[OF fs(1)] show ?thesis by auto
qed

text \<open>A home with one log of two readings, the second one older.\<close>

definition sample_reader :: quota_reader where
  "sample_reader =
     \<lparr>Unmarshal_entry = (\<lambda>l.
        if l = [] then None
        else Some \<lparr>entry_Timestamp = l, entry_Type = ''event_msg'', entry_PayloadType = ''token_count'',
          RateLimits = Some \<lparr>rate_PlanType = ''pro'',
            rate_Primary = Some \<lparr>UsedPercent = IntNum 40, WindowMinutes = 300, ResetsAt = 0\<rparr>,
            rate_Secondary = Some \<lparr>UsedPercent = IntNum 101, WindowMinutes = 300, ResetsAt = 0\<rparr>\<rparr>\<rparr>),
      Parse_RFC3339Nano = (\<lambda>s. if s = ''B'' then Some (Time 9) else if s = ''A'' then Some (Time 5) else None)\<rparr>"

definition quota_home :: node where
  "quota_home = Dir None [(''sessions'', Dir None [(''a.jsonl'', File [CHR ''B'', newline, CHR ''A''] (Time 7))])]"

lemma sample_quota:
  "LatestQuota SliceStable sample_reader quota_home =
     Inr (Some \<lparr>PlanType = ''pro'', Primary = Some \<lparr>UsedPercent = IntNum 40, WindowMinutes = 300, ResetsAt = 0\<rparr>,
                Secondary = None, ObservedAt = format_RFC3339 (Time 9)\<rparr>)"
proof -
  let ?f = "\<lparr>qf_path = ''sessions/a.jsonl'', qf_node = File [CHR ''B'', newline, CHR ''A''] (Time 7), modTime = Time 7\<rparr>"
  have j: "is_jsonl ''a.jsonl''" by code_simp
  have "quota_dirs quota_home log_dirs [] = Inr [?f]"
    by (simp add: log_dirs_def walk_visits_def stat_child_def quota_home_def quota_visit_def j mtime_def)
  then have q: "quotaFiles SliceStable quota_home = Inr [?f]"
    by (simp add: quotaFiles_def SliceStable_def quotaFileLimit_def)
  have l: "tail_lines [CHR ''B'', newline, CHR ''A''] = [''B'', ''A'']"
    by (simp add: tail_lines_def quotaTailBytes_def scan_lines_def dropCR_def newline_def)
  have r: "line_reading sample_reader (Time 7) x = Some (t,
      \<lparr>PlanType = ''pro'', Primary = Some \<lparr>UsedPercent = IntNum 40, WindowMinutes = 300, ResetsAt = 0\<rparr>,
       Secondary = None, ObservedAt = format_RFC3339 t\<rparr>)"
    if "(x = ''B'' \<and> t = Time 9) \<or> (x = ''A'' \<and> t = Time 5)" for x t
    using that by (auto simp: line_reading_def sample_reader_def valid_window_def negative_def over_100_def Let_def)
  show ?thesis
    by (simp add: LatestQuota_def q quotaFromFile_def l quota_line_def r[of "''B''" "Time 9"] r[of "''A''" "Time 5"]
        After_def time_simps)
qed

section \<open>Properties\<close>

text \<open>
  C30: what \<open>LatestQuota\<close> returns is sane and is what one line of one of the selected files says: a
  line of the content of that file, in the sense of \<open>tail_line\<close>, which is written without the scanner:
  a maximal stretch between newlines that begins behind the offset four MiB from the end. The
  snapshot is what \<open>line_reading\<close> makes of that line and of nothing else: one of its two windows is
  present, a present window has a percentage between 0 and 100 and lasts at least a minute, and the
  observation time is the one of the line.
\<close>

theorem quota_sane:
  assumes "LatestQuota Slice Q home = Inr (Some s)"
  shows "(Primary s \<noteq> None \<or> Secondary s \<noteq> None) \<and> sane_window (Primary s) \<and> sane_window (Secondary s) \<and>
    (\<exists>fs f b m l t. quotaFiles Slice home = Inr fs \<and> f \<in> set fs \<and> qf_node f = File b m \<and> tail_line b l \<and>
       line_reading Q (modTime f) l = Some (t, s) \<and> ObservedAt s = format_RFC3339 t)"
proof -
  obtain fs t where fs: "quotaFiles Slice home = Inr fs"
    "latest_of (concat (map (file_readings Q) fs)) (Some s, t)"
    by (rule quota_loop_source[OF assms])
  then obtain f where f: "f \<in> set fs" "(t, s) \<in> set (file_readings Q f)" by (auto simp: latest_of_def)
  from f(2) obtain b m l where l: "qf_node f = File b m" "tail_line b l" "line_reading Q (modTime f) l = Some (t, s)"
    unfolding file_readings_iff has_reading_def by blast
  from line_reading_sane[OF l(3)] fs(1) f(1) l show ?thesis by blast
qed

theorem quota_sane_witness:
  "\<exists>s fs f b m l. LatestQuota SliceStable sample_reader quota_home = Inr (Some s) \<and> Primary s \<noteq> None \<and>
     sane_window (Primary s) \<and> quotaFiles SliceStable quota_home = Inr fs \<and> f \<in> set fs \<and>
     qf_node f = File b m \<and> tail_line b l"
  using quota_sane[OF sample_quota] sample_quota by fastforce

text \<open>
  C29: \<open>LatestQuota\<close> equals its reference: it returns the latest of all readings of the lines in the
  tails of the selected files, and nothing when they have none. The selected files are as many as
  there are, but eight at most, each log of the home once; none that is left out was modified after
  one of them, for every implementation of \<open>sort.Slice\<close> that returns a sorted permutation.
\<close>

theorem quota_latest:
  assumes "LatestQuota Slice Q home = Inr r"
    and perm: "\<And>xs. mset (Slice newer xs) = mset xs"
    and sorted: "\<And>xs. sorted_wrt (\<lambda>a b. \<not> newer b a) (Slice newer xs)"
  shows "\<exists>fs every. quotaFiles Slice home = Inr fs \<and> quota_dirs home log_dirs [] = Inr every \<and>
    length fs = min 8 (length every) \<and> mset fs \<subseteq># mset every \<and>
    (\<forall>f \<in> set every. f \<in> set fs \<or> (\<forall>g \<in> set fs. modTime f \<le> modTime g)) \<and>
    (case r of
       None \<Rightarrow> \<forall>f \<in> set fs. \<forall>t s. \<not> has_reading Q f t s
     | Some s \<Rightarrow> \<exists>t. (\<exists>f \<in> set fs. has_reading Q f t s) \<and>
         (\<forall>g \<in> set fs. \<forall>t' s'. has_reading Q g t' s' \<longrightarrow> t' \<le> t))"
proof -
  obtain fs t where fs: "quotaFiles Slice home = Inr fs"
    "latest_of (concat (map (file_readings Q) fs)) (r, t)"
    by (rule quota_loop_source[OF assms(1)])
  obtain every where every: "quota_dirs home log_dirs [] = Inr every" "fs = take 8 (Slice newer every)"
    using fs(1) by (auto simp: quotaFiles_def quotaFileLimit_def split: sum.splits)
  have split: "Slice newer every = fs @ drop 8 (Slice newer every)" unfolding every(2) by simp
  have s: "set (Slice newer every) = set every" using perm by (metis set_mset_mset)
  have "mset every = mset fs + mset (drop 8 (Slice newer every))" using perm split by (metis mset_append)
  then have sub: "mset fs \<subseteq># mset every" by simp
  have len: "length fs = min 8 (length every)" unfolding every(2) using perm by (metis length_take min.commute size_mset)
  have old: "modTime f \<le> modTime g" if "f \<in> set every" "f \<notin> set fs" "g \<in> set fs" for f g
  proof -
    have "f \<in> set (drop 8 (Slice newer every))" using that(1,2) s split by (metis Un_iff set_append)
    moreover have "sorted_wrt (\<lambda>a b. \<not> newer b a) (fs @ drop 8 (Slice newer every))"
      using sorted[of every] split by simp
    ultimately have "\<not> newer f g" using that(3) by (auto simp: sorted_wrt_append)
    then show ?thesis by (simp add: newer_def After_def)
  qed
  have "case r of
       None \<Rightarrow> \<forall>f \<in> set fs. \<forall>t s. \<not> has_reading Q f t s
     | Some s \<Rightarrow> \<exists>t. (\<exists>f \<in> set fs. has_reading Q f t s) \<and>
         (\<forall>g \<in> set fs. \<forall>t' s'. has_reading Q g t' s' \<longrightarrow> t' \<le> t)"
    using fs(2) by (cases r) (force simp: latest_of_def file_readings_iff[symmetric])+
  with fs(1) every(1) sub len old show ?thesis by (intro exI[of _ fs] exI[of _ every]) auto
qed

theorem quota_latest_witness:
  "\<exists>fs every. quotaFiles SliceStable quota_home = Inr fs \<and> quota_dirs quota_home log_dirs [] = Inr every \<and>
     length fs = min 8 (length every) \<and> (\<exists>f \<in> set fs. \<exists>t s. has_reading sample_reader f t s)"
proof -
  have "mset (SliceStable newer xs) = mset xs" for xs by (rule quota_order.SliceStable_mset) simp
  moreover have "sorted_wrt (\<lambda>a b. \<not> newer b a) (SliceStable newer xs)" for xs
    using quota_order.SliceStable_sorted[of xs]
    by (simp add: sorted_map newer_def After_def time_simps not_less)
  ultimately show ?thesis using quota_latest[OF sample_quota] by simp blast
qed

end
