(* ===== verification/Integrity.thy ===== *)
theory Integrity
  imports Protocol FileTree AtomicFile
begin

text \<open>
  \<open>internal/agent/integrity.go\<close>: the tamper-evident scan of the session logs. A scan reads the saved
  checkpoints, compares them with the logs on disk, and saves the next link of a hash chain.

  The model of a scan takes one snapshot of the Codex home. Go's map iteration orders are functions
  of an \<open>iteration\<close> record, the random file ids a function of the path, and SHA-256 a parameter.
  Maps with their entries are association lists with distinct keys.
\<close>

section \<open>Data\<close>

record checkpoint =
  cp_id :: string
  cp_path :: string
  cp_size :: int
  cp_prefix :: string
  cp_full :: string
  cp_archived :: bool
  cp_mtime :: int

type_synonym checkpoints = "(string \<times> checkpoint) list"

record integrityState =
  StateID :: string
  ScanSequence :: uint64
  LastSnapshotHash :: string
  Files :: checkpoints

record Finding =
  EventType :: string
  Severity :: string
  find_id :: string
  OldSize :: "int option"
  NewSize :: "int option"

record FileMetadata =
  meta_id :: string
  meta_size :: int
  meta_prefix_size :: int
  meta_prefix :: string
  meta_full :: string
  meta_archived :: bool
  meta_mtime :: int

record IntegrityPayload =
  FilesChecked :: nat
  Status :: string
  Findings :: "Finding list"
  Metadata :: "FileMetadata list"
  pay_state :: string
  pay_sequence :: uint64
  PreviousSnapshotHash :: string
  SnapshotHash :: string

datatype integrity_err =
    StateRead | StateParse | LogStat io_err | LogWalk io_err | LogOpen | ShortRead
  | ChainMarshal protocol_err | StateSave save_fault

section \<open>Hashing and state\<close>

definition hashPrefix :: "crypto \<Rightarrow> node \<Rightarrow> int \<Rightarrow> integrity_err + string" where
  "hashPrefix C n sz =
     (case n of
        File b _ \<Rightarrow>
          if 0 \<le> sz \<and> sz \<le> int (length b) then Inr (sha256_hex C (take (nat sz) b)) else Inl ShortRead
      | _ \<Rightarrow> Inl LogOpen)"

text \<open>The 16 random bytes of \<open>opaqueID\<close>, for the state and for each newly seen path of one scan.\<close>

type_synonym entropy = "string \<Rightarrow> bytes"

definition opaqueID :: "entropy \<Rightarrow> string \<Rightarrow> string" where
  "opaqueID rnd site = hex_encode (rnd site)"

definition loadIntegrityState :: "entropy \<Rightarrow> integrityState slot \<Rightarrow> integrity_err + integrityState" where
  "loadIntegrityState rnd s =
     (case dest s of
        Absent \<Rightarrow> Inr \<lparr>StateID = opaqueID rnd [], ScanSequence = 0, LastSnapshotHash = [], Files = []\<rparr>
      | Unreadable \<Rightarrow> Inl StateRead
      | Blank \<Rightarrow> Inl StateParse
      | Malformed _ \<Rightarrow> Inl StateParse
      | Content st \<Rightarrow> Inr (if StateID st = [] then st\<lparr>StateID := opaqueID rnd []\<rparr> else st))"

definition saveIntegrityState ::
  "save_fault option \<Rightarrow> integrityState \<Rightarrow> integrityState slot \<Rightarrow> save_fault option \<times> integrityState slot" where
  "saveIntegrityState fault st s = write_replace False fault st s"

interpretation integrity_store: atomic_store saveIntegrityState "\<lambda>st. st"
  by unfold_locales
    (auto simp: saveIntegrityState_def write_replace_None dest: write_replace_error write_replace_ok)

section \<open>Discovery\<close>

type_synonym log = "string \<times> node \<times> bool"

definition log_visit :: "bool \<Rightarrow> log list \<Rightarrow> visit \<Rightarrow> io_err option \<times> log list" where
  "log_visit arch acc v =
     (case v of
        AtErr e \<Rightarrow> (Some e, acc)
      | AtDir _ \<Rightarrow> (None, acc)
      | AtFile path name n \<Rightarrow> (None, if is_jsonl name then acc @ [(path, n, arch)] else acc))"

definition discover_root :: "node \<Rightarrow> string \<Rightarrow> bool \<Rightarrow> log list \<Rightarrow> integrity_err + log list" where
  "discover_root home name arch acc =
     (case stat_child home name of
        Inl e \<Rightarrow> (if e = NotExist then Inr acc else Inl (LogStat e))
      | Inr n \<Rightarrow>
          if \<not> is_dir n then Inr acc
          else (case walk (log_visit arch) (visits name name n) acc of
                  (Some e, _) \<Rightarrow> Inl (LogWalk e)
                | (None, acc') \<Rightarrow> Inr acc'))"

definition discoverLogs :: "node \<Rightarrow> integrity_err + log list" where
  "discoverLogs home =
     (case discover_root home ''sessions'' False [] of
        Inl e \<Rightarrow> Inl e
      | Inr acc \<Rightarrow> discover_root home ''archived_sessions'' True acc)"

section \<open>One file of a scan\<close>

text \<open>The orders in which the three \<open>range\<close> loops over a map run.\<close>

record iteration =
  move_order :: "string \<Rightarrow> checkpoints \<Rightarrow> checkpoints"
  delete_order :: "checkpoints \<Rightarrow> checkpoints"
  meta_order :: "checkpoints \<Rightarrow> checkpoints"

record scan =
  findings :: "Finding list"
  next_files :: checkpoints
  used :: "string list"

definition finding :: "string \<Rightarrow> string \<Rightarrow> int \<Rightarrow> int option \<Rightarrow> Finding" where
  "finding event fid old new =
     \<lparr>EventType = event, Severity = ''CRITICAL'', find_id = fid, OldSize = Some old, NewSize = new\<rparr>"

definition stat_log :: "node \<Rightarrow> integrity_err + int \<times> go_time" where
  "stat_log n =
     (case n of
        File b t \<Rightarrow> Inr (int (length b), t)
      | NoOpen k t \<Rightarrow> Inr (k, t)
      | NoStat e \<Rightarrow> Inl (LogStat e)
      | Dir _ _ \<Rightarrow> Inr (0, zero_time))"

definition new_checkpoint :: "string \<Rightarrow> string \<Rightarrow> int \<Rightarrow> string \<Rightarrow> bool \<Rightarrow> go_time \<Rightarrow> checkpoint" where
  "new_checkpoint fid relative sz hash archived mt =
     \<lparr>cp_id = fid, cp_path = relative, cp_size = sz, cp_prefix = hash,
      cp_full = (if archived then hash else []), cp_archived = archived, cp_mtime = time_Unix mt\<rparr>"

text \<open>The comparison of a known path with its checkpoint: the finding it appends, if any.\<close>

definition compare :: "crypto \<Rightarrow> checkpoint \<Rightarrow> node \<Rightarrow> int \<Rightarrow> string \<Rightarrow> integrity_err + Finding list" where
  "compare C previous n sz currentHash =
     (if cp_archived previous then
        Inr (if sz \<noteq> cp_size previous \<or> currentHash \<noteq> cp_full previous
             then [finding ''ARCHIVED_LOG_MODIFIED'' (cp_id previous) (cp_size previous) (Some sz)] else [])
      else if sz < cp_size previous then
        Inr [finding ''LOG_TRUNCATED'' (cp_id previous) (cp_size previous) (Some sz)]
      else
        (case hashPrefix C n (cp_size previous) of
           Inl e \<Rightarrow> Inl e
         | Inr prefix \<Rightarrow>
             Inr (if prefix \<noteq> cp_prefix previous
                  then [finding ''LOG_PREFIX_MODIFIED'' (cp_id previous) (cp_size previous) (Some sz)] else [])))"

definition known_step :: "crypto \<Rightarrow> checkpoint \<Rightarrow> scan \<Rightarrow> log \<Rightarrow> integrity_err + scan" where
  "known_step C previous sc lg =
     (case lg of (relative, n, archived) \<Rightarrow>
       (case stat_log n of
          Inl e \<Rightarrow> Inl e
        | Inr (sz, mt) \<Rightarrow>
            (case hashPrefix C n sz of
               Inl e \<Rightarrow> Inl e
             | Inr currentHash \<Rightarrow>
                 (case compare C previous n sz currentHash of
                    Inl e \<Rightarrow> Inl e
                  | Inr fs \<Rightarrow>
                      Inr (sc\<lparr>findings := findings sc @ fs, used := relative # used sc,
                             next_files := next_files sc @
                               [(relative, new_checkpoint (cp_id previous) relative sz currentHash archived mt)]\<rparr>)))))"

text \<open>
  Is the old active log a possible origin of this archived file? A prefix that cannot be read is
  compared as the empty string.
\<close>

definition prefix_or_empty :: "crypto \<Rightarrow> node \<Rightarrow> int \<Rightarrow> string" where
  "prefix_or_empty C n sz = (case hashPrefix C n sz of Inl _ \<Rightarrow> [] | Inr h \<Rightarrow> h)"

definition moves_to :: "crypto \<Rightarrow> string list \<Rightarrow> node \<Rightarrow> int \<Rightarrow> string \<times> checkpoint \<Rightarrow> bool" where
  "moves_to C us n sz old =
     (fst old \<notin> set us \<and> \<not> cp_archived (snd old) \<and> \<not> sz < cp_size (snd old) \<and>
      prefix_or_empty C n (cp_size (snd old)) = cp_prefix (snd old))"

definition moved_from ::
  "crypto \<Rightarrow> iteration \<Rightarrow> checkpoints \<Rightarrow> string list \<Rightarrow> log \<Rightarrow> int \<Rightarrow> (string \<times> checkpoint) option" where
  "moved_from C it old us lg sz =
     (case lg of (relative, n, archived) \<Rightarrow>
        if archived then find (moves_to C us n sz) (move_order it relative old) else None)"

definition unknown_step ::
  "crypto \<Rightarrow> iteration \<Rightarrow> entropy \<Rightarrow> checkpoints \<Rightarrow> scan \<Rightarrow> log \<Rightarrow> integrity_err + scan" where
  "unknown_step C it rnd old sc lg =
     (case lg of (relative, n, archived) \<Rightarrow>
       (case stat_log n of
          Inl e \<Rightarrow> Inl e
        | Inr (sz, mt) \<Rightarrow>
            (case hashPrefix C n sz of
               Inl e \<Rightarrow> Inl e
             | Inr full \<Rightarrow>
                 let origin = (case moved_from C it old (used sc) lg sz of
                       Some (src, cp) \<Rightarrow> (if src \<noteq> [] then Some (src, cp_id cp) else None)
                     | None \<Rightarrow> None);
                     fid = (case origin of Some (_, i) \<Rightarrow> i | None \<Rightarrow> opaqueID rnd relative)
                 in Inr (sc\<lparr>used := (case origin of Some (src, _) \<Rightarrow> src # used sc | None \<Rightarrow> used sc),
                            next_files := next_files sc @
                              [(relative, new_checkpoint fid relative sz full archived mt)]\<rparr>))))"

definition scan_step ::
  "crypto \<Rightarrow> iteration \<Rightarrow> entropy \<Rightarrow> checkpoints \<Rightarrow> scan \<Rightarrow> log \<Rightarrow> integrity_err + scan" where
  "scan_step C it rnd old sc lg =
     (case map_of old (fst lg) of
        Some previous \<Rightarrow> known_step C previous sc lg
      | None \<Rightarrow> unknown_step C it rnd old sc lg)"

fun scan_logs ::
  "crypto \<Rightarrow> iteration \<Rightarrow> entropy \<Rightarrow> checkpoints \<Rightarrow> scan \<Rightarrow> log list \<Rightarrow> integrity_err + scan" where
  "scan_logs C it rnd old sc [] = Inr sc"
| "scan_logs C it rnd old sc (lg # lgs) =
     (case scan_step C it rnd old sc lg of Inl e \<Rightarrow> Inl e | Inr sc' \<Rightarrow> scan_logs C it rnd old sc' lgs)"

section \<open>The end of a scan\<close>

definition deletions :: "iteration \<Rightarrow> checkpoints \<Rightarrow> string list \<Rightarrow> string list \<Rightarrow> Finding list" where
  "deletions it old us present =
     map (\<lambda>(_, previous). finding ''LOG_DELETED'' (cp_id previous) (cp_size previous) None)
       (filter (\<lambda>(relative, _). relative \<notin> set us \<and> relative \<notin> set present) (delete_order it old))"

definition metadata_of :: "checkpoint \<Rightarrow> FileMetadata" where
  "metadata_of cp =
     \<lparr>meta_id = cp_id cp, meta_size = cp_size cp, meta_prefix_size = cp_size cp, meta_prefix = cp_prefix cp,
      meta_full = cp_full cp, meta_archived = cp_archived cp, meta_mtime = cp_mtime cp\<rparr>"

definition meta_less :: "FileMetadata \<Rightarrow> FileMetadata \<Rightarrow> bool" where
  "meta_less a b = (meta_id a < meta_id b)"

definition scan_metadata :: "iteration \<Rightarrow> checkpoints \<Rightarrow> FileMetadata list" where
  "scan_metadata it next = SliceStable meta_less (map (\<lambda>(_, cp). metadata_of cp) (meta_order it next))"

definition opt_str :: "string \<Rightarrow> string \<Rightarrow> (string \<times> json) list" where
  "opt_str k v = (if v = [] then [] else [(k, JStr v)])"

definition opt_int :: "string \<Rightarrow> int option \<Rightarrow> (string \<times> json) list" where
  "opt_int k v = (case v of None \<Rightarrow> [] | Some i \<Rightarrow> [(k, JNum (IntNum i))])"

definition metadata_json :: "FileMetadata \<Rightarrow> json" where
  "metadata_json m =
     JObj ([(''opaque_file_id'', JStr (meta_id m)), (''size'', JNum (IntNum (meta_size m))),
            (''prefix_size'', JNum (IntNum (meta_prefix_size m))), (''prefix_sha256'', JStr (meta_prefix m))]
           @ opt_str ''full_sha256'' (meta_full m)
           @ [(''archived'', JBool (meta_archived m)), (''mtime_unix'', JNum (IntNum (meta_mtime m)))])"

definition finding_json :: "Finding \<Rightarrow> json" where
  "finding_json f =
     JObj ([(''event_type'', JStr (EventType f)), (''severity'', JStr (Severity f))]
           @ opt_str ''opaque_file_id'' (find_id f) @ opt_int ''old_size'' (OldSize f) @ opt_int ''new_size'' (NewSize f))"

definition chain_json ::
  "string \<Rightarrow> uint64 \<Rightarrow> string \<Rightarrow> FileMetadata list \<Rightarrow> Finding list \<Rightarrow> json" where
  "chain_json stateID sequence previousHash files fs =
     JObj [(''state_id'', JStr stateID), (''sequence'', JNum (IntNum (uint sequence))),
           (''previous_hash'', JStr previousHash), (''files'', JArr (map metadata_json files)),
           (''findings'', JArr (map finding_json fs))]"

definition snapshot_hash ::
  "crypto \<Rightarrow> integrityState \<Rightarrow> FileMetadata list \<Rightarrow> Finding list \<Rightarrow> protocol_err + string" where
  "snapshot_hash C st metadata fs =
     map_sum id (sha256_hex C)
       (CanonicalJSON (chain_json (StateID st) (ScanSequence st + 1) (LastSnapshotHash st) metadata fs))"

definition start_scan :: scan where
  "start_scan = \<lparr>findings = [], next_files = [], used = []\<rparr>"

definition scan_result ::
  "iteration \<Rightarrow> integrityState \<Rightarrow> log list \<Rightarrow> scan \<Rightarrow> Finding list \<times> FileMetadata list" where
  "scan_result it st logs sc =
     (findings sc @ deletions it (Files st) (used sc) (map fst logs), scan_metadata it (next_files sc))"

definition ScanIntegrity ::
  "crypto \<Rightarrow> iteration \<Rightarrow> entropy \<Rightarrow> save_fault option \<Rightarrow> node \<Rightarrow> integrityState slot \<Rightarrow>
     (integrity_err + IntegrityPayload) \<times> integrityState slot" where
  "ScanIntegrity C it rnd fault home s =
     (case loadIntegrityState rnd s of
        Inl e \<Rightarrow> (Inl e, s)
      | Inr st \<Rightarrow>
          (case discoverLogs home of
             Inl e \<Rightarrow> (Inl e, s)
           | Inr logs \<Rightarrow>
               (case scan_logs C it rnd (Files st) start_scan (sort_key fst logs) of
                  Inl e \<Rightarrow> (Inl e, s)
                | Inr sc \<Rightarrow>
                    (case scan_result it st logs sc of
                       (fs, metadata) \<Rightarrow>
                         (case snapshot_hash C st metadata fs of
                            Inl e \<Rightarrow> (Inl (ChainMarshal e), s)
                          | Inr h \<Rightarrow>
                              (case saveIntegrityState fault
                                      \<lparr>StateID = StateID st, ScanSequence = ScanSequence st + 1,
                                       LastSnapshotHash = h, Files = next_files sc\<rparr> s of
                                 (Some e, s') \<Rightarrow> (Inl (StateSave e), s')
                               | (None, s') \<Rightarrow>
                                   (Inr \<lparr>FilesChecked = length (next_files sc),
                                         Status = (if fs = [] then ''OK'' else ''TAMPER''),
                                         Findings = fs, Metadata = metadata, pay_state = StateID st,
                                         pay_sequence = ScanSequence st + 1,
                                         PreviousSnapshotHash = LastSnapshotHash st,
                                         SnapshotHash = h\<rparr>, s')))))))"

interpretation metadata_order: sort_contract meta_less meta_id "\<lambda>_. True"
  by unfold_locales (simp_all add: meta_less_def)

section \<open>What discovery finds\<close>

fun jsonl_logs :: "bool \<Rightarrow> visit list \<Rightarrow> log list" where
  "jsonl_logs arch [] = []"
| "jsonl_logs arch (AtFile p name n # vs) =
     (if is_jsonl name then (p, n, arch) # jsonl_logs arch vs else jsonl_logs arch vs)"
| "jsonl_logs arch (AtDir p # vs) = jsonl_logs arch vs"
| "jsonl_logs arch (AtErr e # vs) = jsonl_logs arch vs"

lemma walk_log_visit:
  "walk (log_visit arch) vs acc = (None, acc') \<Longrightarrow> acc' = acc @ jsonl_logs arch vs"
proof (induction vs arbitrary: acc)
  case Nil
  then show ?case by simp
next
  case (Cons v vs)
  obtain acc1 where "log_visit arch acc v = (None, acc1)" "walk (log_visit arch) vs acc1 = (None, acc')"
    using Cons.prems by (auto split: prod.splits option.splits)
  with Cons.IH[OF this(2)] show ?case by (cases v) (auto simp: log_visit_def split: if_splits)
qed

lemma jsonl_logs_paths:
  "distinct (file_paths vs) \<Longrightarrow> distinct (map fst (jsonl_logs arch vs)) \<and>
   set (map fst (jsonl_logs arch vs)) \<subseteq> set (file_paths vs)"
  by (induction arch vs rule: jsonl_logs.induct) auto

lemma discover_root_logs:
  assumes "discover_root home name arch acc = Inr logs" and "wf_node home"
  obtains new where "logs = acc @ new" "distinct (map fst new)" "\<And>lg. lg \<in> set new \<Longrightarrow> snd (snd lg) = arch"
    "\<And>lg. lg \<in> set new \<Longrightarrow> below name (fst lg)"
proof (cases "stat_child home name")
  case (Inl e)
  with assms that[of "[]"] show ?thesis by (auto simp: discover_root_def split: if_splits)
next
  case (Inr n)
  show ?thesis
  proof (cases "is_dir n")
    case False
    with Inr assms that[of "[]"] show ?thesis by (auto simp: discover_root_def)
  next
    case True
    let ?vs = "visits name name n"
    have logs: "logs = acc @ jsonl_logs arch ?vs"
      using assms(1) Inr True
      by (auto simp: discover_root_def split: prod.splits option.splits dest: walk_log_visit)
    have d: "distinct (file_paths ?vs)" by (rule visits_distinct) (rule wf_child[OF assms(2) Inr])
    have a: "snd (snd lg) = arch" if "lg \<in> set (jsonl_logs arch vs)" for lg vs
      using that by (induction arch vs rule: jsonl_logs.induct) (auto split: if_splits)
    have b: "below name (fst lg)" if "lg \<in> set (jsonl_logs arch ?vs)" for lg
      using that jsonl_logs_paths[OF d, of arch] by (intro visits_below(1)[of _ _ name n]) auto
    show ?thesis using that[OF logs] jsonl_logs_paths[OF d] a b by blast
  qed
qed

lemma below_sessions: "below ''sessions'' p \<Longrightarrow> below ''archived_sessions'' p \<Longrightarrow> False"
  by (auto simp: below_def)

text \<open>The discovered paths are distinct, so the list is the map \<open>paths\<close> of the source.\<close>

lemma discoverLogs_distinct:
  assumes "discoverLogs home = Inr logs" and "wf_node home"
  shows "distinct (map fst logs)"
proof -
  obtain acc where acc: "discover_root home ''sessions'' False [] = Inr acc"
    "discover_root home ''archived_sessions'' True acc = Inr logs"
    using assms(1) by (auto simp: discoverLogs_def split: sum.splits)
  obtain xs where xs: "acc = xs" "distinct (map fst xs)" "\<And>lg. lg \<in> set xs \<Longrightarrow> below ''sessions'' (fst lg)"
    by (rule discover_root_logs[OF acc(1) assms(2)]) auto
  obtain ys where ys: "logs = acc @ ys" "distinct (map fst ys)"
    "\<And>lg. lg \<in> set ys \<Longrightarrow> below ''archived_sessions'' (fst lg)"
    by (rule discover_root_logs[OF acc(2) assms(2)]) auto
  have "set (map fst xs) \<inter> set (map fst ys) = {}"
    using xs(3) ys(3) below_sessions by fastforce
  with xs ys show ?thesis by auto
qed

section \<open>The loop over the logs\<close>

text \<open>The checkpoint that a scan makes of a log, up to the file id.\<close>

definition describing :: "crypto \<Rightarrow> string \<Rightarrow> bytes \<Rightarrow> go_time \<Rightarrow> bool \<Rightarrow> checkpoint \<Rightarrow> bool" where
  "describing C r b t a cp =
     (cp_path cp = r \<and> cp_size cp = int (length b) \<and> cp_prefix cp = sha256_hex C b \<and>
      cp_full cp = (if a then sha256_hex C b else []) \<and> cp_archived cp = a \<and> cp_mtime cp = time_Unix t)"

definition checkpoint_of :: "crypto \<Rightarrow> log \<Rightarrow> string \<times> checkpoint \<Rightarrow> bool" where
  "checkpoint_of C lg rc =
     (case lg of (relative, n, archived) \<Rightarrow>
        fst rc = relative \<and> (case n of File b t \<Rightarrow> describing C relative b t archived (snd rc) | _ \<Rightarrow> False))"

lemma describing_new: "describing C r b t a (new_checkpoint fid r (int (length b)) (sha256_hex C b) a t)"
  by (simp add: describing_def new_checkpoint_def)

definition describes :: "crypto \<Rightarrow> log list \<Rightarrow> checkpoints \<Rightarrow> bool" where
  "describes C logs files = list_all2 (checkpoint_of C) (sort_key fst logs) files"

definition violations :: "crypto \<Rightarrow> checkpoint \<Rightarrow> bytes \<Rightarrow> Finding list" where
  "violations C previous b =
     (if cp_archived previous then
        (if int (length b) \<noteq> cp_size previous \<or> sha256_hex C b \<noteq> cp_full previous
         then [finding ''ARCHIVED_LOG_MODIFIED'' (cp_id previous) (cp_size previous) (Some (int (length b)))] else [])
      else if int (length b) < cp_size previous then
        [finding ''LOG_TRUNCATED'' (cp_id previous) (cp_size previous) (Some (int (length b)))]
      else if sha256_hex C (take (nat (cp_size previous)) b) \<noteq> cp_prefix previous then
        [finding ''LOG_PREFIX_MODIFIED'' (cp_id previous) (cp_size previous) (Some (int (length b)))]
      else [])"

definition log_violations :: "crypto \<Rightarrow> checkpoints \<Rightarrow> log \<Rightarrow> Finding list" where
  "log_violations C old lg =
     (case map_of old (fst lg) of
        None \<Rightarrow> []
      | Some previous \<Rightarrow> (case fst (snd lg) of File b _ \<Rightarrow> violations C previous b | _ \<Rightarrow> []))"

lemma hashPrefix_all [simp]: "hashPrefix C (File b t) (int (length b)) = Inr (sha256_hex C b)"
  by (simp add: hashPrefix_def)

lemma hash_all_file: "hashPrefix C n k = Inr h \<Longrightarrow> \<exists>b t. n = File b t"
  by (cases n) (auto simp: hashPrefix_def)

lemma compare_file:
  "compare C previous (File b t) (int (length b)) (sha256_hex C b) = Inr fs \<Longrightarrow> fs = violations C previous b"
  by (auto simp: compare_def violations_def hashPrefix_def split: if_splits)

lemma compare_total:
  "0 \<le> cp_size previous \<Longrightarrow>
   compare C previous (File b t) (int (length b)) (sha256_hex C b) = Inr (violations C previous b)"
  by (auto simp: compare_def violations_def hashPrefix_def)

text \<open>What a step has read of a known file.\<close>

lemma known_step_file:
  assumes "known_step C previous sc (relative, n, archived) = Inr sc'"
  obtains b t where "n = File b t"
    "sc' = sc\<lparr>findings := findings sc @ violations C previous b, used := relative # used sc, next_files := next_files sc @
       [(relative, new_checkpoint (cp_id previous) relative (int (length b)) (sha256_hex C b) archived t)]\<rparr>"
proof -
  from assms obtain sz mt cur fs where k: "stat_log n = Inr (sz, mt)" "hashPrefix C n sz = Inr cur"
    "compare C previous n sz cur = Inr fs"
    "sc' = sc\<lparr>findings := findings sc @ fs, used := relative # used sc, next_files := next_files sc @
       [(relative, new_checkpoint (cp_id previous) relative sz cur archived mt)]\<rparr>"
    by (auto simp: known_step_def split: sum.splits prod.splits)
  from hash_all_file[OF k(2)] obtain b t where n: "n = File b t" by blast
  with k(1) have s: "sz = int (length b)" "mt = t" by (auto simp: stat_log_def)
  with k(2) n have cur: "cur = sha256_hex C b" by simp
  have "fs = violations C previous b" using k(3) compare_file unfolding n s cur by blast
  with k(4) that[OF n] show ?thesis by (simp add: s cur)
qed

lemma scan_step_cases:
  assumes "scan_step C it rnd old sc lg = Inr sc'"
  obtains relative b t archived rc where
    "lg = (relative, File b t, archived)" "checkpoint_of C lg rc"
    "next_files sc' = next_files sc @ [rc]"
    "findings sc' = findings sc @ log_violations C old lg"
    "\<And>previous. map_of old relative = Some previous \<Longrightarrow>
      cp_id (snd rc) = cp_id previous \<and> used sc' = relative # used sc"
    "map_of old relative = None \<Longrightarrow>
      (used sc' = used sc \<and> cp_id (snd rc) = opaqueID rnd relative \<and>
        (\<forall>o'. moved_from C it old (used sc) lg (int (length b)) = Some o' \<longrightarrow> fst o' = [])) \<or>
      (\<exists>src cp. moved_from C it old (used sc) lg (int (length b)) = Some (src, cp) \<and>
        used sc' = src # used sc \<and> cp_id (snd rc) = cp_id cp)"
proof -
  obtain relative n archived where lg: "lg = (relative, n, archived)" by (cases lg)
  show ?thesis
  proof (cases "map_of old relative")
    case (Some previous)
    with assms have "known_step C previous sc (relative, n, archived) = Inr sc'" by (simp add: lg scan_step_def)
    then show ?thesis
    proof (cases rule: known_step_file)
      case (1 b t)
      show ?thesis
        by (rule that[of relative b t archived
              "(relative, new_checkpoint (cp_id previous) relative (int (length b)) (sha256_hex C b) archived t)"])
          (simp_all add: lg 1 Some checkpoint_of_def describing_def log_violations_def new_checkpoint_def)
    qed
  next
    case None
    with assms obtain sz mt full where k: "stat_log n = Inr (sz, mt)" "hashPrefix C n sz = Inr full"
      "unknown_step C it rnd old sc lg = Inr sc'"
      by (auto simp: lg scan_step_def unknown_step_def split: sum.splits prod.splits)
    from hash_all_file[OF k(2)] obtain b t where n: "n = File b t" by blast
    with k(1) have s: "sz = int (length b)" "mt = t" by (auto simp: stat_log_def)
    with k(2) n have full: "full = sha256_hex C b" by simp
    let ?rc = "\<lambda>fid. (relative, new_checkpoint fid relative sz full archived mt)"
    have c: "checkpoint_of C lg (?rc fid)" for fid
      by (simp add: checkpoint_of_def lg n s full describing_new)
    show ?thesis
    proof (cases "\<exists>src cp. moved_from C it old (used sc) lg sz = Some (src, cp) \<and> src \<noteq> []")
      case True
      then obtain src cp where m: "moved_from C it old (used sc) lg sz = Some (src, cp)" "src \<noteq> []" by blast
      show ?thesis
        by (rule that[OF _ c[of "cp_id cp"]])
          (use k m None in \<open>auto simp: lg n s unknown_step_def log_violations_def new_checkpoint_def\<close>)
    next
      case False
      then have "unknown_step C it rnd old sc lg =
          Inr (sc\<lparr>next_files := next_files sc @ [?rc (opaqueID rnd relative)]\<rparr>)"
        using k(1,2) by (auto simp: unknown_step_def lg Let_def split: option.splits)
      with k(3) have "sc' = sc\<lparr>next_files := next_files sc @ [?rc (opaqueID rnd relative)]\<rparr>" by simp
      then show ?thesis
        by (intro that[OF _ c[of "opaqueID rnd relative"]])
          (use False None in \<open>auto simp: lg n s log_violations_def new_checkpoint_def\<close>)
    qed
  qed
qed

text \<open>An archived log not seen before that the move search accepts as the new place of \<open>r\<close>.\<close>

definition claims :: "crypto \<Rightarrow> iteration \<Rightarrow> checkpoints \<Rightarrow> log list \<Rightarrow> string \<Rightarrow> bool" where
  "claims C it old lgs r =
     (\<exists>relative b t cp us. (relative, File b t, True) \<in> set lgs \<and> map_of old relative = None \<and>
        (r, cp) \<in> set (move_order it relative old) \<and>
        moves_to C us (File b t) (int (length b)) (r, cp))"

lemma moved_from_Some:
  "moved_from C it old us (relative, n, archived) sz = Some (src, cp) \<Longrightarrow>
   archived \<and> (src, cp) \<in> set (move_order it relative old) \<and> moves_to C us n sz (src, cp)"
  by (auto simp: moved_from_def find_Some_iff in_set_conv_nth split: if_splits)

definition kept_ids :: "checkpoints \<Rightarrow> log list \<Rightarrow> checkpoints \<Rightarrow> bool" where
  "kept_ids old lgs new =
     list_all2 (\<lambda>lg rc. \<forall>previous. map_of old (fst lg) = Some previous \<longrightarrow> cp_id (snd rc) = cp_id previous) lgs new"

text \<open>What a stretch of the loop does to the scan: the log list, the entries added, and the paths used.\<close>

definition scanned ::
  "crypto \<Rightarrow> iteration \<Rightarrow> checkpoints \<Rightarrow> scan \<Rightarrow> log list \<Rightarrow> scan \<Rightarrow> checkpoints \<Rightarrow> bool" where
  "scanned C it old sc lgs sc' new =
     (next_files sc' = next_files sc @ new \<and> list_all2 (checkpoint_of C) lgs new \<and> kept_ids old lgs new \<and>
      findings sc' = findings sc @ concat (map (log_violations C old) lgs) \<and>
      set (used sc) \<subseteq> set (used sc') \<and>
      (\<forall>lg \<in> set lgs. map_of old (fst lg) \<noteq> None \<longrightarrow> fst lg \<in> set (used sc')) \<and>
      (\<forall>r \<in> set (used sc'). r \<in> set (used sc) \<or> r \<in> set (map fst lgs) \<or> claims C it old lgs r))"

lemma claims_mono: "claims C it old xs r \<Longrightarrow> set xs \<subseteq> set ys \<Longrightarrow> claims C it old ys r"
  by (auto simp: claims_def) blast

lemma scanned_trans:
  assumes "scanned C it old sc xs sc1 new1" and "scanned C it old sc1 ys sc2 new2"
  shows "scanned C it old sc (xs @ ys) sc2 (new1 @ new2)"
proof -
  have m: "claims C it old (xs @ ys) r" if "claims C it old xs r \<or> claims C it old ys r" for r
    using that claims_mono[of C it old _ r "xs @ ys"] by auto
  have u: "\<forall>r \<in> set (used sc2). r \<in> set (used sc) \<or> r \<in> set (map fst (xs @ ys)) \<or> claims C it old (xs @ ys) r"
  proof
    fix r
    assume "r \<in> set (used sc2)"
    with assms(2) consider "r \<in> set (used sc1)" | "r \<in> set (map fst ys)" | "claims C it old ys r"
      unfolding scanned_def by blast
    then show "r \<in> set (used sc) \<or> r \<in> set (map fst (xs @ ys)) \<or> claims C it old (xs @ ys) r"
      using assms(1) m[of r] by cases (auto simp: scanned_def)
  qed
  have "list_all2 (checkpoint_of C) (xs @ ys) (new1 @ new2)" "kept_ids old (xs @ ys) (new1 @ new2)"
    using assms by (auto simp: scanned_def kept_ids_def intro: list_all2_appendI)
  with assms u show ?thesis by (auto simp: scanned_def)
qed

lemma scanned_step:
  assumes "scan_step C it rnd old sc lg = Inr sc1"
  shows "\<exists>rc. scanned C it old sc [lg] sc1 [rc]"
proof (rule scan_step_cases[OF assms], goal_cases)
  case (1 relative b t a rc)
  show ?thesis
  proof (cases "map_of old relative")
    case (Some previous)
    with 1 show ?thesis by (intro exI[of _ rc]) (auto simp: scanned_def kept_ids_def)
  next
    case None
    have "used sc1 = used sc \<or> (\<exists>src. used sc1 = src # used sc \<and> claims C it old [lg] src)"
      using 1(6)[OF None]
    proof (elim disjE exE conjE)
      fix src cp
      assume m: "moved_from C it old (used sc) lg (int (length b)) = Some (src, cp)" "used sc1 = src # used sc"
      from moved_from_Some[of C it old "used sc" relative "File b t" a "int (length b)" src cp] m(1) 1(1) None
      have "claims C it old [lg] src" by (auto simp: claims_def)
      with m(2) show ?thesis by blast
    qed blast
    with None 1 show ?thesis by (intro exI[of _ rc]) (auto simp: scanned_def kept_ids_def)
  qed
qed

lemma scan_logs_scanned:
  "scan_logs C it rnd old sc lgs = Inr sc' \<Longrightarrow> \<exists>new. scanned C it old sc lgs sc' new"
proof (induction lgs arbitrary: sc)
  case Nil
  then show ?case by (simp add: scanned_def kept_ids_def)
next
  case (Cons lg lgs)
  then obtain sc1 where sc1: "scan_step C it rnd old sc lg = Inr sc1" "scan_logs C it rnd old sc1 lgs = Inr sc'"
    by (auto split: sum.splits)
  obtain rc where "scanned C it old sc [lg] sc1 [rc]" using scanned_step[OF sc1(1)] by blast
  moreover obtain new where "scanned C it old sc1 lgs sc' new" using Cons.IH[OF sc1(2)] by blast
  ultimately show ?case using scanned_trans[of C it old sc "[lg]" sc1 "[rc]" lgs sc' new] by auto
qed

text \<open>A scan of readable files against checkpoints with non-negative sizes does not fail.\<close>

lemma scan_logs_total:
  "(\<And>lg. lg \<in> set lgs \<Longrightarrow> \<exists>b t. fst (snd lg) = File b t) \<Longrightarrow>
   (\<And>r cp. map_of old r = Some cp \<Longrightarrow> 0 \<le> cp_size cp) \<Longrightarrow>
   \<exists>sc'. scan_logs C it rnd old sc lgs = Inr sc'"
proof (induction lgs arbitrary: sc)
  case Nil
  then show ?case by simp
next
  case (Cons lg lgs)
  obtain relative b t a where lg: "lg = (relative, File b t, a)"
    using Cons.prems(1)[of lg] by (cases lg) auto
  have "\<exists>sc1. scan_step C it rnd old sc lg = Inr sc1"
    using Cons.prems(2)[of relative]
    by (auto simp: lg scan_step_def known_step_def unknown_step_def stat_log_def compare_total Let_def
        split: option.splits)
  then obtain sc1 where "scan_step C it rnd old sc lg = Inr sc1" ..
  with Cons.IH[of sc1] Cons.prems show ?case by simp
qed

section \<open>The whole scan\<close>

lemma chain_supported: "supported (chain_json i q h ms fs)"
  by (auto simp: chain_json_def metadata_json_def finding_json_def opt_str_def opt_int_def split: option.splits)

lemma snapshot_hash_total:
  "snapshot_hash C st ms fs = Inr (sha256_hex C (emit (canonical_tree (as_any
     (chain_json (StateID st) (ScanSequence st + 1) (LastSnapshotHash st) ms fs)))))"
  by (simp add: snapshot_hash_def CanonicalJSON_supported[OF chain_supported])

lemma ScanIntegrity_ok:
  assumes "ScanIntegrity C it rnd fault home s = (Inr p, s')"
  obtains st logs sc new h where "loadIntegrityState rnd s = Inr st" "discoverLogs home = Inr logs"
    "scan_logs C it rnd (Files st) start_scan (sort_key fst logs) = Inr sc"
    "scanned C it (Files st) start_scan (sort_key fst logs) sc new" "next_files sc = new"
    "Findings p = findings sc @ deletions it (Files st) (used sc) (map fst logs)"
    "Metadata p = scan_metadata it new" "FilesChecked p = length new"
    "Status p = (if Findings p = [] then ''OK'' else ''TAMPER'')"
    "snapshot_hash C st (Metadata p) (Findings p) = Inr h"
    "pay_state p = StateID st" "pay_sequence p = ScanSequence st + 1"
    "PreviousSnapshotHash p = LastSnapshotHash st" "SnapshotHash p = h"
    "dest s' = Content \<lparr>StateID = StateID st, ScanSequence = ScanSequence st + 1,
       LastSnapshotHash = h, Files = new\<rparr>"
proof -
  obtain st logs sc h where a: "loadIntegrityState rnd s = Inr st" "discoverLogs home = Inr logs"
    "scan_logs C it rnd (Files st) start_scan (sort_key fst logs) = Inr sc"
    "snapshot_hash C st (scan_metadata it (next_files sc))
       (findings sc @ deletions it (Files st) (used sc) (map fst logs)) = Inr h"
    "saveIntegrityState fault \<lparr>StateID = StateID st, ScanSequence = ScanSequence st + 1,
       LastSnapshotHash = h, Files = next_files sc\<rparr> s = (None, s')"
    and p: "p = \<lparr>FilesChecked = length (next_files sc),
       Status = (if findings sc @ deletions it (Files st) (used sc) (map fst logs) = [] then ''OK'' else ''TAMPER''),
       Findings = findings sc @ deletions it (Files st) (used sc) (map fst logs),
       Metadata = scan_metadata it (next_files sc), pay_state = StateID st,
       pay_sequence = ScanSequence st + 1, PreviousSnapshotHash = LastSnapshotHash st, SnapshotHash = h\<rparr>"
    using assms by (auto simp: ScanIntegrity_def scan_result_def split: sum.splits prod.splits option.splits)
  obtain new where new: "scanned C it (Files st) start_scan (sort_key fst logs) sc new"
    using scan_logs_scanned[OF a(3)] by blast
  have n: "next_files sc = new" using new by (simp add: scanned_def start_scan_def)
  show ?thesis
    by (rule that[OF a(1-3) new n]) (use a(4) p n integrity_store.save_ok[OF a(5)] in simp_all)
qed

lemma ScanIntegrity_error: "ScanIntegrity C it rnd fault home s = (Inl e, s') \<Longrightarrow> dest s' = dest s"
  by (auto simp: ScanIntegrity_def split: sum.splits prod.splits option.splits
      dest: integrity_store.save_error)

section \<open>What the saved checkpoints say\<close>

lemma checkpoint_of_fst: "checkpoint_of C lg rc \<Longrightarrow> fst rc = fst lg"
  by (auto simp: checkpoint_of_def split: node.splits)

lemma describes_keys:
  assumes "describes C logs files"
  shows "map fst files = map fst (sort_key fst logs)"
proof -
  have "list_all2 (checkpoint_of C) xs ys \<Longrightarrow> map fst ys = map fst xs" for xs ys
    by (induction rule: list_all2_induct) (auto dest: checkpoint_of_fst)
  with assms show ?thesis unfolding describes_def by blast
qed

lemma describes_key_set: "describes C logs files \<Longrightarrow> set (map fst files) = set (map fst logs)"
  by (drule describes_keys) (metis list.set_map set_sort)

lemma distinct_sort_keys:
  fixes logs :: "log list"
  shows "distinct (map fst logs) \<Longrightarrow> distinct (map fst (sort_key fst logs))"
proof -
  have "mset (map fst (sort_key fst logs)) = mset (map fst logs)" by simp
  then show "distinct (map fst logs) \<Longrightarrow> ?thesis" using mset_eq_imp_distinct_iff by blast
qed

lemma describes_distinct: "describes C logs files \<Longrightarrow> distinct (map fst logs) \<Longrightarrow> distinct (map fst files)"
  by (simp add: describes_keys distinct_sort_keys)

lemma describes_lookup:
  assumes "describes C logs files" "distinct (map fst logs)" "(r, File b t, a) \<in> set logs"
  shows "\<exists>cp. map_of files r = Some cp \<and> describing C r b t a cp"
proof -
  have "(r, File b t, a) \<in> set (sort_key fst logs)" using assms(3) by simp
  then obtain i where i: "i < length (sort_key fst logs)" "sort_key fst logs ! i = (r, File b t, a)"
    by (auto simp: in_set_conv_nth simp del: set_sort)
  with assms(1) have c: "i < length files" "checkpoint_of C (r, File b t, a) (files ! i)"
    by (auto simp: describes_def list_all2_conv_all_nth)
  then have "fst (files ! i) = r" "describing C r b t a (snd (files ! i))"
    by (auto simp: checkpoint_of_def)
  moreover have "files ! i \<in> set files" using c(1) by simp
  then have "map_of files (fst (files ! i)) = Some (snd (files ! i))"
    using describes_distinct[OF assms(1,2)] by (intro map_of_SomeI) auto
  ultimately show ?thesis by auto
qed

lemma describes_origin:
  assumes "describes C logs files" "(r, cp) \<in> set files"
  shows "\<exists>b t a. (r, File b t, a) \<in> set logs \<and> describing C r b t a cp"
proof -
  obtain i where i: "i < length files" "files ! i = (r, cp)" using assms(2) by (auto simp: in_set_conv_nth)
  with assms(1) have c: "i < length (sort_key fst logs)" "checkpoint_of C (sort_key fst logs ! i) (r, cp)"
    by (auto simp: describes_def list_all2_conv_all_nth)
  obtain r' n a where e: "sort_key fst logs ! i = (r', n, a)" by (cases "sort_key fst logs ! i")
  have ck: "checkpoint_of C (r', n, a) (r, cp)" using c(2) by (simp only: e)
  then obtain b t where n: "n = File b t" by (cases n) (simp_all add: checkpoint_of_def)
  from ck have "r' = r" "describing C r b t a cp" by (simp_all add: checkpoint_of_def n)
  with e n have "sort_key fst logs ! i = (r, File b t, a)" "describing C r b t a cp" by simp_all
  moreover have "sort_key fst logs ! i \<in> set logs" using nth_mem[OF c(1)] by simp
  ultimately show ?thesis by (intro exI[of _ b] exI[of _ t] exI[of _ a]) simp
qed

lemma describing_simps:
  assumes "describing C r b t a cp"
  shows "cp_size cp = int (length b)" "cp_prefix cp = sha256_hex C b" "cp_archived cp = a"
    "cp_full cp = (if a then sha256_hex C b else [])"
  using assms by (simp_all add: describing_def)

text \<open>What the agent accepts between two scans: appending to an active log, nothing else.\<close>

definition intact :: "bool \<Rightarrow> bytes \<Rightarrow> bytes \<Rightarrow> bool" where
  "intact archived b b' = (if archived then b' = b else (\<exists>ext. b' = b @ ext))"

lemma intact_no_violation:
  "describing C r b t a cp \<Longrightarrow> intact a b b' \<Longrightarrow> violations C cp b' = []"
  by (cases a) (auto simp: violations_def describing_simps intact_def)

lemma violation_cases:
  assumes "describing C r b t a cp" and "\<not> intact a b b'"
  shows "(\<exists>event \<in> {''ARCHIVED_LOG_MODIFIED'', ''LOG_TRUNCATED'', ''LOG_PREFIX_MODIFIED''}.
      violations C cp b' = [finding event (cp_id cp) (int (length b)) (Some (int (length b')))]) \<or>
    collide C (if a then b' else take (length b) b') b"
proof (cases a)
  case True
  with assms sha256_hex_collide[of C b' b] show ?thesis
    by (auto simp: violations_def describing_simps intact_def)
next
  case False
  have "take (length b) b' \<noteq> b" using assms(2) False by (metis append_take_drop_id intact_def)
  with assms(1) False sha256_hex_collide[of C "take (length b) b'" b] show ?thesis
    by (auto simp: violations_def describing_simps)
qed

text \<open>A successful scan saves checkpoints that describe the logs it has seen.\<close>

lemma scan_saves:
  assumes "ScanIntegrity C it rnd fault home s = (Inr p, s')" "discoverLogs home = Inr logs"
  shows "\<exists>st'. dest s' = Content st' \<and> describes C logs (Files st') \<and> FilesChecked p = length logs \<and>
    StateID st' = pay_state p \<and> ScanSequence st' = pay_sequence p \<and> LastSnapshotHash st' = SnapshotHash p"
proof (rule ScanIntegrity_ok[OF assms(1)], goal_cases)
  case (1 st logs' sc new h)
  then have "list_all2 (checkpoint_of C) (sort_key fst logs) new" using assms(2) by (simp add: scanned_def)
  moreover from this have "length new = length logs" by (metis length_sort list_all2_lengthD)
  ultimately show ?case using 1 by (simp add: describes_def)
qed

text \<open>The orders of Go's \<open>range\<close>: some permutation of the map.\<close>

definition iterates :: "iteration \<Rightarrow> bool" where
  "iterates it = (\<forall>r xs. mset (move_order it r xs) = mset xs \<and> mset (delete_order it xs) = mset xs \<and>
     mset (meta_order it xs) = mset xs)"

lemma iterates_sets:
  assumes "iterates it"
  shows "set (move_order it r xs) = set xs" "set (delete_order it xs) = set xs" "set (meta_order it xs) = set xs"
  using assms by (metis iterates_def set_mset_mset)+

lemma deletions_none:
  "iterates it \<Longrightarrow> set (map fst old) \<subseteq> set us \<union> set present \<Longrightarrow> deletions it old us present = []"
  by (auto simp: deletions_def filter_empty_conv iterates_sets)

lemma load_Content:
  "dest s = Content st \<Longrightarrow> \<exists>st'. loadIntegrityState rnd s = Inr st' \<and> Files st' = Files st \<and>
     ScanSequence st' = ScanSequence st \<and> LastSnapshotHash st' = LastSnapshotHash st \<and>
     (StateID st \<noteq> [] \<longrightarrow> StateID st' = StateID st)"
  by (auto simp: loadIntegrityState_def)

lemma scan_runs:
  assumes "loadIntegrityState rnd s = Inr st" "discoverLogs home = Inr logs"
    and "\<And>lg. lg \<in> set logs \<Longrightarrow> \<exists>b t. fst (snd lg) = File b t"
    and "\<And>r cp. map_of (Files st) r = Some cp \<Longrightarrow> 0 \<le> cp_size cp"
  shows "\<exists>p s'. ScanIntegrity C it rnd None home s = (Inr p, s')"
proof -
  obtain sc where "scan_logs C it rnd (Files st) start_scan (sort_key fst logs) = Inr sc"
    using scan_logs_total[of "sort_key fst logs" "Files st" C it rnd start_scan] assms(3,4) by auto
  with assms(1,2) show ?thesis
    by (simp add: ScanIntegrity_def scan_result_def snapshot_hash_total integrity_store.save_None)
qed

section \<open>Two scans in a row\<close>

text \<open>What two successful scans share: the checkpoints of the first describe its logs.\<close>

lemma two_scans:
  assumes "ScanIntegrity C it1 rnd1 f1 home1 s = (Inr p1, s1)" "discoverLogs home1 = Inr logs1" "wf_node home1"
  obtains st where "dest s1 = Content st" "describes C logs1 (Files st)" "distinct (map fst logs1)"
    "StateID st = pay_state p1" "ScanSequence st = pay_sequence p1" "LastSnapshotHash st = SnapshotHash p1"
  using scan_saves[OF assms(1,2)] discoverLogs_distinct[OF assms(2,3)] by blast

text \<open>The findings of the second scan, over the checkpoints it loads.\<close>

lemma second_scan:
  assumes "ScanIntegrity C it rnd fault home s = (Inr p, s')" "dest s = Content st" "discoverLogs home = Inr logs"
  obtains sc new where "scan_logs C it rnd (Files st) start_scan (sort_key fst logs) = Inr sc"
    "scanned C it (Files st) start_scan (sort_key fst logs) sc new" "next_files sc = new"
    "Findings p = concat (map (log_violations C (Files st)) (sort_key fst logs)) @
       deletions it (Files st) (used sc) (map fst logs)"
    "Status p = (if Findings p = [] then ''OK'' else ''TAMPER'')"
    "\<exists>st'. dest s' = Content st' \<and> Files st' = new"
proof (rule ScanIntegrity_ok[OF assms(1)], goal_cases)
  case (1 st' logs' sc new h)
  obtain st'' where "loadIntegrityState rnd s = Inr st''" "Files st'' = Files st"
    using load_Content[OF assms(2)] by blast
  with 1 have "Files st' = Files st" by simp
  with 1 assms(3) that[of sc new] show ?case by (simp add: scanned_def start_scan_def)
qed

lemma log_violations_mem:
  "(r, File b t, a) \<in> set logs \<Longrightarrow> map_of old r = Some cp \<Longrightarrow>
   set (violations C cp b) \<subseteq> set (concat (map (log_violations C old) (sort_key fst logs)))"
  by (auto simp: log_violations_def intro!: bexI[of _ "(r, File b t, a)"])

lemma no_violations:
  assumes "describes C logs1 old" "distinct (map fst logs2)"
    and "\<forall>(r, n, a) \<in> set logs1. \<forall>b1 t1. r \<in> set (map fst logs2) \<and> n = File b1 t1 \<longrightarrow>
      (\<exists>b2 t2 a2. (r, File b2 t2, a2) \<in> set logs2 \<and> intact a b1 b2)"
  shows "concat (map (log_violations C old) (sort_key fst logs2)) = []"
proof -
  have "log_violations C old lg = []" if "lg \<in> set logs2" for lg
  proof (cases "map_of old (fst lg)")
    case None
    then show ?thesis by (simp add: log_violations_def)
  next
    case (Some cp)
    then have "(fst lg, cp) \<in> set old" by (rule map_of_SomeD)
    from describes_origin[OF assms(1) this] obtain b t a where
      o: "(fst lg, File b t, a) \<in> set logs1" "describing C (fst lg) b t a cp" by blast
    from that have "fst lg \<in> set (map fst logs2)" by simp
    with assms(3) o(1) obtain b2 t2 a2 where n: "(fst lg, File b2 t2, a2) \<in> set logs2" "intact a b b2" by blast
    obtain r n' a' where lg: "lg = (r, n', a')" by (cases lg)
    have "(r, n', a') \<in> set logs2" "(r, File b2 t2, a2) \<in> set logs2" using that n(1) by (simp_all add: lg)
    with assms(2) have "n' = File b2 t2" by (metis Pair_inject eq_key_imp_eq_value)
    with Some intact_no_violation[OF o(2) n(2)] show ?thesis by (simp add: log_violations_def lg)
  qed
  then show ?thesis by simp
qed

text \<open>A scan of logs that were only appended to.\<close>

lemma appended_scan:
  assumes "iterates it" and "wf_node home1" and "wf_node home2"
    and "ScanIntegrity C it1 rnd1 f1 home1 s = (Inr p1, s1)"
    and "discoverLogs home1 = Inr logs1" and "discoverLogs home2 = Inr logs2"
    and "\<forall>lg \<in> set logs2. \<exists>b t. fst (snd lg) = File b t"
    and "\<forall>(r, n, a) \<in> set logs1. \<forall>b1 t1. n = File b1 t1 \<longrightarrow>
      (\<exists>b2 t2 a2. (r, File b2 t2, a2) \<in> set logs2 \<and> intact a b1 b2)"
  shows "\<exists>p2 s2. ScanIntegrity C it rnd2 None home2 s1 = (Inr p2, s2) \<and> Status p2 = ''OK'' \<and> Findings p2 = []"
proof -
  obtain st where st: "dest s1 = Content st" "describes C logs1 (Files st)" "distinct (map fst logs1)"
    by (rule two_scans[OF assms(4,5,2)])
  have files: "\<exists>b t a. (r, File b t, a) \<in> set logs1 \<and> describing C r b t a cp" if "(r, cp) \<in> set (Files st)" for r cp
    using describes_origin[OF st(2) that] .
  obtain st2 where st2: "loadIntegrityState rnd2 s1 = Inr st2" "Files st2 = Files st"
    using load_Content[OF st(1)] by blast
  have "0 \<le> cp_size cp" if "map_of (Files st2) r = Some cp" for r cp
    using files[OF map_of_SomeD[OF that[unfolded st2]]] by (auto dest: describing_simps)
  then obtain p2 s2 where run: "ScanIntegrity C it rnd2 None home2 s1 = (Inr p2, s2)"
    using scan_runs[OF st2(1) assms(6), of C it] assms(7) by blast
  obtain sc :: scan where sc: "Findings p2 = concat (map (log_violations C (Files st)) (sort_key fst logs2)) @
      deletions it (Files st) (used sc) (map fst logs2)" "Status p2 = (if Findings p2 = [] then ''OK'' else ''TAMPER'')"
    by (rule second_scan[OF run st(1) assms(6)])
  have "set (map fst (Files st)) \<subseteq> set (map fst logs2)"
  proof
    fix r
    assume "r \<in> set (map fst (Files st))"
    then obtain cp where "(r, cp) \<in> set (Files st)" by auto
    from files[OF this] assms(8) obtain b2 t2 a2 where "(r, File b2 t2, a2) \<in> set logs2" by blast
    then show "r \<in> set (map fst logs2)" by force
  qed
  then have "deletions it (Files st) (used sc) (map fst logs2) = []" by (intro deletions_none[OF assms(1)]) auto
  moreover have "concat (map (log_violations C (Files st)) (sort_key fst logs2)) = []"
    using assms(8) by (intro no_violations[OF st(2) discoverLogs_distinct[OF assms(6,3)]]) blast
  ultimately have "Findings p2 = []" using sc(1) by simp
  with run sc(2) show ?thesis by simp
qed

section \<open>Properties\<close>

text \<open>
  C12: ordinary use raises no alarm. If between two scans every active log has only been appended to
  and every archived log is unchanged, and new logs may have appeared, then the second scan succeeds
  (its logs being readable and the save possible), reports status OK and no finding, whatever the
  orders in which Go iterates over its maps.
\<close>

theorem append_only_ok:
  assumes "iterates it" and "wf_node home1" and "wf_node home2"
    and "ScanIntegrity C it1 rnd1 f1 home1 s = (Inr p1, s1)"
    and "discoverLogs home1 = Inr logs1" and "discoverLogs home2 = Inr logs2"
    and "\<forall>lg \<in> set logs2. \<exists>b t. fst (snd lg) = File b t"
    and "\<forall>(r, n, a) \<in> set logs1. \<forall>b1 t1. n = File b1 t1 \<longrightarrow>
      (\<exists>b2 t2 a2. (r, File b2 t2, a2) \<in> set logs2 \<and> intact a b1 b2)"
  shows "\<exists>p2 s2. ScanIntegrity C it rnd2 None home2 s1 = (Inr p2, s2) \<and> Status p2 = ''OK'' \<and> Findings p2 = []"
  using assms by (rule appended_scan)

text \<open>
  C9: tampering is detected. A log that both scans see and that was changed other than by appending
  to an active log gives status TAMPER and a critical finding with the file id of the checkpoint and
  its old size, or the new content and the old one are a SHA-256 collision.
\<close>

theorem tamper_detected:
  assumes "wf_node home1" and "wf_node home2"
    and "ScanIntegrity C it1 rnd1 f1 home1 s = (Inr p1, s1)" and "discoverLogs home1 = Inr logs1"
    and "ScanIntegrity C it rnd2 f2 home2 s1 = (Inr p2, s2)" and "discoverLogs home2 = Inr logs2"
    and "(r, File b1 t1, a1) \<in> set logs1" and "(r, File b2 t2, a2) \<in> set logs2" and "\<not> intact a1 b1 b2"
  shows "(\<exists>st cp f. dest s1 = Content st \<and> map_of (Files st) r = Some cp \<and> f \<in> set (Findings p2) \<and>
      find_id f = cp_id cp \<and> OldSize f = Some (int (length b1)) \<and> NewSize f = Some (int (length b2)) \<and>
      Severity f = ''CRITICAL'' \<and> Status p2 = ''TAMPER'') \<or>
    collide C (if a1 then b2 else take (length b1) b2) b1"
proof -
  obtain st where st: "dest s1 = Content st" "describes C logs1 (Files st)" "distinct (map fst logs1)"
    by (rule two_scans[OF assms(3,4,1)])
  obtain cp where cp: "map_of (Files st) r = Some cp" "describing C r b1 t1 a1 cp"
    using describes_lookup[OF st(2,3) assms(7)] by blast
  obtain sc :: scan where sc: "Findings p2 = concat (map (log_violations C (Files st)) (sort_key fst logs2)) @
      deletions it (Files st) (used sc) (map fst logs2)" "Status p2 = (if Findings p2 = [] then ''OK'' else ''TAMPER'')"
    by (rule second_scan[OF assms(5) st(1) assms(6)])
  from violation_cases[OF cp(2) assms(9)] show ?thesis
  proof
    assume "\<exists>event \<in> {''ARCHIVED_LOG_MODIFIED'', ''LOG_TRUNCATED'', ''LOG_PREFIX_MODIFIED''}.
      violations C cp b2 = [finding event (cp_id cp) (int (length b1)) (Some (int (length b2)))]"
    then obtain event where e: "violations C cp b2 = [finding event (cp_id cp) (int (length b1)) (Some (int (length b2)))]"
      by blast
    with log_violations_mem[OF assms(8) cp(1), of C] have
      "finding event (cp_id cp) (int (length b1)) (Some (int (length b2))) \<in> set (Findings p2)"
      unfolding sc(1) by auto
    with st(1) cp(1) sc(2) show ?thesis by (auto simp: finding_def)
  qed blast
qed

text \<open>
  C22: deletion is detected. A log of the first scan that the second does not see any more gives
  status TAMPER and a finding LOG_DELETED with its file id, unless it was active and some archived log
  that was not there before begins with its content, or collides with it.
\<close>

theorem deletion_detected:
  assumes "iterates it" and "wf_node home1" and "wf_node home2"
    and "ScanIntegrity C it1 rnd1 f1 home1 s = (Inr p1, s1)" and "discoverLogs home1 = Inr logs1"
    and "ScanIntegrity C it rnd2 f2 home2 s1 = (Inr p2, s2)" and "discoverLogs home2 = Inr logs2"
    and "(r, File b1 t1, a1) \<in> set logs1" and "r \<notin> set (map fst logs2)"
  shows "(\<exists>st cp f. dest s1 = Content st \<and> map_of (Files st) r = Some cp \<and> f \<in> set (Findings p2) \<and>
      EventType f = ''LOG_DELETED'' \<and> find_id f = cp_id cp \<and> Status p2 = ''TAMPER'') \<or>
    \<not> a1 \<and> (\<exists>r2 b2 t2. (r2, File b2 t2, True) \<in> set logs2 \<and> r2 \<notin> set (map fst logs1) \<and>
      (take (length b1) b2 = b1 \<or> collide C (take (length b1) b2) b1))"
proof -
  obtain st where st: "dest s1 = Content st" "describes C logs1 (Files st)" "distinct (map fst logs1)"
    by (rule two_scans[OF assms(4,5,2)])
  obtain cp where cp: "map_of (Files st) r = Some cp" "describing C r b1 t1 a1 cp"
    using describes_lookup[OF st(2,3) assms(8)] by blast
  obtain sc :: scan and new where sc: "scanned C it (Files st) start_scan (sort_key fst logs2) sc new"
    "Findings p2 = concat (map (log_violations C (Files st)) (sort_key fst logs2)) @
      deletions it (Files st) (used sc) (map fst logs2)" "Status p2 = (if Findings p2 = [] then ''OK'' else ''TAMPER'')"
    by (rule second_scan[OF assms(6) st(1) assms(7)])
  show ?thesis
  proof (cases "r \<in> set (used sc)")
    case False
    have "(r, cp) \<in> set (delete_order it (Files st))"
      using cp(1) iterates_sets(2)[OF assms(1)] by (auto dest: map_of_SomeD)
    with False assms(9) have "finding ''LOG_DELETED'' (cp_id cp) (cp_size cp) None
        \<in> set (deletions it (Files st) (used sc) (map fst logs2))"
      by (force simp: deletions_def)
    with sc(2,3) st(1) cp(1) show ?thesis by (auto simp: finding_def)
  next
    case True
    with sc(1) assms(9) have "claims C it (Files st) (sort_key fst logs2) r"
      by (auto simp: scanned_def start_scan_def)
    then obtain r2 b2 t2 cp' us where c: "(r2, File b2 t2, True) \<in> set logs2" "map_of (Files st) r2 = None"
      "(r, cp') \<in> set (Files st)" "moves_to C us (File b2 t2) (int (length b2)) (r, cp')"
      unfolding claims_def iterates_sets(1)[OF assms(1)] by auto
    have "cp' = cp" using cp(1) c(3) describes_distinct[OF st(2,3)] by simp
    with c(4) cp(2) have m: "\<not> a1" "length b1 \<le> length b2" "sha256_hex C (take (length b1) b2) = sha256_hex C b1"
      by (auto simp: moves_to_def describing_simps prefix_or_empty_def hashPrefix_def)
    have "r2 \<notin> set (map fst logs1)"
      using c(2) describes_key_set[OF st(2)] by (metis map_of_eq_None_iff list.set_map)
    with m c(1) sha256_hex_collide[OF m(3)] show ?thesis by blast
  qed
qed

lemma discoverLogs_path:
  assumes "discoverLogs home = Inr logs" and "wf_node home" and "lg \<in> set logs"
  shows "fst lg \<noteq> []"
proof -
  obtain acc where acc: "discover_root home ''sessions'' False [] = Inr acc"
    "discover_root home ''archived_sessions'' True acc = Inr logs"
    using assms(1) by (auto simp: discoverLogs_def split: sum.splits)
  have b: "logs' = acc' \<or> (\<exists>new. logs' = acc' @ new \<and> (\<forall>lg \<in> set new. below name (fst lg)))"
    if "discover_root home name a acc' = Inr logs'" for name a acc' logs'
    by (rule discover_root_logs[OF that assms(2)]) blast
  have "below ''sessions'' (fst lg) \<or> below ''archived_sessions'' (fst lg)"
    using b[OF acc(1)] b[OF acc(2)] assms(3) by auto
  then show ?thesis by (auto simp: below_def)
qed

lemma find_unique:
  assumes "x \<in> set xs" "P x" "\<And>y. y \<in> set xs \<Longrightarrow> P y \<Longrightarrow> y = x"
  shows "find P xs = Some x"
proof (cases "find P xs")
  case None
  with assms(1,2) show ?thesis by (auto simp: find_None_iff)
next
  case (Some y)
  then have "y \<in> set xs \<and> P y" by (auto simp: find_Some_iff)
  with assms(3) Some show ?thesis by blast
qed

lemma scan_logs_append:
  "scan_logs C it rnd old sc (xs @ ys) =
     (case scan_logs C it rnd old sc xs of Inl e \<Rightarrow> Inl e | Inr sc1 \<Rightarrow> scan_logs C it rnd old sc1 ys)"
  by (induction xs arbitrary: sc) (auto split: sum.splits)

text \<open>
  The one archived log that is new takes over the id of the one old log it continues, and marks it
  as used: the step for \<open>q\<close> in the middle of the loop.
\<close>

lemma move_step:
  assumes loop: "scan_logs C it rnd old start_scan (xs @ (q, File b t, True) # ys) = Inr sc"
    and q: "map_of old q = None" "q \<notin> set (map fst xs)"
    and new: "\<And>q' n. (q', n, True) \<in> set xs \<Longrightarrow> map_of old q' = None \<Longrightarrow> q' = q"
    and it: "iterates it" and r: "(r, cp) \<in> set old" "r \<noteq> []" "r \<notin> set (map fst xs)"
      "moves_to C [] (File b t) (int (length b)) (r, cp)"
    and rival: "\<And>o'. o' \<in> set old \<Longrightarrow> moves_to C [] (File b t) (int (length b)) o' \<Longrightarrow> o' = (r, cp)"
  shows "r \<in> set (used sc)" and "\<exists>cp'. (q, cp') \<in> set (next_files sc) \<and> cp_id cp' = cp_id cp"
proof -
  obtain sc1 sc2 where s: "scan_logs C it rnd old start_scan xs = Inr sc1"
    "scan_step C it rnd old sc1 (q, File b t, True) = Inr sc2" "scan_logs C it rnd old sc2 ys = Inr sc"
    using loop by (auto simp: scan_logs_append split: sum.splits)
  obtain new1 where n1: "scanned C it old start_scan xs sc1 new1" using scan_logs_scanned[OF s(1)] by blast
  obtain new2 where n2: "scanned C it old sc2 ys sc new2" using scan_logs_scanned[OF s(3)] by blast
  have "\<not> claims C it old xs x" for x using new q(2) by (force simp: claims_def)
  with n1 r(3) have nu: "r \<notin> set (used sc1)" by (auto simp: scanned_def start_scan_def)
  have weaker: "moves_to C us n sz o' \<Longrightarrow> moves_to C [] n sz o'" for us n sz o' by (simp add: moves_to_def)
  have "find (moves_to C (used sc1) (File b t) (int (length b))) (move_order it q old) = Some (r, cp)"
  proof (rule find_unique)
    show "(r, cp) \<in> set (move_order it q old)" using r(1) by (simp add: iterates_sets[OF it])
    show "moves_to C (used sc1) (File b t) (int (length b)) (r, cp)" using r(4) nu by (simp add: moves_to_def)
    fix o'
    assume "o' \<in> set (move_order it q old)" "moves_to C (used sc1) (File b t) (int (length b)) o'"
    then show "o' = (r, cp)" using rival weaker by (simp add: iterates_sets[OF it])
  qed
  then have mf: "moved_from C it old (used sc1) (q, File b t, True) (int (length b)) = Some (r, cp)"
    by (simp add: moved_from_def)
  have step: "used sc2 = r # used sc1 \<and>
      (\<exists>rc. fst rc = q \<and> cp_id (snd rc) = cp_id cp \<and> next_files sc2 = next_files sc1 @ [rc])"
  proof (rule scan_step_cases[OF s(2)], goal_cases)
    case (1 relative b' t' archived rc)
    have e: "relative = q" "b' = b" using 1(1) by simp_all
    have "fst rc = q" using checkpoint_of_fst[OF 1(2)] by simp
    moreover have "used sc2 = r # used sc1 \<and> cp_id (snd rc) = cp_id cp"
      using 1(6) q(1) mf r(2) unfolding e by simp
    ultimately show ?case using 1(3) by blast
  qed
  with n2 show "r \<in> set (used sc)" by (auto simp: scanned_def)
  from step obtain rc where rc: "fst rc = q" "cp_id (snd rc) = cp_id cp" "rc \<in> set (next_files sc2)" by auto
  with n2 have "rc \<in> set (next_files sc)" by (simp add: scanned_def)
  with rc show "\<exists>cp'. (q, cp') \<in> set (next_files sc) \<and> cp_id cp' = cp_id cp" by (metis prod.collapse)
qed

text \<open>With no rival among the old active logs, the move search can only accept the one that moved.\<close>

lemma only_origin:
  assumes "describes C logs1 old" "distinct (map fst logs1)"
    and "map_of old r = Some cp" "describing C r b1 t1 False cp"
    and rival: "\<forall>(r', n, a) \<in> set logs1. \<forall>b t. r' \<noteq> r \<and> \<not> a \<and> n = File b t \<and> length b \<le> length (b1 @ ext) \<longrightarrow>
      sha256_hex C (take (length b) (b1 @ ext)) \<noteq> sha256_hex C b"
  shows "moves_to C [] (File (b1 @ ext) t2) (int (length (b1 @ ext))) (r, cp)"
    and "o' \<in> set old \<Longrightarrow> moves_to C [] (File (b1 @ ext) t2) (int (length (b1 @ ext))) o' \<Longrightarrow> o' = (r, cp)"
proof -
  show "moves_to C [] (File (b1 @ ext) t2) (int (length (b1 @ ext))) (r, cp)"
    using assms(4) by (simp add: moves_to_def prefix_or_empty_def hashPrefix_def describing_simps)
  assume o': "o' \<in> set old" "moves_to C [] (File (b1 @ ext) t2) (int (length (b1 @ ext))) o'"
  obtain r' cp' where e: "o' = (r', cp')" by (cases o')
  from describes_origin[OF assms(1)] o'(1) e obtain b t a where
    o: "(r', File b t, a) \<in> set logs1" "describing C r' b t a cp'" by blast
  have "\<not> a" "length b \<le> length (b1 @ ext)" "sha256_hex C (take (length b) (b1 @ ext)) = sha256_hex C b"
    using o'(2) o(2) unfolding e
    by (auto simp: moves_to_def prefix_or_empty_def hashPrefix_def describing_simps simp del: take_append
        split: if_splits)
  with rival o(1) have "r' = r" by blast
  moreover from this o'(1) e have "map_of old r = Some cp'"
    using describes_distinct[OF assms(1,2)] by (intro map_of_SomeI) simp_all
  ultimately show "o' = (r, cp)" using assms(3) e by simp
qed

text \<open>
  C35: archiving is recognised. If between two scans one active log has disappeared and one archived
  log has appeared that begins with its content, everything else being intact, and no other old
  active log has a content that the archived one begins with, then the second scan reports nothing
  and the archived log keeps the file id of the active one.
\<close>

theorem move_keeps_identity:
  assumes "iterates it" and "wf_node home1" and "wf_node home2"
    and "ScanIntegrity C it1 rnd1 f1 home1 s = (Inr p1, s1)" and "discoverLogs home1 = Inr logs1"
    and "ScanIntegrity C it rnd2 f2 home2 s1 = (Inr p2, s2)" and "discoverLogs home2 = Inr logs2"
    and r: "(r, File b1 t1, False) \<in> set logs1" "r \<notin> set (map fst logs2)"
    and q: "(q, File (b1 @ ext) t2, True) \<in> set logs2" "q \<notin> set (map fst logs1)"
    and others: "\<forall>(r', n, a) \<in> set logs1. \<forall>b t. r' \<noteq> r \<and> n = File b t \<longrightarrow>
      (\<exists>b' t' a'. (r', File b' t', a') \<in> set logs2 \<and> intact a b b')"
    and new: "\<forall>(q', n, a) \<in> set logs2. a \<and> q' \<notin> set (map fst logs1) \<longrightarrow> q' = q"
    and rival: "\<forall>(r', n, a) \<in> set logs1. \<forall>b t. r' \<noteq> r \<and> \<not> a \<and> n = File b t \<and> length b \<le> length (b1 @ ext) \<longrightarrow>
      sha256_hex C (take (length b) (b1 @ ext)) \<noteq> sha256_hex C b"
  shows "Findings p2 = [] \<and> Status p2 = ''OK'' \<and>
    (\<exists>st1 st2 cp1 cp2. dest s1 = Content st1 \<and> dest s2 = Content st2 \<and> map_of (Files st1) r = Some cp1 \<and>
      map_of (Files st2) q = Some cp2 \<and> cp_id cp2 = cp_id cp1)"
proof -
  obtain st where st: "dest s1 = Content st" "describes C logs1 (Files st)" "distinct (map fst logs1)"
    by (rule two_scans[OF assms(4,5,2)])
  let ?old = "Files st" and ?b = "b1 @ ext"
  obtain cp where cp: "map_of ?old r = Some cp" "describing C r b1 t1 False cp"
    using describes_lookup[OF st(2,3) r(1)] by blast
  have keys: "map_of ?old x = None \<longleftrightarrow> x \<notin> set (map fst logs1)" for x
    using describes_key_set[OF st(2)] by (simp add: map_of_eq_None_iff)
  have d2: "distinct (map fst logs2)" by (rule discoverLogs_distinct[OF assms(7,3)])
  obtain xs ys where xy: "sort_key fst logs2 = xs @ (q, File ?b t2, True) # ys"
    using q(1) by (metis set_sort split_list)
  have dx: "q \<notin> set (map fst xs)"
    using distinct_sort_keys[OF d2] unfolding xy by simp
  obtain sc :: scan and new where loop: "scan_logs C it rnd2 ?old start_scan (sort_key fst logs2) = Inr sc"
    "Findings p2 = concat (map (log_violations C ?old) (sort_key fst logs2)) @
      deletions it ?old (used sc) (map fst logs2)" "Status p2 = (if Findings p2 = [] then ''OK'' else ''TAMPER'')"
    and nf: "next_files sc = new" "\<exists>st'. dest s2 = Content st' \<and> Files st' = new"
    by (rule second_scan[OF assms(6) st(1) assms(7)])
  have sub: "set xs \<subseteq> set logs2" by (metis Un_upper1 set_append set_sort xy)
  note origin = only_origin[where ?t2.0 = t2, OF st(2,3) cp rival]
  note move = move_step[OF loop(1)[unfolded xy] _ dx _ assms(1) map_of_SomeD[OF cp(1)] _ _ origin]
  have side: "map_of ?old q = None" "r \<noteq> []" "r \<notin> set (map fst xs)"
    "\<And>q' n. (q', n, True) \<in> set xs \<Longrightarrow> map_of ?old q' = None \<Longrightarrow> q' = q"
    using q(2) discoverLogs_path[OF assms(5,2) r(1)] r(2) sub new by (auto simp: keys)
  have ru: "r \<in> set (used sc)" using move(1) side by blast
  have "set (map fst ?old) \<subseteq> set (used sc) \<union> set (map fst logs2)"
    using ru others describes_origin[OF st(2)] by force
  then have del: "deletions it ?old (used sc) (map fst logs2) = []" by (rule deletions_none[OF assms(1)])
  have "concat (map (log_violations C ?old) (sort_key fst logs2)) = []"
  proof (rule no_violations[OF st(2) d2], clarify)
    fix r' n a b t
    assume a: "(r', File b t, a) \<in> set logs1" "r' \<in> set (map fst logs2)"
    with r(2) have "r' \<noteq> r" by auto
    with others a(1) show "\<exists>b2 t2 a2. (r', File b2 t2, a2) \<in> set logs2 \<and> intact a b b2" by blast
  qed
  with loop(2,3) del have f: "Findings p2 = []" "Status p2 = ''OK''" by simp_all
  obtain cp' where "(q, cp') \<in> set (next_files sc)" "cp_id cp' = cp_id cp" using move(2) side by blast
  moreover have "distinct (map fst (next_files sc))"
    using scan_saves[OF assms(6,7)] nf describes_distinct[OF _ d2] by fastforce
  ultimately show ?thesis using f st(1) cp(1) nf by auto
qed

text \<open>
  The scans form a hash chain. Each successful scan carries the snapshot hash of the one before,
  the next sequence number and the same state id, and its own hash is that of the canonical JSON text of
  exactly these values, its file metadata and its findings.
\<close>

theorem chain_links:
  assumes "ScanIntegrity C it1 rnd1 f1 home1 s = (Inr p1, s1)" and "pay_state p1 \<noteq> []"
    and "ScanIntegrity C it2 rnd2 f2 home2 s1 = (Inr p2, s2)"
  shows "PreviousSnapshotHash p2 = SnapshotHash p1 \<and> pay_sequence p2 = pay_sequence p1 + 1 \<and>
    pay_state p2 = pay_state p1 \<and>
    (\<exists>text. CanonicalJSON (chain_json (pay_state p1) (pay_sequence p1 + 1) (SnapshotHash p1) (Metadata p2) (Findings p2))
        = Inr text \<and> SnapshotHash p2 = sha256_hex C text)"
proof -
  obtain st1 where st1: "dest s1 = Content st1" "StateID st1 = pay_state p1" "ScanSequence st1 = pay_sequence p1"
    "LastSnapshotHash st1 = SnapshotHash p1"
    by (rule ScanIntegrity_ok[OF assms(1)]) simp
  show ?thesis
  proof (rule ScanIntegrity_ok[OF assms(3)], goal_cases)
    case (1 st logs sc new h)
    have "StateID st = pay_state p1" "ScanSequence st = pay_sequence p1" "LastSnapshotHash st = SnapshotHash p1"
      using load_Content[OF st1(1), of rnd2] 1(1) st1(2-4) assms(2) by auto
    with 1 show ?case
      by (simp add: snapshot_hash_total CanonicalJSON_supported[OF chain_supported])
  qed
qed

text \<open>
  C36: a scan that fails, for whatever reason, leaves the saved state as it was, and the next scan
  gives the same result as if the failed one had not happened.
\<close>

theorem failed_scan_keeps_state:
  assumes "ScanIntegrity C it1 rnd1 f1 home1 s = (Inl e, s1)"
  shows "dest s1 = dest s \<and>
    fst (ScanIntegrity C it rnd None home s1) = fst (ScanIntegrity C it rnd None home s)"
proof -
  have d: "dest s1 = dest s" by (rule ScanIntegrity_error[OF assms])
  then have "loadIntegrityState rnd s1 = loadIntegrityState rnd s" by (simp add: loadIntegrityState_def)
  with d show ?thesis
    by (simp add: ScanIntegrity_def scan_result_def snapshot_hash_total integrity_store.save_None split: sum.splits)
qed

section \<open>Concrete scans\<close>

text \<open>One active log and, in the second argument, one archived log; the identity stands for SHA-256.\<close>

definition sample_home :: "(string \<times> bytes) list \<Rightarrow> (string \<times> bytes) list \<Rightarrow> node" where
  "sample_home act arch =
     Dir None [(''sessions'', Dir None (map (\<lambda>(n, b). (n, File b (Time 0))) act)),
               (''archived_sessions'', Dir None (map (\<lambda>(n, b). (n, File b (Time 0))) arch))]"

definition sample_crypto :: crypto where
  "sample_crypto = \<lparr>sha256 = (\<lambda>b. b), ed25519_sign = (\<lambda>_ _. [])\<rparr>"

definition in_order :: iteration where
  "in_order = \<lparr>move_order = (\<lambda>_ xs. xs), delete_order = (\<lambda>xs. xs), meta_order = (\<lambda>xs. xs)\<rparr>"

definition sample_entropy :: entropy where
  "sample_entropy site = ''id'' @ site"

lemma in_order_iterates: "iterates in_order"
  by (simp add: iterates_def in_order_def)

lemma sample_wf: "wf_node (sample_home [(''a.jsonl'', b)] [])" "wf_node (sample_home [] [(''a.jsonl'', b)])"
  "wf_node (sample_home [] [])"
  by (simp_all add: sample_home_def slash_def)

lemma scan_jsonl: "is_jsonl ''a.jsonl''" "is_jsonl ''b.jsonl''"
  by code_simp+

lemma sample_logs:
  "discoverLogs (sample_home [(''a.jsonl'', b)] []) = Inr [(''sessions/a.jsonl'', File b (Time 0), False)]"
  "discoverLogs (sample_home [] [(''a.jsonl'', b)]) = Inr [(''archived_sessions/a.jsonl'', File b (Time 0), True)]"
  "discoverLogs (sample_home [] []) = Inr []"
  by (simp_all add: discoverLogs_def discover_root_def sample_home_def stat_child_def is_dir_def log_visit_def
      scan_jsonl)

lemma sample_first_scan:
  "\<exists>p s. ScanIntegrity C it rnd None (sample_home [(''a.jsonl'', b)] []) empty_slot = (Inr p, s)"
proof -
  obtain st where "loadIntegrityState rnd empty_slot = Inr st" "Files st = []"
    by (simp add: loadIntegrityState_def empty_slot_def)
  then show ?thesis using scan_runs[OF _ sample_logs(1)] by fastforce
qed

lemma no_collision: "\<not> collide sample_crypto x y"
  by (simp add: collide_def sample_crypto_def)

theorem append_only_ok_witness:
  "\<exists>p1 s1 p2 s2.
     ScanIntegrity sample_crypto in_order sample_entropy None (sample_home [(''a.jsonl'', ''x'')] []) empty_slot = (Inr p1, s1) \<and>
     ScanIntegrity sample_crypto in_order sample_entropy None (sample_home [(''a.jsonl'', ''xy'')] []) s1 = (Inr p2, s2) \<and>
     Status p2 = ''OK''"
proof -
  obtain p1 s1 where 1: "ScanIntegrity sample_crypto in_order sample_entropy None
      (sample_home [(''a.jsonl'', ''x'')] []) empty_slot = (Inr p1, s1)"
    using sample_first_scan by blast
  have "\<exists>p2 s2. ScanIntegrity sample_crypto in_order sample_entropy None (sample_home [(''a.jsonl'', ''xy'')] []) s1 =
      (Inr p2, s2) \<and> Status p2 = ''OK'' \<and> Findings p2 = []"
    by (rule append_only_ok[OF in_order_iterates sample_wf(1) sample_wf(1) 1 sample_logs(1) sample_logs(1)])
      (auto simp: intact_def)
  with 1 show ?thesis by blast
qed


text \<open>A second scan of readable files from any state a scan has saved.\<close>

lemma sample_next_scan:
  assumes "ScanIntegrity C it1 rnd1 f1 home1 s = (Inr p1, s1)" "discoverLogs home1 = Inr logs1"
    and "discoverLogs home2 = Inr logs2" "\<forall>lg \<in> set logs2. \<exists>b t. fst (snd lg) = File b t"
  shows "\<exists>p2 s2. ScanIntegrity C it2 rnd2 None home2 s1 = (Inr p2, s2)"
proof -
  obtain st where st: "dest s1 = Content st" "describes C logs1 (Files st)"
    using scan_saves[OF assms(1,2)] by blast
  obtain st2 where st2: "loadIntegrityState rnd2 s1 = Inr st2" "Files st2 = Files st"
    using load_Content[OF st(1)] by blast
  have "0 \<le> cp_size cp" if "map_of (Files st2) r = Some cp" for r cp
    using describes_origin[OF st(2) map_of_SomeD[OF that[unfolded st2]]] by (auto dest: describing_simps)
  then show ?thesis using scan_runs[OF st2(1) assms(3)] assms(4) by blast
qed

theorem tamper_detected_witness:
  "\<exists>p1 s1 p2 s2.
     ScanIntegrity sample_crypto in_order sample_entropy None (sample_home [(''a.jsonl'', ''xy'')] []) empty_slot = (Inr p1, s1) \<and>
     ScanIntegrity sample_crypto in_order sample_entropy None (sample_home [(''a.jsonl'', ''x'')] []) s1 = (Inr p2, s2) \<and>
     Status p2 = ''TAMPER''"
proof -
  let ?h = "\<lambda>b. sample_home [(''a.jsonl'', b)] []"
  obtain p1 s1 where 1: "ScanIntegrity sample_crypto in_order sample_entropy None (?h ''xy'') empty_slot = (Inr p1, s1)"
    using sample_first_scan by blast
  obtain p2 s2 where 2: "ScanIntegrity sample_crypto in_order sample_entropy None (?h ''x'') s1 = (Inr p2, s2)"
    using sample_next_scan[OF 1 sample_logs(1) sample_logs(1), of "''x''" in_order sample_entropy] by auto
  have "Status p2 = ''TAMPER''"
    using tamper_detected[OF sample_wf(1) sample_wf(1) 1 sample_logs(1) 2 sample_logs(1), of
        "''sessions/a.jsonl''" "''xy''" "Time 0" False "''x''" "Time 0" False] no_collision
    by (auto simp: intact_def)
  with 1 2 show ?thesis by blast
qed

theorem deletion_detected_witness:
  "\<exists>p1 s1 p2 s2.
     ScanIntegrity sample_crypto in_order sample_entropy None (sample_home [(''a.jsonl'', ''xy'')] []) empty_slot = (Inr p1, s1) \<and>
     ScanIntegrity sample_crypto in_order sample_entropy None (sample_home [] []) s1 = (Inr p2, s2) \<and>
     Status p2 = ''TAMPER''"
proof -
  obtain p1 s1 where 1: "ScanIntegrity sample_crypto in_order sample_entropy None
      (sample_home [(''a.jsonl'', ''xy'')] []) empty_slot = (Inr p1, s1)"
    using sample_first_scan by blast
  obtain p2 s2 where 2: "ScanIntegrity sample_crypto in_order sample_entropy None (sample_home [] []) s1 = (Inr p2, s2)"
    using sample_next_scan[OF 1 sample_logs(1) sample_logs(3), of in_order sample_entropy] by auto
  have "Status p2 = ''TAMPER''"
    using deletion_detected[OF in_order_iterates sample_wf(1) sample_wf(3) 1 sample_logs(1) 2 sample_logs(3), of
        "''sessions/a.jsonl''" "''xy''" "Time 0" False]
    by auto
  with 1 2 show ?thesis by blast
qed

theorem move_keeps_identity_witness:
  "\<exists>p1 s1 p2 s2.
     ScanIntegrity sample_crypto in_order sample_entropy None (sample_home [(''a.jsonl'', ''x'')] []) empty_slot = (Inr p1, s1) \<and>
     ScanIntegrity sample_crypto in_order sample_entropy None (sample_home [] [(''a.jsonl'', ''xy'')]) s1 = (Inr p2, s2) \<and>
     Findings p2 = []"
proof -
  obtain p1 s1 where 1: "ScanIntegrity sample_crypto in_order sample_entropy None
      (sample_home [(''a.jsonl'', ''x'')] []) empty_slot = (Inr p1, s1)"
    using sample_first_scan by blast
  obtain p2 s2 where 2: "ScanIntegrity sample_crypto in_order sample_entropy None
      (sample_home [] [(''a.jsonl'', ''xy'')]) s1 = (Inr p2, s2)"
    using sample_next_scan[OF 1 sample_logs(1) sample_logs(2), of "''xy''" in_order sample_entropy] by auto
  have "Findings p2 = []"
    using move_keeps_identity[OF in_order_iterates sample_wf(1) sample_wf(2) 1 sample_logs(1) 2 sample_logs(2), of
        "''sessions/a.jsonl''" "''x''" "Time 0" "''archived_sessions/a.jsonl''" "''y''" "Time 0"]
    by auto
  with 1 2 show ?thesis by blast
qed

theorem chain_links_witness:
  "\<exists>p1 s1 p2 s2.
     ScanIntegrity sample_crypto in_order sample_entropy None (sample_home [(''a.jsonl'', ''x'')] []) empty_slot = (Inr p1, s1) \<and>
     ScanIntegrity sample_crypto in_order sample_entropy None (sample_home [] []) s1 = (Inr p2, s2) \<and>
     PreviousSnapshotHash p2 = SnapshotHash p1 \<and> pay_sequence p2 = 2"
proof -
  obtain p1 s1 where 1: "ScanIntegrity sample_crypto in_order sample_entropy None
      (sample_home [(''a.jsonl'', ''x'')] []) empty_slot = (Inr p1, s1)"
    using sample_first_scan by blast
  obtain p2 s2 where 2: "ScanIntegrity sample_crypto in_order sample_entropy None (sample_home [] []) s1 = (Inr p2, s2)"
    using sample_next_scan[OF 1 sample_logs(1) sample_logs(3), of in_order sample_entropy] by auto
  have "hex_encode (sample_entropy []) \<noteq> []"
    by (simp add: sample_entropy_def hex_encode_Cons hex_byte_def)
  then have "pay_state p1 \<noteq> []" "pay_sequence p1 = 1"
    by (rule_tac [!] ScanIntegrity_ok[OF 1]) (auto simp: loadIntegrityState_def empty_slot_def opaqueID_def)
  with chain_links[OF 1 _ 2] 1 2 show ?thesis by auto
qed

theorem failed_scan_keeps_state_witness:
  "dest (snd (ScanIntegrity sample_crypto in_order sample_entropy (Some RenameFails) (sample_home [] []) empty_slot)) = Absent"
proof -
  obtain e s where "ScanIntegrity sample_crypto in_order sample_entropy (Some RenameFails) (sample_home [] []) empty_slot =
      (Inl e, s)"
    by (simp add: ScanIntegrity_def loadIntegrityState_def empty_slot_def sample_logs scan_result_def
        snapshot_hash_total saveIntegrityState_def write_replace_cases)
  from failed_scan_keeps_state[OF this] this show ?thesis by (simp add: empty_slot_def)
qed

section \<open>The move search depends on the iteration order\<close>

definition two_logs :: "integrityState slot" where
  "two_logs = \<lparr>dest = Content \<lparr>StateID = ''s'', ScanSequence = 1, LastSnapshotHash = [], Files =
     [(''sessions/a.jsonl'', new_checkpoint ''A'' ''sessions/a.jsonl'' 0 (sha256_hex sample_crypto []) False (Time 0)),
      (''sessions/b.jsonl'', new_checkpoint ''B'' ''sessions/b.jsonl'' 1 (sha256_hex sample_crypto ''x'') False (Time 0))]\<rparr>,
     temp = Absent\<rparr>"

definition b_archived :: node where
  "b_archived = sample_home [(''a.jsonl'', [])] [(''b.jsonl'', ''x'')]"

definition reversed :: iteration where
  "reversed = \<lparr>move_order = (\<lambda>_ xs. rev xs), delete_order = (\<lambda>xs. xs), meta_order = (\<lambda>xs. xs)\<rparr>"

lemma reversed_iterates: "iterates reversed"
  by (simp add: iterates_def reversed_def)

lemma b_archived_logs:
  "discoverLogs b_archived = Inr [(''sessions/a.jsonl'', File [] (Time 0), False),
     (''archived_sessions/b.jsonl'', File ''x'' (Time 0), True)]"
  by (simp add: discoverLogs_def discover_root_def b_archived_def sample_home_def stat_child_def is_dir_def
      log_visit_def scan_jsonl)

lemma b_archived_sorted:
  "sort_key fst [(''sessions/a.jsonl'', File [] (Time 0), False), (''archived_sessions/b.jsonl'', File ''x'' (Time 0), True)] =
     [(''archived_sessions/b.jsonl'', File ''x'' (Time 0), True), (''sessions/a.jsonl'', File [] (Time 0), False)]"
  by (simp add: sort_key_def)

lemmas scan_unfold = ScanIntegrity_def loadIntegrityState_def two_logs_def b_archived_logs b_archived_sorted
  scan_step_def unknown_step_def known_step_def compare_def stat_log_def hashPrefix_def start_scan_def
  moved_from_def moves_to_def prefix_or_empty_def new_checkpoint_def scan_result_def deletions_def
  snapshot_hash_total integrity_store.save_None

text \<open>
  Whether an archived log is recognised can depend on Go's random map iteration. With an empty
  active log beside it, a log that is archived unchanged is recognised under one order of the
  checkpoints, and reported as LOG_DELETED, with status TAMPER, under another: the empty log is a
  prefix of everything, so the search may take it as the origin.
\<close>

theorem move_order_matters:
  "iterates in_order \<and> iterates reversed \<and>
   (\<exists>p s. ScanIntegrity sample_crypto reversed sample_entropy None b_archived two_logs = (Inr p, s) \<and>
      Status p = ''OK'' \<and> Findings p = []) \<and>
   (\<exists>p s. ScanIntegrity sample_crypto in_order sample_entropy None b_archived two_logs = (Inr p, s) \<and>
      Status p = ''TAMPER'' \<and> Findings p = [finding ''LOG_DELETED'' ''B'' 1 None])"
proof -
  have hx: "sha256_hex sample_crypto ''x'' \<noteq> sha256_hex sample_crypto []"
    by (simp add: sha256_hex_def sample_crypto_def)
  have "\<exists>p s. ScanIntegrity sample_crypto reversed sample_entropy None b_archived two_logs = (Inr p, s) \<and>
      Status p = ''OK'' \<and> Findings p = []"
    using hx by (simp add: scan_unfold reversed_def Let_def)
  moreover have "\<exists>p s. ScanIntegrity sample_crypto in_order sample_entropy None b_archived two_logs = (Inr p, s) \<and>
      Status p = ''TAMPER'' \<and> Findings p = [finding ''LOG_DELETED'' ''B'' 1 None]"
    using hx by (simp add: scan_unfold in_order_def Let_def)
  ultimately show ?thesis using in_order_iterates reversed_iterates by blast
qed

end
