(* ===== verification/Otel.thy ===== *)
theory Otel
  imports Protocol AtomicFile
begin

text \<open>
  \<open>internal/agent/otel.go\<close>: the local OTLP collector. \<open>ingestOTLP\<close> folds the log records of a request
  into per-day token totals, with a set of record hashes against double counting; the HTTP handler
  guards it; \<open>OTelUsage\<close> reports the totals.

  A request body is the JSON value that \<open>json.Unmarshal\<close> makes of it, \<open>None\<close> when the text is not JSON.
  Go maps with contents are association lists with distinct keys.
\<close>

section \<open>Access to dynamic JSON values\<close>

text \<open>Indexing a \<open>map[string]any\<close> of a decoded object: the last of several equal keys is kept.\<close>

definition obj_get :: "json \<Rightarrow> string \<Rightarrow> json option" where
  "obj_get j k = (case j of JObj kvs \<Rightarrow> map_of (rev kvs) k | _ \<Rightarrow> None)"

text \<open>\<open>x, _ := m[k].([]any)\<close> and \<open>x, _ := m[k].(string)\<close>.\<close>

definition get_array :: "json \<Rightarrow> string \<Rightarrow> json list" where
  "get_array j k = (case obj_get j k of Some (JArr xs) \<Rightarrow> xs | _ \<Rightarrow> [])"

definition get_string :: "json \<Rightarrow> string \<Rightarrow> string" where
  "get_string j k = (case obj_get j k of Some (JStr s) \<Rightarrow> s | _ \<Rightarrow> [])"

definition get_any :: "json \<Rightarrow> string \<Rightarrow> json" where
  "get_any j k = (case obj_get j k of Some v \<Rightarrow> v | None \<Rightarrow> JNull)"

section \<open>Attributes and numbers\<close>

type_synonym attributes = "string \<rightharpoonup> json"

definition otelValue :: "json \<Rightarrow> json" where
  "otelValue value =
     (case List.find (\<lambda>k. obj_get value k \<noteq> None) [''stringValue'', ''intValue'', ''doubleValue'', ''boolValue''] of
        Some k \<Rightarrow> get_any value k | None \<Rightarrow> JNull)"

definition add_attribute :: "json \<Rightarrow> attributes \<Rightarrow> attributes" where
  "add_attribute raw out =
     (case raw of
        JObj _ \<Rightarrow>
          (let key = get_string raw ''key'';
               value = (case obj_get raw ''value'' of Some (JObj kvs) \<Rightarrow> JObj kvs | _ \<Rightarrow> JNull)
           in if key \<noteq> [] then out(key \<mapsto> otelValue value) else out)
      | _ \<Rightarrow> out)"

definition otelAttributes :: "json list \<Rightarrow> attributes" where
  "otelAttributes items = fold add_attribute items (\<lambda>_. None)"

text \<open>
  \<open>uint64(v)\<close> of a \<open>float64\<close> truncates; for values from \<open>2^64\<close> on the Go specification leaves the
  result to the implementation, so it is a parameter.
\<close>

definition asUint :: "(nat \<Rightarrow> uint64) \<Rightarrow> json \<Rightarrow> uint64" where
  "asUint big v =
     (case v of
        JStr s \<Rightarrow> of_nat (fst (ParseUint s))
      | JNum (IntNum i) \<Rightarrow>
          (if i > 0 then (let r = round53 (nat i) in if r < 18446744073709551616 then of_nat r else big r) else 0)
      | JNum (FracNum neg m k) \<Rightarrow> (if neg then 0 else of_nat (m div 10 ^ k))
      | _ \<Rightarrow> 0)"

definition field :: "(nat \<Rightarrow> uint64) \<Rightarrow> attributes \<Rightarrow> string list \<Rightarrow> uint64" where
  "field big attrs keys =
     (case List.find (\<lambda>k. attrs k \<noteq> None) keys of Some k \<Rightarrow> asUint big (the (attrs k)) | None \<Rightarrow> 0)"

section \<open>The store\<close>

record normalizedUsage =
  usage_Date :: string
  InputTokens :: uint64
  CachedInputTokens :: uint64
  OutputTokens :: uint64
  ReasoningOutputTokens :: uint64
  TotalTokens :: uint64

record otelStore =
  Days :: "(string \<times> normalizedUsage) list"
  Seen :: "(string \<times> int) list"

definition empty_store :: otelStore where
  "empty_store = \<lparr>Days = [], Seen = []\<rparr>"

text \<open>Every error of reading or parsing is ignored; what was decoded before it is kept.\<close>

definition loadOTelStore :: "otelStore slot \<Rightarrow> otelStore" where
  "loadOTelStore s =
     (case dest s of
        Content st \<Rightarrow> st
      | Malformed (Some st) \<Rightarrow> st
      | _ \<Rightarrow> empty_store)"

definition saveOTelStore ::
  "save_fault option \<Rightarrow> otelStore \<Rightarrow> otelStore slot \<Rightarrow> save_fault option \<times> otelStore slot" where
  "saveOTelStore fault st s = write_replace False fault st s"

interpretation otel_file: atomic_store saveOTelStore "\<lambda>st. st"
  by unfold_locales (auto simp: saveOTelStore_def write_replace_None dest: write_replace_error write_replace_ok)

section \<open>One record\<close>

text \<open>
  What ingestion uses of its surroundings: the hash, the \<open>%v\<close> text of values other than strings and
  nil, the float conversion, the offset of the configured time zone in seconds at an instant, and the
  readings of the clock.
\<close>

record collector =
  col_crypto :: crypto
  percent_v :: "json \<Rightarrow> string"
  big_uint :: "nat \<Rightarrow> uint64"
  zone_offset :: "go_time \<Rightarrow> int"
  clock_at :: "nat \<Rightarrow> go_time"

definition verb_v :: "collector \<Rightarrow> json \<Rightarrow> string" where
  "verb_v K v =
     (case v of JStr s \<Rightarrow> s | JNull \<Rightarrow> ''<nil>'' | JBool b \<Rightarrow> (if b then ''true'' else ''false'') | _ \<Rightarrow> percent_v K v)"

record tokens =
  tok_input :: uint64
  tok_cached :: uint64
  tok_output :: uint64
  tok_reasoning :: uint64
  tok_total :: uint64

definition record_tokens :: "collector \<Rightarrow> attributes \<Rightarrow> tokens" where
  "record_tokens K attrs =
     (let f = (\<lambda>k. field (big_uint K) attrs [k]);
          total = f ''tool_token_count''
      in \<lparr>tok_input = f ''input_token_count'', tok_cached = f ''cached_token_count'',
          tok_output = f ''output_token_count'', tok_reasoning = f ''reasoning_token_count'',
          tok_total = (if total = 0 then f ''input_token_count'' + f ''output_token_count'' else total)\<rparr>)"

definition completed :: "attributes \<Rightarrow> bool" where
  "completed attrs =
     (attrs ''event.name'' = Some (JStr ''codex.sse_event'') \<and>
      attrs ''event.kind'' = Some (JStr ''response.completed''))"

definition uint_text :: "uint64 \<Rightarrow> string" where
  "uint_text w = nat_dec (unat w)"

definition record_id :: "collector \<Rightarrow> string \<Rightarrow> json \<Rightarrow> json \<Rightarrow> tokens \<Rightarrow> string" where
  "record_id K nanos_text trace span t =
     sha256_hex (col_crypto K)
       (join_with ''|'' [nanos_text, verb_v K trace, verb_v K span, uint_text (tok_input t),
          uint_text (tok_cached t), uint_text (tok_output t), uint_text (tok_reasoning t)])"

definition occurred :: "string \<Rightarrow> go_time \<Rightarrow> go_time" where
  "occurred nanos_text now =
     (case ParseInt nanos_text of
        (n, None) \<Rightarrow> (if n > 0 then unix_time 0 n else now)
      | _ \<Rightarrow> now)"

definition local_day :: "collector \<Rightarrow> go_time \<Rightarrow> string" where
  "local_day K t = format_date (time_Add t (zone_offset K t * second))"

definition add_usage :: "string \<Rightarrow> tokens \<Rightarrow> (string \<times> normalizedUsage) list \<Rightarrow> (string \<times> normalizedUsage) list" where
  "add_usage day t days =
     (let v = (case map_of days day of Some v \<Rightarrow> v
               | None \<Rightarrow> \<lparr>usage_Date = [], InputTokens = 0, CachedInputTokens = 0, OutputTokens = 0,
                          ReasoningOutputTokens = 0, TotalTokens = 0\<rparr>)
      in AList.update day
           \<lparr>usage_Date = day, InputTokens = InputTokens v + tok_input t,
            CachedInputTokens = CachedInputTokens v + tok_cached t, OutputTokens = OutputTokens v + tok_output t,
            ReasoningOutputTokens = ReasoningOutputTokens v + tok_reasoning t,
            TotalTokens = TotalTokens v + tok_total t\<rparr> days)"

definition ingest_record :: "collector \<Rightarrow> json \<Rightarrow> otelStore \<times> nat \<Rightarrow> otelStore \<times> nat" where
  "ingest_record K raw sc =
     (case sc of (store, created) \<Rightarrow>
        let attrs = otelAttributes (get_array raw ''attributes'') in
        if \<not> completed attrs then sc
        else
          let t = record_tokens K attrs in
          if tok_total t = 0 then sc
          else
            let nanos_text = get_string raw ''timeUnixNano'';
                i = record_id K nanos_text (get_any raw ''traceId'') (get_any raw ''spanId'') t
            in if map_of (Seen store) i \<noteq> None then sc
               else
                 let day = local_day K (occurred nanos_text (clock_at K (2 * created + 1)))
                 in (store\<lparr>Days := add_usage day t (Days store),
                           Seen := AList.update i (time_Unix (clock_at K (2 * created + 2))) (Seen store)\<rparr>,
                     created + 1))"

section \<open>A request\<close>

definition request_records :: "json \<Rightarrow> json list" where
  "request_records body =
     concat (map (\<lambda>resource. concat (map (\<lambda>scope. get_array scope ''logRecords'') (get_array resource ''scopeLogs'')))
       (get_array body ''resourceLogs''))"

text \<open>
  \<open>AddDate(0, 0, -days)\<close> goes back that many days of 24 hours: the machine's own zone is taken to
  have no clock change in between.
\<close>

definition seen_cutoff :: "go_time \<Rightarrow> int \<Rightarrow> int" where
  "seen_cutoff now retentionDays = time_Unix now - retentionDays * 86400"

definition prune_seen :: "int \<Rightarrow> otelStore \<Rightarrow> otelStore" where
  "prune_seen cutoff store = store\<lparr>Seen := filter (\<lambda>(_, seen). \<not> seen < cutoff) (Seen store)\<rparr>"

definition ingest_records :: "collector \<Rightarrow> int \<Rightarrow> json list \<Rightarrow> otelStore \<Rightarrow> otelStore \<times> nat" where
  "ingest_records K retentionDays recs store =
     fold (ingest_record K) recs (prune_seen (seen_cutoff (clock_at K 0) retentionDays) store, 0)"

datatype otel_err = BodyNotJSON | BodyNotObject | BadTimezone | OTelSave save_fault

text \<open>\<open>K\<close> is \<open>None\<close> when \<open>time.LoadLocation\<close> rejects the configured time zone.\<close>

definition ingestOTLP ::
  "collector option \<Rightarrow> int \<Rightarrow> save_fault option \<Rightarrow> json option \<Rightarrow> otelStore slot \<Rightarrow>
     (nat \<times> otel_err option) \<times> otelStore slot" where
  "ingestOTLP K retentionDays fault data s =
     (case data of
        None \<Rightarrow> ((0, Some BodyNotJSON), s)
      | Some body \<Rightarrow>
          if \<not> (case body of JObj _ \<Rightarrow> True | JNull \<Rightarrow> True | _ \<Rightarrow> False) then ((0, Some BodyNotObject), s)
          else (case K of
                  None \<Rightarrow> ((0, Some BadTimezone), s)
                | Some k \<Rightarrow>
                    (case ingest_records k retentionDays (request_records body) (loadOTelStore s) of
                       (store, created) \<Rightarrow>
                         (case saveOTelStore fault store s of
                            (e, s') \<Rightarrow> ((created, map_option OTelSave e), s')))))"

record http_request =
  Method :: string
  Authorization :: string
  BodyLength :: nat
  BodyReadError :: bool
  Body :: "json option"

text \<open>The handler of \<open>/v1/logs\<close>: the status code it answers with.\<close>

definition logs_handler ::
  "collector option \<Rightarrow> string \<Rightarrow> int \<Rightarrow> save_fault option \<Rightarrow> http_request \<Rightarrow> otelStore slot \<Rightarrow>
     nat \<times> otelStore slot" where
  "logs_handler K token retentionDays fault r s =
     (if Method r \<noteq> ''POST'' then (405, s)
      else if Authorization r \<noteq> ''Bearer '' @ token then (401, s)
      else if BodyReadError r \<or> BodyLength r > 1048576 then (413, s)
      else (case ingestOTLP K retentionDays fault (Body r) s of
              ((_, Some _), s') \<Rightarrow> (400, s')
            | ((_, None), s') \<Rightarrow> (200, s')))"

section \<open>The report\<close>

definition usage_json :: "normalizedUsage \<Rightarrow> json" where
  "usage_json u =
     JObj [(''date'', JStr (usage_Date u)), (''input_tokens'', JNum (IntNum (uint (InputTokens u)))),
           (''cached_input_tokens'', JNum (IntNum (uint (CachedInputTokens u)))),
           (''output_tokens'', JNum (IntNum (uint (OutputTokens u)))),
           (''reasoning_output_tokens'', JNum (IntNum (uint (ReasoningOutputTokens u)))),
           (''total_tokens'', JNum (IntNum (uint (TotalTokens u))))]"

text \<open>The payload of \<open>OTelUsage\<close>, in the iteration order \<open>order\<close> of the map; none when there are no days.\<close>

definition otel_payload ::
  "((string \<times> normalizedUsage) list \<Rightarrow> (string \<times> normalizedUsage) list) \<Rightarrow> otelStore slot \<Rightarrow> json option" where
  "otel_payload order s =
     (let days = Days (loadOTelStore s)
      in if days = [] then None
         else Some (JObj [(''source'', JStr ''otel''), (''days'', JArr (map (\<lambda>(_, u). usage_json u) (order days)))]))"

section \<open>What a record contributes\<close>

text \<open>The hash, the time text and the token counts of a record that counts; the store and clock play no part.\<close>

definition countable :: "collector \<Rightarrow> json \<Rightarrow> (string \<times> string \<times> tokens) option" where
  "countable K raw =
     (let attrs = otelAttributes (get_array raw ''attributes''); t = record_tokens K attrs;
          n = get_string raw ''timeUnixNano''
      in if completed attrs \<and> tok_total t \<noteq> 0
         then Some (record_id K n (get_any raw ''traceId'') (get_any raw ''spanId'') t, n, t) else None)"

lemma ingest_record_countable:
  "ingest_record K raw (store, created) =
     (case countable K raw of
        None \<Rightarrow> (store, created)
      | Some (i, n, t) \<Rightarrow>
          if i \<in> fst ` set (Seen store) then (store, created)
          else (store\<lparr>Days := add_usage (local_day K (occurred n (clock_at K (2 * created + 1)))) t (Days store),
                      Seen := AList.update i (time_Unix (clock_at K (2 * created + 2))) (Seen store)\<rparr>,
                created + 1))"
proof -
  have "map_of (Seen store) i \<noteq> None \<longleftrightarrow> i \<in> fst ` set (Seen store)" for i
    by (simp add: map_of_eq_None_iff)
  then show ?thesis by (auto simp: ingest_record_def countable_def Let_def)
qed

text \<open>The records a request adds: those whose hash is neither known nor repeated.\<close>

fun accepted :: "collector \<Rightarrow> string set \<Rightarrow> json list \<Rightarrow> (string \<times> string \<times> tokens) list" where
  "accepted K seen [] = []"
| "accepted K seen (r # rs) =
     (case countable K r of
        None \<Rightarrow> accepted K seen rs
      | Some (i, n, t) \<Rightarrow>
          if i \<in> seen then accepted K seen rs else (i, n, t) # accepted K (insert i seen) rs)"

abbreviation seen_ids :: "otelStore \<Rightarrow> string set" where
  "seen_ids st \<equiv> fst ` set (Seen st)"

definition day_sum :: "(normalizedUsage \<Rightarrow> uint64) \<Rightarrow> (string \<times> normalizedUsage) list \<Rightarrow> uint64" where
  "day_sum f days = sum_list (map (\<lambda>(_, u). f u) days)"

lemma day_sum_update:
  assumes "distinct (map fst days)"
  shows "day_sum f (AList.update k v days) =
    day_sum f days - (case map_of days k of Some w \<Rightarrow> f w | None \<Rightarrow> 0) + f v"
proof -
  have n: "k \<notin> fst ` set xs \<Longrightarrow> map_of xs k = None" for xs :: "(string \<times> normalizedUsage) list"
    by (metis map_of_eq_None_iff)
  show ?thesis using assms by (induction days) (auto simp: day_sum_def n algebra_simps)
qed

lemma add_usage_distinct: "distinct (map fst days) \<Longrightarrow> distinct (map fst (add_usage day t days))"
  by (simp add: add_usage_def Let_def distinct_update)

lemma add_usage_keys: "fst ` set (add_usage day t days) = insert day (fst ` set days)"
  by (auto simp: add_usage_def Let_def dom_update)

lemma add_usage_sums:
  assumes "distinct (map fst days)"
  shows "day_sum InputTokens (add_usage day t days) = day_sum InputTokens days + tok_input t"
    and "day_sum OutputTokens (add_usage day t days) = day_sum OutputTokens days + tok_output t"
    and "day_sum TotalTokens (add_usage day t days) = day_sum TotalTokens days + tok_total t"
  using assms by (auto simp: add_usage_def Let_def day_sum_update split: option.splits)

definition tok_sum :: "(tokens \<Rightarrow> uint64) \<Rightarrow> (string \<times> string \<times> tokens) list \<Rightarrow> uint64" where
  "tok_sum f acc = sum_list (map (\<lambda>(_, _, t). f t) acc)"

lemma fold_ingest:
  assumes "fold (ingest_record K) recs (store, c) = (store', c')" and "distinct (map fst (Days store))"
  shows "c' = c + length (accepted K (seen_ids store) recs) \<and>
    seen_ids store' = seen_ids store \<union> fst ` set (accepted K (seen_ids store) recs) \<and>
    distinct (map fst (Days store')) \<and> fst ` set (Days store) \<subseteq> fst ` set (Days store') \<and>
    day_sum InputTokens (Days store') = day_sum InputTokens (Days store) + tok_sum tok_input (accepted K (seen_ids store) recs) \<and>
    day_sum OutputTokens (Days store') = day_sum OutputTokens (Days store) + tok_sum tok_output (accepted K (seen_ids store) recs) \<and>
    day_sum TotalTokens (Days store') = day_sum TotalTokens (Days store) + tok_sum tok_total (accepted K (seen_ids store) recs)"
  using assms
proof (induction recs arbitrary: store c)
  case Nil
  then show ?case by (simp add: tok_sum_def)
next
  case (Cons r rs)
  show ?case
  proof (cases "countable K r")
    case None
    with Cons show ?thesis by (simp add: ingest_record_countable)
  next
    case (Some x)
    obtain i n t where x: "x = (i, n, t)" by (cases x)
    show ?thesis
    proof (cases "i \<in> seen_ids store")
      case True
      with Some x Cons show ?thesis by (simp add: ingest_record_countable)
    next
      case False
      let ?st = "store\<lparr>Days := add_usage (local_day K (occurred n (clock_at K (2 * c + 1)))) t (Days store),
                      Seen := AList.update i (time_Unix (clock_at K (2 * c + 2))) (Seen store)\<rparr>"
      have "ingest_record K r (store, c) = (?st, c + 1)"
        using Some x False by (simp add: ingest_record_countable)
      then have f: "fold (ingest_record K) rs (?st, c + 1) = (store', c')" using Cons.prems(1) by simp
      have s: "seen_ids ?st = insert i (seen_ids store)" by (simp add: dom_update)
      have d: "distinct (map fst (Days ?st))" using Cons.prems(2) by (simp add: add_usage_distinct)
      from Cons.IH[OF f d, unfolded s] Some x False Cons.prems(2) show ?thesis
        by (simp add: add_usage_sums add_usage_keys tok_sum_def add.assoc)
    qed
  qed
qed

text \<open>
  The same per day: the days the accepted records are credited to, with their counts, when \<open>c\<close> records
  were accepted before them (a record without a usable time falls on the day of the clock reading taken
  for it), and the value of one counter on one day.
\<close>

fun credits :: "collector \<Rightarrow> nat \<Rightarrow> (string \<times> string \<times> tokens) list \<Rightarrow> (string \<times> tokens) list" where
  "credits K c [] = []"
| "credits K c ((_, n, t) # acc) = (local_day K (occurred n (clock_at K (2 * c + 1))), t) # credits K (c + 1) acc"

lemma occurred_alt:
  "occurred n now = (if snd (ParseInt n) = None \<and> 0 < fst (ParseInt n) then unix_time 0 (fst (ParseInt n)) else now)"
  by (simp add: occurred_def split: prod.splits option.splits)

definition day_value :: "(normalizedUsage \<Rightarrow> uint64) \<Rightarrow> string \<Rightarrow> (string \<times> normalizedUsage) list \<Rightarrow> uint64" where
  "day_value F d days = (case map_of days d of Some u \<Rightarrow> F u | None \<Rightarrow> 0)"

definition day_tokens :: "(tokens \<Rightarrow> uint64) \<Rightarrow> string \<Rightarrow> (string \<times> tokens) list \<Rightarrow> uint64" where
  "day_tokens g d cs = sum_list (map (\<lambda>(d', t). if d' = d then g t else 0) cs)"

lemma day_tokens_simps [simp]:
  "day_tokens g d [] = 0"
  "day_tokens g d ((d', t) # cs) = (if d' = d then g t else 0) + day_tokens g d cs"
  by (simp_all add: day_tokens_def)

text \<open>The counters of a day, each with the count of a record it adds up.\<close>

definition counters :: "((normalizedUsage \<Rightarrow> uint64) \<times> (tokens \<Rightarrow> uint64)) list" where
  "counters = [(InputTokens, tok_input), (CachedInputTokens, tok_cached), (OutputTokens, tok_output),
     (ReasoningOutputTokens, tok_reasoning), (TotalTokens, tok_total)]"

lemma add_usage_value:
  assumes "(F, g) \<in> set counters"
  shows "day_value F d (add_usage d' t days) = day_value F d days + (if d' = d then g t else 0)"
proof -
  have "F = InputTokens \<and> g = tok_input \<or> F = CachedInputTokens \<and> g = tok_cached \<or>
      F = OutputTokens \<and> g = tok_output \<or> F = ReasoningOutputTokens \<and> g = tok_reasoning \<or>
      F = TotalTokens \<and> g = tok_total"
    using assms by (simp add: counters_def)
  then show ?thesis
    by (elim disjE) (auto simp: day_value_def add_usage_def Let_def update_conv' split: option.splits)
qed

lemma add_usage_lookup:
  "\<exists>u. usage_Date u = d' \<and> map_of (add_usage d' t days) = (map_of days)(d' \<mapsto> u)"
proof -
  have "\<exists>u. usage_Date u = d' \<and> map_of (AList.update d' v days) = (map_of days)(d' \<mapsto> u)" if "usage_Date v = d'" for v
    using that by (auto simp: update_conv')
  then show ?thesis by (simp add: add_usage_def Let_def)
qed

text \<open>A day whose entry carries its own date keeps it; a credited day gets it.\<close>

definition dated :: "(string \<times> normalizedUsage) list \<Rightarrow> string \<Rightarrow> bool" where
  "dated days d = (case map_of days d of Some u \<Rightarrow> usage_Date u = d | None \<Rightarrow> False)"

lemma add_usage_dates: "dated (add_usage d' t days) d \<longleftrightarrow> d = d' \<or> dated days d"
proof -
  obtain u where u: "usage_Date u = d'" "map_of (add_usage d' t days) = (map_of days)(d' \<mapsto> u)"
    using add_usage_lookup by blast
  show ?thesis unfolding dated_def u(2) by (cases "d = d'") (simp_all add: u(1))
qed

lemma fold_credits:
  assumes "fold (ingest_record K) recs (store, c) = (store', c')"
  shows "(\<forall>(F, g) \<in> set counters. \<forall>d. day_value F d (Days store') =
      day_value F d (Days store) + day_tokens g d (credits K c (accepted K (seen_ids store) recs))) \<and>
    fst ` set (Days store') = fst ` set (Days store) \<union> fst ` set (credits K c (accepted K (seen_ids store) recs)) \<and>
    (\<forall>d. dated (Days store') d \<longleftrightarrow>
       dated (Days store) d \<or> d \<in> fst ` set (credits K c (accepted K (seen_ids store) recs)))"
  using assms
proof (induction recs arbitrary: store c)
  case Nil
  then show ?case by simp
next
  case (Cons r rs)
  show ?case
  proof (cases "countable K r")
    case None
    with Cons show ?thesis by (simp add: ingest_record_countable)
  next
    case (Some x)
    obtain i n t where x: "x = (i, n, t)" by (cases x)
    show ?thesis
    proof (cases "i \<in> seen_ids store")
      case True
      with Some x Cons show ?thesis by (simp add: ingest_record_countable)
    next
      case False
      let ?d = "local_day K (occurred n (clock_at K (2 * c + 1)))"
      let ?st = "store\<lparr>Days := add_usage ?d t (Days store),
                      Seen := AList.update i (time_Unix (clock_at K (2 * c + 2))) (Seen store)\<rparr>"
      have "ingest_record K r (store, c) = (?st, c + 1)"
        using Some x False by (simp add: ingest_record_countable)
      then have f: "fold (ingest_record K) rs (?st, c + 1) = (store', c')" using Cons.prems by simp
      have s: "seen_ids ?st = insert i (seen_ids store)" by (simp add: dom_update)
      have acc: "accepted K (seen_ids store) (r # rs) = (i, n, t) # accepted K (insert i (seen_ids store)) rs"
        using Some x False by simp
      from Cons.IH[OF f, unfolded s] show ?thesis
        unfolding acc
        by (auto simp: add_usage_value add_usage_keys add_usage_dates algebra_simps occurred_alt[symmetric])
    qed
  qed
qed

text \<open>The accepted records: each hash once, exactly the ones the request has and the store does not know.\<close>

lemma accepted_hashes:
  "distinct (map fst (accepted K seen recs)) \<and>
   fst ` set (accepted K seen recs) = {i. \<exists>r \<in> set recs. \<exists>n t. countable K r = Some (i, n, t)} - seen"
proof (induction recs arbitrary: seen)
  case (Cons r rs)
  show ?case
  proof (cases "countable K r")
    case None
    with Cons show ?thesis by simp
  next
    case (Some x)
    obtain i n t where "x = (i, n, t)" by (cases x)
    with Some have x: "countable K r = Some (i, n, t)" by simp
    show ?thesis
    proof (cases "i \<in> seen")
      case True
      with Cons[of seen] x show ?thesis by auto
    next
      case False
      with Cons[of "insert i seen"] x show ?thesis by auto
    qed
  qed
qed simp

text \<open>What an accepted record is: the fields of its log record, read one by one.\<close>

definition credited_record :: "collector \<Rightarrow> json \<Rightarrow> string \<Rightarrow> string \<Rightarrow> tokens \<Rightarrow> bool" where
  "credited_record K r i n t =
     (let a = otelAttributes (get_array r ''attributes'');
          token_count = (\<lambda>k. case a k of Some v \<Rightarrow> asUint (big_uint K) v | None \<Rightarrow> 0)
      in a ''event.name'' = Some (JStr ''codex.sse_event'') \<and> a ''event.kind'' = Some (JStr ''response.completed'') \<and>
         n = get_string r ''timeUnixNano'' \<and> i = record_id K n (get_any r ''traceId'') (get_any r ''spanId'') t \<and>
         tok_input t = token_count ''input_token_count'' \<and> tok_cached t = token_count ''cached_token_count'' \<and>
         tok_output t = token_count ''output_token_count'' \<and>
         tok_reasoning t = token_count ''reasoning_token_count'' \<and>
         tok_total t = (if token_count ''tool_token_count'' \<noteq> 0 then token_count ''tool_token_count''
                        else tok_input t + tok_output t) \<and>
         tok_total t \<noteq> 0)"

lemma countable_iff: "countable K r = Some (i, n, t) \<longleftrightarrow> credited_record K r i n t"
proof -
  have f: "field big a [k] = (case a k of Some v \<Rightarrow> asUint big v | None \<Rightarrow> 0)" for big a k
    by (simp add: field_def split: option.splits)
  show ?thesis
    by (cases t) (auto simp: countable_def credited_record_def completed_def record_tokens_def f Let_def)
qed

lemma accepted_countable:
  "(i, n, t) \<in> set (accepted K seen recs) \<Longrightarrow> \<exists>r \<in> set recs. countable K r = Some (i, n, t)"
  by (induction recs arbitrary: seen) (auto split: option.splits if_splits)

lemma accepted_none:
  assumes "fst ` set (accepted K seen recs) \<subseteq> seen'" and "seen \<subseteq> seen'"
  shows "accepted K seen' recs = []"
  using assms
proof (induction recs arbitrary: seen)
  case Nil
  then show ?case by simp
next
  case (Cons r rs)
  show ?case
  proof (cases "countable K r")
    case None
    with Cons show ?thesis by simp
  next
    case (Some x)
    obtain i n t where x: "x = (i, n, t)" by (cases x)
    show ?thesis
    proof (cases "i \<in> seen")
      case True
      with Cons Some x show ?thesis by auto
    next
      case False
      with Cons.prems Some x have "i \<in> seen'" "fst ` set (accepted K (insert i seen) rs) \<subseteq> seen'" by auto
      with Cons.IH[OF this(2)] Cons.prems(2) Some x show ?thesis by simp
    qed
  qed
qed

lemma fold_ingest_none:
  assumes "accepted K (seen_ids store) recs = []"
  shows "fold (ingest_record K) recs (store, c) = (store, c)"
  using assms
  by (induction recs) (auto simp: ingest_record_countable split: option.splits if_splits)

lemma countable_clock: "countable (K\<lparr>clock_at := cl\<rparr>) r = countable K r"
  by (simp add: countable_def record_id_def record_tokens_def verb_v_def Let_def cong: json.case_cong)

lemma accepted_clock: "accepted (K\<lparr>clock_at := cl\<rparr>) seen recs = accepted K seen recs"
  by (induction recs arbitrary: seen) (auto simp: countable_clock split: option.splits)

lemma ingestOTLP_ok:
  assumes "ingestOTLP (Some K) days fault (Some body) s = ((created, None), s')"
  obtains store where "ingest_records K days (request_records body) (loadOTelStore s) = (store, created)"
    "dest s' = Content store"
  using assms
  by (auto simp: ingestOTLP_def split: if_splits prod.splits dest: otel_file.save_ok)

lemma ingestOTLP_error: "ingestOTLP K days fault data s = ((c, Some e), s') \<Longrightarrow> dest s' = dest s"
  by (auto simp: ingestOTLP_def split: option.splits if_splits prod.splits dest: otel_file.save_error)

lemma prune_Days [simp]: "Days (prune_seen c st) = Days st"
  by (simp add: prune_seen_def)

section \<open>Properties\<close>

text \<open>The record hashes that a request at this time still knows.\<close>

definition known_ids :: "collector \<Rightarrow> int \<Rightarrow> otelStore slot \<Rightarrow> string set" where
  "known_ids K days s = seen_ids (prune_seen (seen_cutoff (clock_at K 0) days) (loadOTelStore s))"

text \<open>
  C15: a successful ingestion accounts for every new record exactly once and on the right day. The new
  records are those of the request that are completed responses with a count, one for each hash that
  is neither stored nor repeated in the request; each has the counts of the attributes named after
  them (\<open>credited_record\<close>). Each is credited to the local day of its time. On every day each of the
  five counters grows, modulo \<open>2^64\<close>, by exactly the sum of that count over the records credited to
  that day; the stored days are the old ones and the credited ones, each of the latter under its own
  date, and the returned number is the number of new records.
\<close>

theorem ingest_accounts:
  assumes "distinct (map fst (Days (loadOTelStore s)))"
    and "ingestOTLP (Some K) days fault (Some body) s = ((created, None), s')"
    and "new = accepted K (known_ids K days s) (request_records body)"
  shows "created = length new \<and> distinct (map fst new) \<and>
    fst ` set new = {i. \<exists>r \<in> set (request_records body). \<exists>n t. credited_record K r i n t} - known_ids K days s \<and>
    (\<forall>(i, n, t) \<in> set new. \<exists>r \<in> set (request_records body). credited_record K r i n t) \<and>
    (\<exists>st. dest s' = Content st \<and> distinct (map fst (Days st)) \<and>
      (\<forall>(F, g) \<in> set [(InputTokens, tok_input), (CachedInputTokens, tok_cached), (OutputTokens, tok_output),
          (ReasoningOutputTokens, tok_reasoning), (TotalTokens, tok_total)].
         \<forall>d. day_value F d (Days st) = day_value F d (Days (loadOTelStore s)) + day_tokens g d (credits K 0 new)) \<and>
      fst ` set (Days st) = fst ` set (Days (loadOTelStore s)) \<union> fst ` set (credits K 0 new) \<and>
      (\<forall>d \<in> fst ` set (credits K 0 new). dated (Days st) d))"
proof (rule ingestOTLP_ok[OF assms(2)])
  fix store
  assume i: "ingest_records K days (request_records body) (loadOTelStore s) = (store, created)"
    and d: "dest s' = Content store"
  from fold_ingest[OF i[unfolded ingest_records_def]] assms(1,3)
  have n: "created = length new" "distinct (map fst (Days store))" by (simp_all add: known_ids_def)
  from fold_credits[OF i[unfolded ingest_records_def]] assms(3)
  have c: "\<forall>(F, g) \<in> set counters.
      \<forall>d. day_value F d (Days store) = day_value F d (Days (loadOTelStore s)) + day_tokens g d (credits K 0 new)"
    "fst ` set (Days store) = fst ` set (Days (loadOTelStore s)) \<union> fst ` set (credits K 0 new)"
    "\<forall>d \<in> fst ` set (credits K 0 new). dated (Days store) d"
    by (simp_all add: known_ids_def)
  have "distinct (map fst new)"
    "fst ` set new = {i. \<exists>r \<in> set (request_records body). \<exists>n t. credited_record K r i n t} - known_ids K days s"
    using accepted_hashes[of K "known_ids K days s" "request_records body"] unfolding assms(3) countable_iff by blast+
  moreover have "\<forall>(i, n, t) \<in> set new. \<exists>r \<in> set (request_records body). credited_record K r i n t"
    using accepted_countable unfolding assms(3) countable_iff by fast
  ultimately show ?thesis using n d c(2,3) c(1)[unfolded counters_def] by blast
qed

definition sample_collector :: "int \<Rightarrow> collector" where
  "sample_collector t = \<lparr>col_crypto = \<lparr>sha256 = (\<lambda>b. b), ed25519_sign = (\<lambda>_ _. [])\<rparr>, percent_v = (\<lambda>_. []),
     big_uint = (\<lambda>_. 0), zone_offset = (\<lambda>_. 0), clock_at = (\<lambda>_. Time t)\<rparr>"

definition attr :: "string \<Rightarrow> string \<Rightarrow> json" where
  "attr k v = JObj [(''key'', JStr k), (''value'', JObj [(''stringValue'', JStr v)])]"

definition sample_record :: "json list \<Rightarrow> json" where
  "sample_record extra = JObj [(''attributes'', JArr ([attr ''event.name'' ''codex.sse_event'',
     attr ''event.kind'' ''response.completed'', attr ''input_token_count'' ''3'',
     attr ''output_token_count'' ''4''] @ extra))]"

definition sample_body :: "json list \<Rightarrow> json" where
  "sample_body extra = JObj [(''resourceLogs'', JArr [JObj [(''scopeLogs'', JArr [JObj [(''logRecords'',
     JArr [sample_record extra])]])]])]"

lemma sample_records: "request_records (sample_body extra) = [sample_record extra]"
  by (simp add: request_records_def sample_body_def get_array_def obj_get_def)

lemma sample_countable: "\<exists>i. countable (sample_collector t) (sample_record []) =
    Some (i, [], \<lparr>tok_input = 3, tok_cached = 0, tok_output = 4, tok_reasoning = 0, tok_total = 7\<rparr>)"
  by (simp add: countable_def sample_record_def attr_def get_array_def get_string_def obj_get_def
      otelAttributes_def add_attribute_def otelValue_def get_any_def completed_def record_tokens_def field_def
      asUint_def ParseUint_def is_digit_def digit_val_def Let_def)

lemma sample_ingest:
  "\<exists>c s'. ingestOTLP (Some (sample_collector t)) days None (Some (sample_body extra)) s = ((c, None), s')"
  by (simp add: ingestOTLP_def sample_body_def otel_file.save_None split: prod.splits)

theorem ingest_accounts_witness:
  "\<exists>s' st. ingestOTLP (Some (sample_collector 0)) 30 None (Some (sample_body [])) empty_slot = ((1, None), s') \<and>
     dest s' = Content st \<and> day_value InputTokens (local_day (sample_collector 0) (Time 0)) (Days st) = 3 \<and>
     day_value CachedInputTokens (local_day (sample_collector 0) (Time 0)) (Days st) = 0 \<and>
     day_value TotalTokens (local_day (sample_collector 0) (Time 0)) (Days st) = 7"
proof -
  obtain c s' where i: "ingestOTLP (Some (sample_collector 0)) 30 None (Some (sample_body [])) empty_slot = ((c, None), s')"
    using sample_ingest by blast
  have e: "loadOTelStore empty_slot = empty_store" by (simp add: loadOTelStore_def empty_slot_def)
  obtain h where "countable (sample_collector 0) (sample_record []) =
    Some (h, [], \<lparr>tok_input = 3, tok_cached = 0, tok_output = 4, tok_reasoning = 0, tok_total = 7\<rparr>)"
    using sample_countable by blast
  then have acc: "accepted (sample_collector 0) (known_ids (sample_collector 0) 30 empty_slot) (request_records (sample_body [])) =
    [(h, [], \<lparr>tok_input = 3, tok_cached = 0, tok_output = 4, tok_reasoning = 0, tok_total = 7\<rparr>)]"
    by (simp add: sample_records known_ids_def prune_seen_def e empty_store_def)
  have o: "occurred [] (clock_at (sample_collector 0) 1) = Time 0"
    by (simp add: occurred_def sample_collector_def ParseInt_def)
  then have cr: "credits (sample_collector 0) 0 [(h, [], t)] = [(local_day (sample_collector 0) (Time 0), t)]" for t
    by (simp add: occurred_alt[symmetric])
  have d0: "distinct (map fst (Days (loadOTelStore empty_slot)))" by (simp add: e empty_store_def)
  from ingest_accounts[OF d0 i acc[symmetric]] obtain st where "c = 1" "dest s' = Content st"
    "\<forall>(F, g) \<in> set [(InputTokens, tok_input), (CachedInputTokens, tok_cached), (OutputTokens, tok_output),
          (ReasoningOutputTokens, tok_reasoning), (TotalTokens, tok_total)].
       \<forall>d. day_value F d (Days st) = day_value F d [] + day_tokens g d
         [(local_day (sample_collector 0) (Time 0),
           \<lparr>tok_input = 3, tok_cached = 0, tok_output = 4, tok_reasoning = 0, tok_total = 7\<rparr>)]"
    unfolding cr by (auto simp: e empty_store_def)
  with i show ?thesis by (auto simp: day_value_def)
qed

text \<open>
  C14: ingestion is idempotent. Sending the same request again, at any later time at which none of the
  stored record hashes has passed the retention period, creates nothing and leaves the stored totals
  and hashes as they are.
\<close>

theorem ingest_idempotent:
  assumes "distinct (map fst (Days (loadOTelStore s)))"
    and "ingestOTLP (Some K) days f1 (Some body) s = ((created, None), s1)" and "dest s1 = Content st1"
    and "\<forall>(i, t) \<in> set (Seen st1). seen_cutoff (cl 0) days \<le> t"
  shows "\<exists>s2. ingestOTLP (Some (K\<lparr>clock_at := cl\<rparr>)) days None (Some body) s1 = ((0, None), s2) \<and>
    dest s2 = Content st1"
proof -
  let ?recs = "request_records body"
  have i: "ingest_records K days ?recs (loadOTelStore s) = (st1, created)"
    by (rule ingestOTLP_ok[OF assms(2)]) (use assms(3) in simp)
  from fold_ingest[OF i[unfolded ingest_records_def]] assms(1)
  have "seen_ids st1 = known_ids K days s \<union> fst ` set (accepted K (known_ids K days s) ?recs)"
    by (simp add: known_ids_def)
  then have none: "accepted K (seen_ids st1) ?recs = []" by (intro accepted_none[of K "known_ids K days s"]) auto
  have p: "prune_seen (seen_cutoff (cl 0) days) st1 = st1"
    using assms(4) by (fastforce simp: prune_seen_def intro!: otelStore.equality filter_True)
  have l: "loadOTelStore s1 = st1" using assms(3) by (simp add: loadOTelStore_def)
  have "fold (ingest_record (K\<lparr>clock_at := cl\<rparr>)) ?recs (st1, 0) = (st1, 0)"
    by (rule fold_ingest_none) (simp add: accepted_clock none)
  then show ?thesis
    using assms(2) by (auto simp: ingestOTLP_def ingest_records_def l p otel_file.save_None split: if_splits)
qed

theorem ingest_idempotent_witness:
  "\<exists>c s1 s2. ingestOTLP (Some (sample_collector 0)) 30 None (Some (sample_body [])) empty_slot = ((c, None), s1) \<and>
     ingestOTLP (Some ((sample_collector 0)\<lparr>clock_at := (\<lambda>_. Time 5)\<rparr>)) 30 None (Some (sample_body [])) s1 = ((0, None), s2)"
proof -
  obtain c s1 where i: "ingestOTLP (Some (sample_collector 0)) 30 None (Some (sample_body [])) empty_slot = ((c, None), s1)"
    using sample_ingest by blast
  have e: "loadOTelStore empty_slot = empty_store" by (simp add: loadOTelStore_def empty_slot_def)
  obtain h where h: "countable (sample_collector 0) (sample_record []) =
    Some (h, [], \<lparr>tok_input = 3, tok_cached = 0, tok_output = 4, tok_reasoning = 0, tok_total = 7\<rparr>)"
    using sample_countable by blast
  obtain st1 where st1: "dest s1 = Content st1" "Seen st1 = [(h, time_Unix (Time 0))]"
    by (rule ingestOTLP_ok[OF i])
      (use h in \<open>auto simp: ingest_records_def sample_records ingest_record_countable e empty_store_def
        prune_seen_def sample_collector_def\<close>)
  have "\<exists>s2. ingestOTLP (Some ((sample_collector 0)\<lparr>clock_at := (\<lambda>_. Time 5)\<rparr>)) 30 None (Some (sample_body [])) s1 =
      ((0, None), s2) \<and> dest s2 = Content st1"
    by (rule ingest_idempotent[OF _ i st1(1)])
      (use st1(2) in \<open>simp_all add: e empty_store_def seen_cutoff_def time_Unix_def\<close>)
  with i show ?thesis by blast
qed


text \<open>What ingestion reads of a log record.\<close>

definition metered :: "string list" where
  "metered = [''event.name'', ''event.kind'', ''input_token_count'', ''cached_token_count'',
     ''output_token_count'', ''reasoning_token_count'', ''tool_token_count'']"

definition relevant :: "json \<Rightarrow> json option list \<times> string \<times> json \<times> json" where
  "relevant raw =
     (map (otelAttributes (get_array raw ''attributes'')) metered, get_string raw ''timeUnixNano'',
      get_any raw ''traceId'', get_any raw ''spanId'')"

lemma countable_relevant: "relevant r = relevant r' \<Longrightarrow> countable K r = countable K r'"
  by (simp add: relevant_def metered_def countable_def completed_def record_tokens_def field_def Let_def)

lemma ingest_relevant:
  "map relevant rs = map relevant rs' \<Longrightarrow> fold (ingest_record K) rs sc = fold (ingest_record K) rs' sc"
proof (induction rs arbitrary: rs' sc)
  case Nil
  then show ?case by simp
next
  case (Cons r rs)
  then obtain q qs where q: "rs' = q # qs" "relevant r = relevant q" "map relevant rs = map relevant qs"
    by (cases rs') auto
  have "ingest_record K r sc = ingest_record K q sc"
    by (cases sc) (simp add: ingest_record_countable countable_relevant[OF q(2)])
  with Cons.IH[OF q(3)] q(1) show ?case by simp
qed

text \<open>
  C26: nothing but metering data reaches the store. Two requests whose records agree, one by one, in
  the event name and kind, the five token counts, the time and the trace and span ids have the same
  effect, whatever their other attributes, such as prompt text, are.
\<close>

theorem ingest_noninterference:
  assumes "map relevant (request_records (JObj kvs)) = map relevant (request_records (JObj kvs'))"
  shows "ingestOTLP K days fault (Some (JObj kvs)) s = ingestOTLP K days fault (Some (JObj kvs')) s"
  by (cases K) (simp_all add: ingestOTLP_def ingest_records_def ingest_relevant[OF assms])

theorem ingest_noninterference_witness:
  "ingestOTLP (Some (sample_collector 0)) 30 None (Some (sample_body [attr ''prompt'' ''secret''])) empty_slot =
     ingestOTLP (Some (sample_collector 0)) 30 None (Some (sample_body [])) empty_slot"
proof -
  have "map relevant (request_records (sample_body [attr ''prompt'' ''secret''])) =
      map relevant (request_records (sample_body []))"
    unfolding sample_records
    by (simp add: relevant_def metered_def sample_record_def attr_def get_array_def get_string_def get_any_def
        obj_get_def otelAttributes_def add_attribute_def)
  then show ?thesis unfolding sample_body_def by (rule ingest_noninterference)
qed

text \<open>
  The local collector is guarded: the store changes only for a POST request with the bearer token
  and a body of at most one MiB, and then the answer is 200; every other answer, a failed save
  included, leaves the stored totals as they were.
\<close>

theorem logs_handler_guarded:
  assumes "logs_handler K token days fault r s = (code, s')" and "dest s' \<noteq> dest s \<or> code = 200"
  shows "code = 200 \<and> Method r = ''POST'' \<and> Authorization r = ''Bearer '' @ token \<and> BodyLength r \<le> 1048576 \<and>
    (\<exists>body. Body r = Some body)"
  using assms
  by (auto simp: logs_handler_def split: if_splits prod.splits option.splits dest: ingestOTLP_error)
    (auto simp: ingestOTLP_def split: option.splits)

theorem logs_handler_guarded_witness:
  "fst (logs_handler (Some (sample_collector 0)) ''t'' 30 None
     \<lparr>Method = ''POST'', Authorization = ''Bearer t'', BodyLength = 10, BodyReadError = False,
      Body = Some (sample_body [])\<rparr> empty_slot) = 200"
proof -
  let ?r = "\<lparr>Method = ''POST'', Authorization = ''Bearer t'', BodyLength = 10, BodyReadError = False,
      Body = Some (sample_body [])\<rparr>"
  obtain c s' where "ingestOTLP (Some (sample_collector 0)) 30 None (Some (sample_body [])) empty_slot = ((c, None), s')"
    using sample_ingest[where t = 0 and extra = "[]" and s = empty_slot] by blast
  then have h: "logs_handler (Some (sample_collector 0)) ''t'' 30 None ?r empty_slot = (200, s')"
    by (simp add: logs_handler_def)
  then show ?thesis using logs_handler_guarded[OF h] by simp
qed

text \<open>
  A store that cannot be read or parsed is replaced without a word: the next ingestion, even of a
  request without records, answers with success and overwrites the file with totals that start from
  zero.
\<close>

theorem unreadable_store_reset:
  assumes "dest s = Unreadable \<or> dest s = Malformed None \<or> dest s = Blank"
    and "accepted K {} (request_records (JObj kvs)) = new"
  shows "\<exists>st s'. ingestOTLP (Some K) days None (Some (JObj kvs)) s = ((length new, None), s') \<and>
    dest s' = Content st \<and> day_sum TotalTokens (Days st) = tok_sum tok_total new"
proof -
  have e: "loadOTelStore s = empty_store" using assms(1) by (auto simp: loadOTelStore_def)
  have p: "prune_seen c empty_store = empty_store" for c by (simp add: prune_seen_def empty_store_def)
  obtain st c where f: "fold (ingest_record K) (request_records (JObj kvs)) (empty_store, 0) = (st, c)"
    by (metis prod.collapse)
  have "c = length new \<and> day_sum TotalTokens (Days st) = tok_sum tok_total new"
    using fold_ingest[OF f] assms(2) by (simp add: empty_store_def day_sum_def)
  then show ?thesis
    by (simp add: ingestOTLP_def ingest_records_def e p f otel_file.save_None)
qed

theorem unreadable_store_reset_witness:
  "\<exists>s'. ingestOTLP (Some (sample_collector 0)) 30 None (Some (JObj [])) \<lparr>dest = Unreadable, temp = Absent\<rparr> = ((0, None), s') \<and>
     (\<exists>st. dest s' = Content st \<and> day_sum TotalTokens (Days st) = 0)"
proof -
  have "accepted (sample_collector 0) {} (request_records (JObj [])) = []"
    by (simp add: request_records_def get_array_def obj_get_def)
  from unreadable_store_reset[OF _ this, of "\<lparr>dest = Unreadable, temp = Absent\<rparr>" 30] show ?thesis
    by (auto simp: tok_sum_def)
qed

end
