(* ===== verification/Client.thy ===== *)
theory Client
  imports Protocol Verifier Queue Config CodexHome Telemetry Quota Integrity Otel
begin

text \<open>
  \<open>internal/agent/client.go\<close>: the client that signs reports, keeps them in the durable queue and
  delivers them. \<open>Client\<close> is the memory of the process, \<open>world\<close> what survives it: the state files, the
  \<open>config.toml\<close> of each home and the state \<open>'w\<close> of the server. A \<open>turn\<close> holds what the environment
  answers during one operation: clock, randomness, faults, and the HTTP calls, which are functions
  on the server's state. A URL that \<open>http.NewRequest\<close> rejects is a call without answer.

  The mutexes of the source make each operation atomic with respect to the others of its process.
\<close>

record Client =
  cfg :: Config
  cl_Queue :: Queue
  started :: go_time
  quota :: "QuotaSnapshot option"
  quotaRead :: go_time
  homeRead :: go_time
  homeSource :: string
  homeAuto :: bool

record 'w world =
  config_file :: "Config slot"
  queue_file :: "json queue_slot"
  tomls :: "string \<Rightarrow> toml_files"
  integrity_file :: "integrityState slot"
  otel_file :: "otelStore slot"
  net :: 'w

datatype http = NoAnswer | Answer nat string

record EnrollResponse =
  enr_DeviceID :: string
  enr_StudentName :: string
  enr_DeviceLabel :: string
  enr_OTLPToken :: string
  enr_HeartbeatSeconds :: int
  enr_UsageSeconds :: int
  enr_IntegritySeconds :: int
  enr_Timezone :: string

record 'w turn =
  t_crypto :: crypto
  t_secrets :: secrets
  t_host :: host
  t_toml :: "string \<Rightarrow> otel_document option"
  t_clock :: "nat \<Rightarrow> go_time"
  t_random :: "bytes option"
  t_post :: "string \<Rightarrow> json \<Rightarrow> 'w \<Rightarrow> http \<times> 'w"
  t_register :: "string \<Rightarrow> json \<Rightarrow> 'w \<Rightarrow> http \<times> 'w"
  t_enrolled :: "string \<Rightarrow> EnrollResponse option"
  home_env :: toml_env
  home_fault :: "save_fault option"
  save_fault_of :: "save_fault option"
  push_fault :: "save_fault option"
  pop_fault :: "nat \<Rightarrow> save_fault option"
  reenroll_env :: toml_env
  clear_fault :: "save_fault option"
  reenroll_fault :: "save_fault option"

datatype register_err = RegisterUnreachable | RegisterRejected nat string | RegisterParse

datatype client_err =
    HomeSave config_err
  | KeyNotBase64 | NoRandomness | SignFailed protocol_err | SequenceSave config_err
  | EnvelopeMarshal string | QueueFailed queue_err
  | Unreachable | Rejected nat string | StaleEnvelope
  | ReEnrollRegister register_err | ReEnrollTelemetry telemetry_err | ReEnrollClear queue_err
  | ReEnrollSave config_err

definition Version :: string where "Version = ''1.5.0''"

section \<open>Start\<close>

definition New :: "secrets \<Rightarrow> go_time \<Rightarrow> Config slot \<Rightarrow> config_err + Client" where
  "New S now s =
     (case config_Load S s of
        Inl e \<Rightarrow> Inl e
      | Inr c \<Rightarrow> Inr \<lparr>cfg = c, cl_Queue = New_queue (RetentionDays c), started = now, quota = None,
                      quotaRead = zero_time, homeRead = zero_time, homeSource = [], homeAuto = False\<rparr>)"

section \<open>The Codex home\<close>

definition refreshCodexHome :: "('w, 'x) turn_scheme \<Rightarrow> Client \<Rightarrow> 'w world \<Rightarrow> client_err option \<times> Client \<times> 'w world" where
  "refreshCodexHome t cl w =
     (if \<not> IsZero (homeRead cl) \<and> time_Sub (t_clock t 0) (homeRead cl) < 5 * minute then (None, cl, w)
      else
        let r = ResolveCodexHome (t_host t) (CodexHome (cfg cl));
            cl1 = cl\<lparr>homeRead := t_clock t 1, homeSource := Source r\<rparr>;
            k = pathKey (t_host t) (Path r)
        in if Path r = [] \<or> k = pathKey (t_host t) (CodexHome (cfg cl)) then (None, cl1, w)
           else
             (case ConfigureTelemetry (t_crypto t) (t_toml t) (home_env t) (OTLPToken (cfg cl)) (tomls w k) of
                ((hash, telemetryErr), fs) \<Rightarrow>
                  let c1 = (cfg cl)\<lparr>CodexHome := Path r\<rparr>;
                      c2 = (if telemetryErr = None then c1\<lparr>ExpectedConfigHash := hash\<rparr> else c1)
                  in (case config_Save (t_secrets t) (home_fault t) c2 (config_file w) of
                        (e, c3, s') \<Rightarrow>
                          (map_option HomeSave e,
                           cl1\<lparr>cfg := c3, homeAuto := True, quota := None, quotaRead := zero_time\<rparr>,
                           w\<lparr>config_file := s', tomls := (tomls w)(k := fs)\<rparr>))))"

section \<open>Registration\<close>

definition register_body :: "string \<Rightarrow> string \<Rightarrow> string \<Rightarrow> json" where
  "register_body name label publicKey =
     JObj [(''device_label'', JStr (TrimSpace label)), (''name'', JStr (TrimSpace name)),
           (''public_key'', JStr publicKey)]"

definition register ::
  "('w, 'x) turn_scheme \<Rightarrow> string \<Rightarrow> string \<Rightarrow> string \<Rightarrow> string \<Rightarrow> 'w \<Rightarrow> (register_err + EnrollResponse) \<times> 'w" where
  "register t server name label publicKey n =
     (case t_register t (TrimRight server (CHR ''/'') @ ''/api/v1/register'') (register_body name label publicKey) n of
        (NoAnswer, n') \<Rightarrow> (Inl RegisterUnreachable, n')
      | (Answer code body, n') \<Rightarrow>
          let data = take 1048576 body
          in (if code \<noteq> 200 then Inl (RegisterRejected code (TrimSpace data))
              else case t_enrolled t data of None \<Rightarrow> Inl RegisterParse | Some e \<Rightarrow> Inr e, n'))"

text \<open>The fields both registrations take over from the answer.\<close>

definition enrolled_config :: "EnrollResponse \<Rightarrow> Config \<Rightarrow> Config" where
  "enrolled_config e c =
     c\<lparr>Config_DeviceID := enr_DeviceID e, StudentName := enr_StudentName e, DeviceLabel := enr_DeviceLabel e,
       OTLPToken := enr_OTLPToken e, Timezone := enr_Timezone e, HeartbeatSeconds := enr_HeartbeatSeconds e,
       UsageSeconds := enr_UsageSeconds e, IntegritySeconds := enr_IntegritySeconds e\<rparr>"

datatype enroll_err = NoKeys | EnrollRegister register_err | EnrollSave config_err

text \<open>\<open>keys\<close> is what \<open>ed25519.GenerateKey\<close> returns: the public and the private key.\<close>

definition Enroll ::
  "('w, 'x) turn_scheme \<Rightarrow> (bytes \<times> bytes) option \<Rightarrow> Config \<Rightarrow> Config slot \<times> 'w \<Rightarrow>
     (enroll_err + Config) \<times> Config slot \<times> 'w" where
  "Enroll t keys wanted sn =
     (case keys of
        None \<Rightarrow> (Inl NoKeys, sn)
      | Some (public, private) \<Rightarrow>
          (case register t (ServerURL wanted) (StudentName wanted) (DeviceLabel wanted) (b64_encode public) (snd sn) of
             (Inl e, n) \<Rightarrow> (Inl (EnrollRegister e), fst sn, n)
           | (Inr enrolled, n) \<Rightarrow>
               let c = enrolled_config enrolled
                         (zero_config\<lparr>ServerURL := TrimRight (ServerURL wanted) (CHR ''/''),
                            PrivateKey := b64_encode private, PublicKey := b64_encode public,
                            CodexHome := CodexHome wanted, CodexPath := CodexPath wanted,
                            CCUsagePath := CCUsagePath wanted, AgentPath := AgentPath wanted,
                            StateDir := StateDir wanted\<rparr>)
               in (case config_Save (t_secrets t) (save_fault_of t) (Defaults c) (fst sn) of
                     (Some e, _, s') \<Rightarrow> (Inl (EnrollSave e), s', n)
                   | (None, c', s') \<Rightarrow> (Inr c', s', n))))"

text \<open>The source copies the record before changing it: a failure leaves the client with the old one.\<close>

definition reEnrollIfCurrent ::
  "('w, 'x) turn_scheme \<Rightarrow> string \<Rightarrow> Client \<Rightarrow> 'w world \<Rightarrow> client_err option \<times> Client \<times> 'w world" where
  "reEnrollIfCurrent t staleDeviceID cl w =
     (if Config_DeviceID (cfg cl) \<noteq> staleDeviceID then (None, cl, w)
      else
        (case register t (ServerURL (cfg cl)) (StudentName (cfg cl)) (DeviceLabel (cfg cl)) (PublicKey (cfg cl)) (net w) of
           (Inl e, n) \<Rightarrow> (Some (ReEnrollRegister e), cl, w\<lparr>net := n\<rparr>)
         | (Inr enrolled, n) \<Rightarrow>
             let updated = Defaults ((enrolled_config enrolled (cfg cl))\<lparr>NextSequence := 1\<rparr>);
                 k = pathKey (t_host t) (CodexHome updated)
             in (case ConfigureTelemetry (t_crypto t) (t_toml t) (reenroll_env t) (OTLPToken updated) (tomls w k) of
                   ((fingerprint, terr), fs) \<Rightarrow>
                     let w1 = w\<lparr>net := n, tomls := (tomls w)(k := fs)\<rparr>
                     in (case terr of
                           Some e \<Rightarrow> (Some (ReEnrollTelemetry e), cl, w1)
                         | None \<Rightarrow>
                             (case Clear (clear_fault t) (queue_file w1) of
                                (Some e, q) \<Rightarrow> (Some (ReEnrollClear e), cl, w1\<lparr>queue_file := q\<rparr>)
                              | (None, q) \<Rightarrow>
                                  (case config_Save (t_secrets t) (reenroll_fault t)
                                          (updated\<lparr>ExpectedConfigHash := fingerprint\<rparr>) (config_file w1) of
                                     (Some e, _, s') \<Rightarrow>
                                       (Some (ReEnrollSave e), cl, w1\<lparr>queue_file := q, config_file := s'\<rparr>)
                                   | (None, c', s') \<Rightarrow>
                                       (None, cl\<lparr>cfg := c'\<rparr>, w1\<lparr>queue_file := q, config_file := s'\<rparr>)))))))"

section \<open>Signing and queueing\<close>

text \<open>The panic of \<open>ed25519.Sign\<close> on a key of the wrong length is the value \<open>SignFailed BadKeyLength\<close>.\<close>

definition randomID :: "bytes option \<Rightarrow> string option" where
  "randomID b = map_option hex_encode b"

lemma randomID_simps [simp]: "randomID None = None" "randomID (Some b) = Some (hex_encode b)"
  by (simp_all add: randomID_def)

definition enqueue ::
  "('w, 'x) turn_scheme \<Rightarrow> string \<Rightarrow> json \<Rightarrow> Client \<Rightarrow> 'w world \<Rightarrow> client_err option \<times> Client \<times> 'w world" where
  "enqueue t endpoint payload cl w =
     (case b64_decode (PrivateKey (cfg cl)) of
        None \<Rightarrow> (Some KeyNotBase64, cl, w)
      | Some key \<Rightarrow>
          (case randomID (t_random t) of
             None \<Rightarrow> (Some NoRandomness, cl, w)
           | Some eventID \<Rightarrow>
               (case Sign (t_crypto t) (Config_DeviceID (cfg cl)) (NextSequence (cfg cl)) eventID payload key
                       (t_clock t 2) of
                  Inl e \<Rightarrow> (Some (SignFailed e), cl, w)
                | Inr envelope \<Rightarrow>
                    (case config_Save (t_secrets t) (save_fault_of t)
                            ((cfg cl)\<lparr>NextSequence := NextSequence (cfg cl) + 1\<rparr>) (config_file w) of
                       (Some e, c', s') \<Rightarrow> (Some (SequenceSave e), cl\<lparr>cfg := c'\<rparr>, w\<lparr>config_file := s'\<rparr>)
                     | (None, c', s') \<Rightarrow>
                         (case first_other (envelope_json envelope) of
                            Some ty \<Rightarrow> (Some (EnvelopeMarshal ty), cl\<lparr>cfg := c'\<rparr>, w\<lparr>config_file := s'\<rparr>)
                          | None \<Rightarrow>
                              (case Push (cl_Queue cl) (t_clock t 4) (push_fault t)
                                      \<lparr>Endpoint = endpoint, CreatedAt = t_clock t 3,
                                       Envelope_data = envelope_json envelope\<rparr> (queue_file w) of
                                 (e, q) \<Rightarrow> (map_option QueueFailed e, cl\<lparr>cfg := c'\<rparr>,
                                           w\<lparr>config_file := s', queue_file := q\<rparr>)))))))"

section \<open>Delivery\<close>

text \<open>
  \<open>json.Unmarshal\<close> into a struct with the one field \<open>device_id\<close>: keys match in any case, later ones
  win, \<open>null\<close> changes nothing, any other type is an error.
\<close>

definition stale_member :: "string \<times> json \<Rightarrow> string option \<Rightarrow> string option" where
  "stale_member kv acc =
     (if ToLower (fst kv) = ''device_id''
      then (case snd kv of JStr s \<Rightarrow> map_option (\<lambda>_. s) acc | JNull \<Rightarrow> acc | _ \<Rightarrow> None) else acc)"

definition stale_device :: "json \<Rightarrow> string option" where
  "stale_device j = (case j of JObj kvs \<Rightarrow> fold stale_member kvs (Some []) | JNull \<Rightarrow> Some [] | _ \<Rightarrow> None)"

lemma Pop_shrinks:
  "Peek s = (Some item, None) \<Longrightarrow> Pop f s = (None, s') \<Longrightarrow> Len s' < Len s"
  by (cases "queue_load s")
    (auto simp: Peek_def Pop_def Len_def queue_save_def split: if_splits prod.splits dest!: write_replace_ok,
     simp add: queue_load_def)

text \<open>
  One pass of the loop, where \<open>i\<close> counts the deliveries of this call: the result if the pass returns, the state
  of the next pass otherwise. The loop ends because a pass that does not return takes an item off the queue.
\<close>

definition flush_pass ::
  "('w, 'x) turn_scheme \<Rightarrow> nat \<Rightarrow> Client \<Rightarrow> 'w world \<Rightarrow> (client_err option \<times> Client \<times> 'w world) + 'w world" where
  "flush_pass t i cl w =
     (case Peek (queue_file w) of
        (_, Some e) \<Rightarrow> Inl (Some (QueueFailed e), cl, w)
      | (None, None) \<Rightarrow> Inl (None, cl, w)
      | (Some item, None) \<Rightarrow>
          (case t_post t (ServerURL (cfg cl) @ Endpoint item) (Envelope_data item) (net w) of
             (NoAnswer, n) \<Rightarrow> Inl (Some Unreachable, cl, w\<lparr>net := n\<rparr>)
           | (Answer code body, n) \<Rightarrow>
               if code < 200 \<or> code \<ge> 300 then
                 (if code = 401 \<and> Contains (ToLower (take 4096 body)) ''unknown device'' then
                    (case stale_device (Envelope_data item) of
                       None \<Rightarrow> Inl (Some StaleEnvelope, cl, w\<lparr>net := n\<rparr>)
                     | Some d \<Rightarrow> Inl (reEnrollIfCurrent t d cl (w\<lparr>net := n\<rparr>)))
                  else Inl (Some (Rejected code (TrimSpace (take 4096 body))), cl, w\<lparr>net := n\<rparr>))
               else
                 (case Pop (pop_fault t i) (queue_file w) of
                    (Some e, q) \<Rightarrow> Inl (Some (QueueFailed e), cl, w\<lparr>net := n, queue_file := q\<rparr>)
                  | (None, q) \<Rightarrow> Inr (w\<lparr>net := n, queue_file := q\<rparr>))))"

lemma flush_pass_shrinks: "flush_pass t i cl w = Inr w' \<Longrightarrow> Len (queue_file w') < Len (queue_file w)"
  by (auto simp: flush_pass_def split: prod.splits option.splits http.splits if_splits intro: Pop_shrinks)

function Flush_loop ::
  "('w, 'x) turn_scheme \<Rightarrow> nat \<Rightarrow> Client \<Rightarrow> 'w world \<Rightarrow> client_err option \<times> Client \<times> 'w world" where
  "Flush_loop t i cl w = (case flush_pass t i cl w of Inl r \<Rightarrow> r | Inr w' \<Rightarrow> Flush_loop t (i + 1) cl w')"
  by pat_completeness auto
termination
  by (relation "measure (\<lambda>(t, i, cl, w). Len (queue_file w))") (auto dest: flush_pass_shrinks)

declare Flush_loop.simps [simp del]

lemma Flush_loop_unfold:
  "Flush_loop t i cl w =
     (case Peek (queue_file w) of
        (_, Some e) \<Rightarrow> (Some (QueueFailed e), cl, w)
      | (None, None) \<Rightarrow> (None, cl, w)
      | (Some item, None) \<Rightarrow>
          (case t_post t (ServerURL (cfg cl) @ Endpoint item) (Envelope_data item) (net w) of
             (NoAnswer, n) \<Rightarrow> (Some Unreachable, cl, w\<lparr>net := n\<rparr>)
           | (Answer code body, n) \<Rightarrow>
               if code < 200 \<or> code \<ge> 300 then
                 (if code = 401 \<and> Contains (ToLower (take 4096 body)) ''unknown device'' then
                    (case stale_device (Envelope_data item) of
                       None \<Rightarrow> (Some StaleEnvelope, cl, w\<lparr>net := n\<rparr>)
                     | Some d \<Rightarrow> reEnrollIfCurrent t d cl (w\<lparr>net := n\<rparr>))
                  else (Some (Rejected code (TrimSpace (take 4096 body))), cl, w\<lparr>net := n\<rparr>))
               else
                 (case Pop (pop_fault t i) (queue_file w) of
                    (Some e, q) \<Rightarrow> (Some (QueueFailed e), cl, w\<lparr>net := n, queue_file := q\<rparr>)
                  | (None, q) \<Rightarrow> Flush_loop t (i + 1) cl (w\<lparr>net := n, queue_file := q\<rparr>))))"
  by (subst Flush_loop.simps) (auto simp: flush_pass_def split: prod.splits option.splits http.splits)

text \<open>The state after \<open>k\<close> passes, or the result of the pass that has returned.\<close>

fun flush_passes ::
  "('w, 'x) turn_scheme \<Rightarrow> Client \<Rightarrow> nat \<Rightarrow> 'w world \<Rightarrow> (client_err option \<times> Client \<times> 'w world) + 'w world" where
  "flush_passes t cl 0 w = Inr w"
| "flush_passes t cl (Suc k) w = (case flush_passes t cl k w of Inl r \<Rightarrow> Inl r | Inr w' \<Rightarrow> flush_pass t k cl w')"

definition Flush :: "('w, 'x) turn_scheme \<Rightarrow> Client \<Rightarrow> 'w world \<Rightarrow> client_err option \<times> Client \<times> 'w world" where
  "Flush t cl w = Flush_loop t 0 cl w"


section \<open>What enqueue does\<close>

lemma first_other_envelope: "supported (Payload e) \<Longrightarrow> first_other (envelope_json e) = None"
  using first_other_supported[of "Payload e"] by (simp add: envelope_json_def)

lemma Sign_supported: "Sign C d q ev p key now = Inr e \<Longrightarrow> first_other (envelope_json e) = None"
proof (rule first_other_envelope, rule ccontr)
  assume s: "Sign C d q ev p key now = Inr e" and "\<not> supported (Payload e)"
  then obtain ty where "CanonicalJSON p = Inl (MarshalUnsupported ty)"
    using CanonicalJSON_unsupported Sign_fields by metis
  with s show False by (simp add: Sign_def Let_def)
qed

definition next_config :: "Client \<Rightarrow> Config" where
  "next_config cl = (cfg cl)\<lparr>NextSequence := NextSequence (cfg cl) + 1\<rparr>"

text \<open>The item that a successful \<open>enqueue\<close> pushes.\<close>

definition report_item :: "('w, 'x) turn_scheme \<Rightarrow> string \<Rightarrow> Envelope \<Rightarrow> json Item" where
  "report_item t endpoint e = \<lparr>Endpoint = endpoint, CreatedAt = t_clock t 3, Envelope_data = envelope_json e\<rparr>"

lemma enqueue_cases:
  assumes "enqueue t endpoint payload cl w = (e, cl', w')"
  obtains (nothing) "cl' = cl" "w' = w" "e \<noteq> None"
  | (unsaved) er c' s' where "e = Some (SequenceSave er)"
      "config_Save (t_secrets t) (save_fault_of t) (next_config cl) (config_file w) = (Some er, c', s')"
      "cl' = cl\<lparr>cfg := c'\<rparr>" "w' = w\<lparr>config_file := s'\<rparr>"
  | (saved) key rnd envelope c' s' er q where
      "b64_decode (PrivateKey (cfg cl)) = Some key" "t_random t = Some rnd"
      "Sign (t_crypto t) (Config_DeviceID (cfg cl)) (NextSequence (cfg cl)) (hex_encode rnd) payload key
         (t_clock t 2) = Inr envelope"
      "config_Save (t_secrets t) (save_fault_of t) (next_config cl) (config_file w) = (None, c', s')"
      "Push (cl_Queue cl) (t_clock t 4) (push_fault t) (report_item t endpoint envelope) (queue_file w) = (er, q)"
      "e = map_option QueueFailed er" "cl' = cl\<lparr>cfg := c'\<rparr>" "w' = w\<lparr>config_file := s', queue_file := q\<rparr>"
proof (cases "b64_decode (PrivateKey (cfg cl))")
  case None
  from assms None have "cl' = cl" "w' = w" "e \<noteq> None" by (auto simp: enqueue_def)
      then show ?thesis by (rule nothing)
next
  case (Some key)
  note key = Some
  show ?thesis
  proof (cases "t_random t")
    case None
    from assms key None have "cl' = cl" "w' = w" "e \<noteq> None" by (auto simp: enqueue_def)
      then show ?thesis by (rule nothing)
  next
    case (Some rnd)
    note rnd = Some
    show ?thesis
    proof (cases "Sign (t_crypto t) (Config_DeviceID (cfg cl)) (NextSequence (cfg cl)) (hex_encode rnd) payload key (t_clock t 2)")
      case (Inl er)
      from assms key rnd Inl have "cl' = cl" "w' = w" "e \<noteq> None" by (auto simp: enqueue_def)
      then show ?thesis by (rule nothing)
    next
      case (Inr envelope)
      obtain er c' s' where s: "config_Save (t_secrets t) (save_fault_of t) (next_config cl) (config_file w) = (er, c', s')"
        by (metis prod.collapse)
      show ?thesis
      proof (cases er)
        case None
        obtain pe q where "Push (cl_Queue cl) (t_clock t 4) (push_fault t) (report_item t endpoint envelope)
            (queue_file w) = (pe, q)" by (metis prod.collapse)
        with None assms key rnd Inr s Sign_supported[OF Inr] show ?thesis
          by (intro saved[of key rnd envelope c' s' pe q]) (simp_all add: enqueue_def next_config_def report_item_def)
      next
        case (Some x)
        with assms key rnd Inr s show ?thesis
          by (intro unsaved[of x c' s']) (simp_all add: enqueue_def next_config_def)
      qed
    qed
  qed
qed

section \<open>What Flush does\<close>

definition accepted_answer :: "http \<Rightarrow> bool" where
  "accepted_answer a = (case a of NoAnswer \<Rightarrow> False | Answer code _ \<Rightarrow> 200 \<le> code \<and> code < 300)"

definition unknown_device :: "http \<Rightarrow> bool" where
  "unknown_device a =
     (case a of NoAnswer \<Rightarrow> False | Answer code body \<Rightarrow> code = 401 \<and> Contains (ToLower (take 4096 body)) ''unknown device'')"

definition post_item :: "('w, 'x) turn_scheme \<Rightarrow> Client \<Rightarrow> json Item \<Rightarrow> 'w \<Rightarrow> http \<times> 'w" where
  "post_item t cl item n = t_post t (ServerURL (cfg cl) @ Endpoint item) (Envelope_data item) n"

text \<open>
  The runs of the loop as a relation: the list holds the items that were posted, in order, with the
  answer each of them got.
\<close>

inductive flush_run ::
  "('w, 'x) turn_scheme \<Rightarrow> Client \<Rightarrow> 'w world \<Rightarrow> (json Item \<times> http) list \<Rightarrow> client_err option \<Rightarrow> Client \<Rightarrow> 'w world \<Rightarrow> bool"
  for t :: "('w, 'x) turn_scheme" and cl :: Client where
  idle: "Peek (queue_file w) = (None, None) \<Longrightarrow> flush_run t cl w [] None cl w"
| broken: "Peek (queue_file w) = (x, Some e) \<Longrightarrow> flush_run t cl w [] (Some (QueueFailed e)) cl w"
| refused: "Peek (queue_file w) = (Some item, None) \<Longrightarrow> post_item t cl item (net w) = (a, n) \<Longrightarrow>
    \<not> accepted_answer a \<Longrightarrow> e = Unreachable \<or> e = StaleEnvelope \<or> (\<exists>code body b. e = Rejected code body \<and> a = Answer code b) \<Longrightarrow>
    flush_run t cl w [(item, a)] (Some e) cl (w\<lparr>net := n\<rparr>)"
| stale: "Peek (queue_file w) = (Some item, None) \<Longrightarrow> post_item t cl item (net w) = (a, n) \<Longrightarrow> unknown_device a \<Longrightarrow>
    stale_device (Envelope_data item) = Some d \<Longrightarrow> reEnrollIfCurrent t d cl (w\<lparr>net := n\<rparr>) = (e, cl', w') \<Longrightarrow>
    flush_run t cl w [(item, a)] e cl' w'"
| unpopped: "Peek (queue_file w) = (Some item, None) \<Longrightarrow> post_item t cl item (net w) = (a, n) \<Longrightarrow> accepted_answer a \<Longrightarrow>
    Pop f (queue_file w) = (Some e, q) \<Longrightarrow>
    flush_run t cl w [(item, a)] (Some (QueueFailed e)) cl (w\<lparr>net := n, queue_file := q\<rparr>)"
| deliver: "Peek (queue_file w) = (Some item, None) \<Longrightarrow> post_item t cl item (net w) = (a, n) \<Longrightarrow> accepted_answer a \<Longrightarrow>
    Pop f (queue_file w) = (None, q) \<Longrightarrow> flush_run t cl (w\<lparr>net := n, queue_file := q\<rparr>) sent e cl' w' \<Longrightarrow>
    flush_run t cl w ((item, a) # sent) e cl' w'"

lemma refused_run:
  assumes peek: "Peek (queue_file w) = (Some item, None)" and post: "post_item t cl item (net w) = (Answer code body, n)"
    and code: "code < 200 \<or> 300 \<le> code"
    and res: "(if code = 401 \<and> Contains (ToLower (take 4096 body)) ''unknown device'' then
         (case stale_device (Envelope_data item) of
            None \<Rightarrow> (Some StaleEnvelope, cl, w\<lparr>net := n\<rparr>)
          | Some d \<Rightarrow> reEnrollIfCurrent t d cl (w\<lparr>net := n\<rparr>))
       else (Some (Rejected code (TrimSpace (take 4096 body))), cl, w\<lparr>net := n\<rparr>)) = (e, cl', w')"
  shows "\<exists>sent. flush_run t cl w sent e cl' w'"
proof -
  have acc: "\<not> accepted_answer (Answer code body)" using code by (auto simp: accepted_answer_def)
  note refused = flush_run.refused[OF peek post acc]
  show ?thesis
  proof (cases "unknown_device (Answer code body)")
    case unk: True
    show ?thesis
    proof (cases "stale_device (Envelope_data item)")
      case None
      with res unk show ?thesis using refused[of StaleEnvelope] by (auto simp: unknown_device_def)
    next
      case (Some d)
      with res unk have "reEnrollIfCurrent t d cl (w\<lparr>net := n\<rparr>) = (e, cl', w')" by (auto simp: unknown_device_def)
      from flush_run.stale[OF peek post unk Some this] show ?thesis ..
    qed
  next
    case False
    with res have "e = Some (Rejected code (TrimSpace (take 4096 body)))" "cl' = cl" "w' = w\<lparr>net := n\<rparr>"
      by (auto simp: unknown_device_def)
    with refused[of "Rejected code (TrimSpace (take 4096 body))"] show ?thesis by auto
  qed
qed

text \<open>The item has been accepted: what its removal makes of the run.\<close>

lemma accepted_run:
  assumes "Peek (queue_file w) = (Some item, None)" and "post_item t cl item (net w) = (Answer code body, n)"
    and "\<not> (code < 200 \<or> 300 \<le> code)" and pop: "Pop f (queue_file w) = (pe, q)"
    and "(case pe of Some er \<Rightarrow> (Some (QueueFailed er), cl, w\<lparr>net := n, queue_file := q\<rparr>) | None \<Rightarrow> r) = (e, cl', w')"
    and "pe = None \<Longrightarrow> r = (e, cl', w') \<Longrightarrow>
      \<exists>sent. flush_run t cl (w\<lparr>net := n, queue_file := q\<rparr>) sent e cl' w'"
  shows "\<exists>sent. flush_run t cl w sent e cl' w'"
proof -
  have acc: "accepted_answer (Answer code body)" using assms(3) by (simp add: accepted_answer_def)
  show ?thesis
  proof (cases pe)
    case None
    then obtain sent where "flush_run t cl (w\<lparr>net := n, queue_file := q\<rparr>) sent e cl' w'" using assms(5,6) by auto
    from flush_run.deliver[OF assms(1,2) acc pop[unfolded None] this] show ?thesis ..
  next
    case (Some er)
    with assms(5) flush_run.unpopped[OF assms(1,2) acc pop[unfolded Some]] show ?thesis by auto
  qed
qed

lemma Flush_loop_run: "Flush_loop t i cl w = (e, cl', w') \<Longrightarrow> \<exists>sent. flush_run t cl w sent e cl' w'"
proof (induction t i cl w arbitrary: e cl' w' rule: Flush_loop.induct)
  case (1 t i cl w)
  note run = "1.prems"[unfolded Flush_loop_unfold[of t i cl w]]
  obtain x pe where peek: "Peek (queue_file w) = (x, pe)" by (cases "Peek (queue_file w)")
  consider (broken) er where "pe = Some er" | (idle) "x = None" "pe = None" | (item) item where "x = Some item" "pe = None"
    by (cases pe; cases x) auto
  then show ?case
  proof cases
    case broken
    with run peek flush_run.broken[of w x _ t cl] show ?thesis by (auto split: option.splits)
  next
    case idle
    with run peek flush_run.idle[of w t cl] show ?thesis by auto
  next
    case (item item)
    then have peek: "Peek (queue_file w) = (Some item, None)" using peek by simp
    obtain a n where post: "t_post t (ServerURL (cfg cl) @ Endpoint item) (Envelope_data item) (net w) = (a, n)"
      by (metis prod.collapse)
    then have post': "post_item t cl item (net w) = (a, n)" by (simp add: post_item_def)
    show ?thesis
    proof (cases a)
      case NoAnswer
      with run peek post flush_run.refused[OF peek post', of Unreachable] show ?thesis by (auto simp: accepted_answer_def)
    next
      case (Answer code body)
      note res = run[unfolded peek post[unfolded Answer] option.case prod.case http.case]
      show ?thesis
      proof (cases "code < 200 \<or> 300 \<le> code")
        case True
        show ?thesis by (rule refused_run[OF peek post'[unfolded Answer] True]) (use res True in simp)
      next
        case False
        obtain pe q where pop: "Pop (pop_fault t i) (queue_file w) = (pe, q)" by (metis prod.collapse)
        show ?thesis
          by (rule accepted_run[OF peek post'[unfolded Answer] False pop])
            (use res False pop in simp, use "1.IH" peek post Answer False pop in \<open>auto simp: flush_pass_def\<close>)
      qed
    qed
  qed
qed

lemma Flush_run: "Flush t cl w = (e, cl', w') \<Longrightarrow> \<exists>sent. flush_run t cl w sent e cl' w'"
  by (simp add: Flush_def Flush_loop_run)


section \<open>Runs of Flush and the queue\<close>

text \<open>Posting a list of items one after the other: the answers, and the server afterwards.\<close>

fun posted :: "('w, 'x) turn_scheme \<Rightarrow> Client \<Rightarrow> json Item list \<Rightarrow> 'w \<Rightarrow> http list \<times> 'w" where
  "posted t cl [] n = ([], n)"
| "posted t cl (x # xs) n =
     (case post_item t cl x n of (a, n1) \<Rightarrow> case posted t cl xs n1 of (as, n2) \<Rightarrow> (a # as, n2))"

lemma posted_length: "posted t cl xs n = (as, n') \<Longrightarrow> length as = length xs"
  by (induction xs arbitrary: n as) (auto split: prod.splits)

lemma peek_items:
  "Peek s = (x, er) \<Longrightarrow> pending_items s = Some items \<Longrightarrow>
   er = None \<and> x = (case items of [] \<Rightarrow> None | y # _ \<Rightarrow> Some y)"
  using file_queue.peek_pending[of s items] by (cases items) auto

text \<open>How a run ends, as seen from the queue it started with.\<close>

definition flush_end ::
  "('w, 'x) turn_scheme \<Rightarrow> Client \<Rightarrow> json Item list \<Rightarrow> http list \<Rightarrow> 'w \<Rightarrow> client_err option \<Rightarrow> Client \<Rightarrow> 'w world \<Rightarrow> bool" where
  "flush_end t cl items answers n e cl' w' =
     (let k = length answers in
      (e = None \<and> cl' = cl \<and> k = length items \<and> list_all accepted_answer answers \<and> net w' = n \<and>
         pending_items (queue_file w') = Some [])
      \<or> (0 < k \<and> e \<noteq> None \<and> cl' = cl \<and> net w' = n \<and> pending_items (queue_file w') = Some (drop (k - 1) items))
      \<or> (0 < k \<and> unknown_device (last answers) \<and>
         (\<exists>d w1. stale_device (Envelope_data (items ! (k - 1))) = Some d \<and> net w1 = n \<and>
            pending_items (queue_file w1) = Some (drop (k - 1) items) \<and>
            reEnrollIfCurrent t d cl w1 = (e, cl', w'))))"

lemma flush_end_Cons:
  assumes "flush_end t cl xs as n e cl' w'" and "accepted_answer a"
  shows "flush_end t cl (x # xs) (a # as) n e cl' w'"
proof (cases as)
  case Nil
  with assms show ?thesis by (auto simp: flush_end_def)
next
  case (Cons b bs)
  with assms show ?thesis by (auto simp: flush_end_def Let_def)
qed

lemma flush_run_posts:
  assumes "flush_run t cl w sent e cl' w'" and "pending_items (queue_file w) = Some items"
  shows "\<exists>k n. k \<le> length items \<and> posted t cl (take k items) (net w) = (map snd sent, n) \<and>
    map fst sent = take k items \<and> list_all accepted_answer (butlast (map snd sent)) \<and>
    flush_end t cl items (map snd sent) n e cl' w'"
  using assms
proof (induction arbitrary: items rule: flush_run.induct)
  case (idle w)
  then have "items = []" using peek_items[OF idle(1)] by (cases items) auto
  with idle show ?case by (auto simp: flush_end_def)
next
  case (broken w x e)
  then show ?case using peek_items[OF broken(1)] by auto
next
  case (refused w item a n e)
  then obtain ys where "items = item # ys" using peek_items[OF refused(1)] by (cases items) auto
  with refused show ?case by (intro exI[of _ 1] exI[of _ n]) (simp add: flush_end_def)
next
  case (stale w item a n d e cl' w')
  then obtain ys where "items = item # ys" using peek_items[OF stale(1)] by (cases items) auto
  with stale show ?case
    by (intro exI[of _ 1] exI[of _ n]) (auto simp: flush_end_def intro!: exI[of _ "w\<lparr>net := n\<rparr>"])
next
  case (unpopped w item a n f e q)
  then obtain ys where "items = item # ys" using peek_items[OF unpopped(1)] by (cases items) auto
  with unpopped file_queue.pop_error[OF unpopped(4)] show ?case
    by (intro exI[of _ 1] exI[of _ n]) (simp add: flush_end_def)
next
  case (deliver w item a n f q sent e cl' w')
  then obtain ys where ys: "items = item # ys" using peek_items[OF deliver(1)] by (cases items) auto
  have "pending_items (queue_file (w\<lparr>net := n, queue_file := q\<rparr>)) = Some ys"
    using file_queue.pop_ok[OF deliver.prems deliver(4)] ys by simp
  from deliver.IH[OF this] obtain k m where k: "k \<le> length ys" "posted t cl (take k ys) n = (map snd sent, m)"
    "map fst sent = take k ys" "list_all accepted_answer (butlast (map snd sent))"
    "flush_end t cl ys (map snd sent) m e cl' w'" by auto
  show ?case
    using k deliver(2,3) flush_end_Cons[OF k(5) deliver(3), of item] ys
    by (intro exI[of _ "Suc k"] exI[of _ m]) simp
qed

lemma reEnroll_registered:
  assumes "reEnrollIfCurrent t (Config_DeviceID (cfg cl)) cl w = (e, cl', w')"
    and r: "register t (ServerURL (cfg cl)) (StudentName (cfg cl)) (DeviceLabel (cfg cl)) (PublicKey (cfg cl)) (net w) =
      (Inr enrolled, n)"
  obtains (kept) "e \<noteq> None" "cl' = cl" "dest (config_file w') = dest (config_file w)" "net w' = n"
      "dest (queue_file w') = dest (queue_file w) \<or> dest (queue_file w') = Content []"
  | (renewed) fp c' where "e = None" "cl' = cl\<lparr>cfg := c'\<rparr>" "net w' = n" "dest (queue_file w') = Content []"
      "config_Save (t_secrets t) (reenroll_fault t)
         ((Defaults ((enrolled_config enrolled (cfg cl))\<lparr>NextSequence := 1\<rparr>))\<lparr>ExpectedConfigHash := fp\<rparr>)
         (config_file w) = (None, c', config_file w')"
proof -
  note d = reEnrollIfCurrent_def Let_def
  let ?u = "Defaults ((enrolled_config enrolled (cfg cl))\<lparr>NextSequence := 1\<rparr>)"
  let ?k = "pathKey (t_host t) (CodexHome ?u)"
  obtain fp terr fs where ct: "ConfigureTelemetry (t_crypto t) (t_toml t) (reenroll_env t) (OTLPToken ?u) (tomls w ?k) =
      ((fp, terr), fs)" by (metis prod.collapse)
  obtain ce q where cl0: "Clear (clear_fault t) (queue_file w) = (ce, q)" by (metis prod.collapse)
  obtain se c' s' where sv: "config_Save (t_secrets t) (reenroll_fault t) (?u\<lparr>ExpectedConfigHash := fp\<rparr>)
      (config_file w) = (se, c', s')" by (metis prod.collapse)
  consider (untold) er where "terr = Some er" | (uncleared) er where "terr = None" "ce = Some er"
    | (unsaved) er where "terr = None" "ce = None" "se = Some er" | (saved) "terr = None" "ce = None" "se = None"
    by (cases terr; cases ce; cases se) auto
  then show ?thesis
  proof cases
    case untold
    with assms ct show ?thesis by (intro kept) (auto simp: d)
  next
    case (uncleared er)
    have "dest q = dest (queue_file w)" using cl0 uncleared(2) by (simp add: Clear_def queue_save_error)
    with assms ct cl0 uncleared show ?thesis by (intro kept) (auto simp: d)
  next
    case (unsaved er)
    have "dest q = Content []" using cl0 unsaved(2) by (simp add: Clear_def queue_save_ok)
    moreover have "dest s' = dest (config_file w)" using config_Save_error sv unsaved(3) by blast
    ultimately show ?thesis using assms ct cl0 unsaved sv by (intro kept) (auto simp: d)
  next
    case saved
    have "dest q = Content []" using cl0 saved(2) by (simp add: Clear_def queue_save_ok)
    with assms ct cl0 saved sv show ?thesis by (intro renewed[of c' fp]) (auto simp: d)
  qed
qed

lemma reEnroll_cases:
  assumes "reEnrollIfCurrent t d cl w = (e, cl', w')"
  obtains (other) "Config_DeviceID (cfg cl) \<noteq> d" "e = None" "cl' = cl" "w' = w"
  | (kept) "Config_DeviceID (cfg cl) = d" "e \<noteq> None" "cl' = cl" "dest (config_file w') = dest (config_file w)"
      "dest (queue_file w') = dest (queue_file w) \<or> dest (queue_file w') = Content []"
      "\<exists>r. register t (ServerURL (cfg cl)) (StudentName (cfg cl)) (DeviceLabel (cfg cl)) (PublicKey (cfg cl)) (net w) = (r, net w')"
  | (renewed) enrolled fp c' where "Config_DeviceID (cfg cl) = d" "e = None" "cl' = cl\<lparr>cfg := c'\<rparr>"
      "register t (ServerURL (cfg cl)) (StudentName (cfg cl)) (DeviceLabel (cfg cl)) (PublicKey (cfg cl)) (net w) =
         (Inr enrolled, net w')"
      "config_Save (t_secrets t) (reenroll_fault t)
         ((Defaults ((enrolled_config enrolled (cfg cl))\<lparr>NextSequence := 1\<rparr>))\<lparr>ExpectedConfigHash := fp\<rparr>)
         (config_file w) = (None, c', config_file w')"
      "dest (queue_file w') = Content []"
proof (cases "Config_DeviceID (cfg cl) = d")
  case False
  with assms have "e = None" "cl' = cl" "w' = w" by (auto simp: reEnrollIfCurrent_def)
  with False show ?thesis by (rule other)
next
  case True
  obtain r n where r: "register t (ServerURL (cfg cl)) (StudentName (cfg cl)) (DeviceLabel (cfg cl))
      (PublicKey (cfg cl)) (net w) = (r, n)" by (metis prod.collapse)
  show ?thesis
  proof (cases r)
    case (Inl er)
    with assms True r show ?thesis by (intro kept) (auto simp: reEnrollIfCurrent_def)
  next
    case (Inr enrolled)
    from assms True have run: "reEnrollIfCurrent t (Config_DeviceID (cfg cl)) cl w = (e, cl', w')" by simp
    from run r[unfolded Inr] show ?thesis
    proof (cases rule: reEnroll_registered)
      case kept
      with True r show ?thesis by (intro that(2)) auto
    next
      case (renewed fp c')
      with True r Inr show ?thesis by (intro that(3)[of c' enrolled fp]) auto
    qed
  qed
qed


section \<open>Reporting\<close>

text \<open>The common tail of the reporting operations: enqueue, then deliver what is queued.\<close>

definition report ::
  "('w, 'x) turn_scheme \<Rightarrow> string \<Rightarrow> json \<Rightarrow> Client \<Rightarrow> 'w world \<Rightarrow> client_err option \<times> Client \<times> 'w world" where
  "report t endpoint payload cl w =
     (case enqueue t endpoint payload cl w of
        (Some e, cl', w') \<Rightarrow> (Some e, cl', w')
      | (None, cl', w') \<Rightarrow> Flush t cl' w')"

lemma config_Save_memory:
  "config_Save S f c s = (e, c', s') \<Longrightarrow> \<exists>p. c' = (Defaults c)\<lparr>KeyProtection := p\<rparr>"
proof -
  have self: "\<exists>p. c = c\<lparr>KeyProtection := p\<rparr>" for c :: Config by (rule exI[of _ "KeyProtection c"]) simp
  show "config_Save S f c s = (e, c', s') \<Longrightarrow> \<exists>p. c' = (Defaults c)\<lparr>KeyProtection := p\<rparr>"
    by (auto simp: config_Save_def Let_def intro: self split: if_splits sum.splits prod.splits)
qed

lemma next_config_simps [simp]:
  "NextSequence (next_config cl) = NextSequence (cfg cl) + 1"
  "Config_DeviceID (next_config cl) = Config_DeviceID (cfg cl)"
  "ServerURL (next_config cl) = ServerURL (cfg cl)" "PrivateKey (next_config cl) = PrivateKey (cfg cl)"
  by (simp_all add: next_config_def)

lemma config_Save_fields:
  assumes "config_Save S f c s = (e, c', s')"
  shows "ServerURL c' = ServerURL c" "Config_DeviceID c' = Config_DeviceID c" "PrivateKey c' = PrivateKey c"
    "NextSequence c' = (if NextSequence c = 0 then 1 else NextSequence c)"
  using config_Save_memory[OF assms] by auto

lemma config_Save_disk:
  assumes "config_Save S f c s = (None, c', s')"
  shows "\<exists>d. dest s' = Content d \<and> NextSequence d = NextSequence c' \<and> Config_DeviceID d = Config_DeviceID c'"
  using config_Save_ok[OF assms] seal_keeps by fastforce

lemma enqueue_keeps:
  assumes "enqueue t endpoint payload cl w = (e, cl', w')"
  shows "cl_Queue cl' = cl_Queue cl" "ServerURL (cfg cl') = ServerURL (cfg cl)"
    "Config_DeviceID (cfg cl') = Config_DeviceID (cfg cl)" "net w' = net w" "tomls w' = tomls w"
  using assms by (cases rule: enqueue_cases; auto dest: config_Save_fields)+

text \<open>An item at the head survives every \<open>enqueue\<close> that happens before it expires.\<close>

lemma enqueue_head:
  assumes "enqueue t endpoint payload cl w = (e, cl', w')" and "pending_items (queue_file w) = Some (x # xs)"
    and "live (cl_Queue cl) (t_clock t 4) x"
  shows "\<exists>ys. pending_items (queue_file w') = Some (x # ys)"
  using assms(1)
proof (cases rule: enqueue_cases)
  case nothing
  with assms(2) show ?thesis by simp
next
  case (unsaved er c' s')
  with assms(2) show ?thesis by simp
next
  case (saved key rnd envelope c' s' er q)
  have "\<exists>ys. pending_items q = Some (x # ys)"
  proof (cases er)
    case None
    with file_queue.push_ok[OF assms(2)] saved(5) assms(3) show ?thesis by auto
  next
    case (Some er')
    with file_queue.push_error saved(5) assms(2) show ?thesis by metis
  qed
  with saved show ?thesis by simp
qed

definition refuses :: "('w, 'x) turn_scheme \<Rightarrow> string \<Rightarrow> json Item \<Rightarrow> bool" where
  "refuses t url x = (\<forall>n. \<exists>code body. fst (t_post t (url @ Endpoint x) (Envelope_data x) n) = Answer code body \<and>
     (code < 200 \<or> 300 \<le> code) \<and> \<not> unknown_device (Answer code body))"

lemma refused_flush:
  assumes "pending_items (queue_file w) = Some (x # xs)" and "refuses t (ServerURL (cfg cl)) x"
  shows "\<exists>code body. Flush t cl w = (Some (Rejected code body), cl,
    w\<lparr>net := snd (t_post t (ServerURL (cfg cl) @ Endpoint x) (Envelope_data x) (net w))\<rparr>)"
proof -
  obtain code body n where p: "t_post t (ServerURL (cfg cl) @ Endpoint x) (Envelope_data x) (net w) = (Answer code body, n)"
    "code < 200 \<or> 300 \<le> code" "\<not> unknown_device (Answer code body)"
    using assms(2) unfolding refuses_def by (metis fst_conv prod.collapse)
  have "Peek (queue_file w) = (Some x, None)" using file_queue.peek_pending[OF assms(1)] by simp
  with p show ?thesis
    by (subst Flush_def, subst Flush_loop_unfold) (auto simp: unknown_device_def)
qed


lemma enqueue_succeeds:
  assumes "b64_decode (PrivateKey (cfg cl)) = Some key" and "length key = 64" and "t_random t = Some rnd"
    and "supported payload" and "save_fault_of t = None" and "push_fault t = None"
    and "seal (t_secrets t) (Defaults (next_config cl)) = Inr d" and "pending_items (queue_file w) = Some items"
  shows "\<exists>cl' w'. enqueue t endpoint payload cl w = (None, cl', w')"
proof -
  obtain e where s: "Sign (t_crypto t) (Config_DeviceID (cfg cl)) (NextSequence (cfg cl)) (hex_encode rnd) payload key
      (t_clock t 2) = Inr e"
    using assms(2,4) by (simp add: Sign_def CanonicalJSON_supported Let_def)
  have c: "fst (config_Save (t_secrets t) None (next_config cl) (config_file w)) = None"
    using config_Save_None[OF assms(7)] by simp
  have "fst (Push (cl_Queue cl) (t_clock t 4) None (report_item t endpoint e) (queue_file w)) = None"
    by (rule file_queue.push_None[OF assms(8)])
  with s c Sign_supported[OF s] assms(1,3,5,6) show ?thesis
    by (auto simp: enqueue_def next_config_def report_item_def split: prod.splits)
qed

section \<open>A sample client\<close>

definition client_crypto :: crypto where
  "client_crypto = \<lparr>sha256 = (\<lambda>b. b), ed25519_sign = (\<lambda>k m. m)\<rparr>"

definition client_config :: Config where
  "client_config = Defaults (zero_config\<lparr>ServerURL := ''https://s'', Config_DeviceID := ''dev'',
     PrivateKey := b64_encode (replicate 64 CHR ''k''), CodexHome := ''/h'', NextSequence := 7\<rparr>)"

definition client_host :: host where
  "client_host = \<lparr>GOOS = ''linux'', cwd = Some ''/'', windows_paths = posix_paths None, Getenv = (\<lambda>_. []),
     UserHomeDir = None, Glob = (\<lambda>_. []), disk = (\<lambda>_. Inl NotExist)\<rparr>"

text \<open>Its server keeps the bodies it has been sent and gives the same answer to each.\<close>

definition client_turn :: "http \<Rightarrow> json list turn" where
  "client_turn answer =
     \<lparr>t_crypto = client_crypto, t_secrets = secrets_other, t_host = client_host,
      t_toml = (\<lambda>_. Some \<lparr>LogUserPrompt = Some False, Exporter = []\<rparr>), t_clock = (\<lambda>i. Time (int i)),
      t_random = Some (replicate 16 CHR ''r''), t_post = (\<lambda>url body n. (answer, n @ [body])),
      t_register = (\<lambda>url body n. (Answer 200 ''registered'', n)),
      t_enrolled = (\<lambda>_. Some \<lparr>enr_DeviceID = ''dev2'', enr_StudentName = ''s'', enr_DeviceLabel = ''l'',
         enr_OTLPToken = ''t'', enr_HeartbeatSeconds = 60, enr_UsageSeconds = 300, enr_IntegritySeconds = 300,
         enr_Timezone = ''UTC''\<rparr>),
      home_env = toml_fine, home_fault = None, save_fault_of = None, push_fault = None, pop_fault = (\<lambda>_. None),
      reenroll_env = toml_fine, clear_fault = None, reenroll_fault = None\<rparr>"

definition client_item :: "nat \<Rightarrow> json Item" where
  "client_item i = \<lparr>Endpoint = ''/api/v1/heartbeat'', CreatedAt = Time (int i),
     Envelope_data = JObj [(''device_id'', JStr ''dev''), (''sequence'', JNum (IntNum (int i)))]\<rparr>"

definition client_world :: "json Item list \<Rightarrow> json list world" where
  "client_world items =
     \<lparr>config_file = \<lparr>dest = Content client_config, temp = Absent\<rparr>,
      queue_file = \<lparr>dest = Content items, temp = Absent\<rparr>,
      tomls = (\<lambda>_. \<lparr>toml_config = NoFile, toml_backup = NoFile\<rparr>), integrity_file = empty_slot,
      otel_file = empty_slot, net = []\<rparr>"

definition sample_client :: Client where
  "sample_client = \<lparr>cfg = client_config, cl_Queue = New_queue 30, started = zero_time, quota = None,
     quotaRead = zero_time, homeRead = zero_time, homeSource = [], homeAuto = False\<rparr>"

lemma client_pending: "pending_items (queue_file (client_world items)) = Some items"
  by (simp add: client_world_def pending_Content)

lemma client_config_simps [simp]:
  "ServerURL client_config = ''https://s''" "Config_DeviceID client_config = ''dev''"
  "b64_decode (PrivateKey client_config) = Some (replicate 64 CHR ''k'')" "NextSequence client_config = 7"
  "Defaults client_config = client_config"
  by (simp_all add: client_config_def del: b64_encode.simps)

lemma client_enqueue:
  "\<exists>cl' w'. enqueue (client_turn answer) endpoint (JObj []) sample_client (client_world items) = (None, cl', w')"
proof (rule enqueue_succeeds[where key = "replicate 64 CHR ''k''"])
  show "length (replicate 64 CHR ''k'') = 64" by (rule length_replicate)
  show "seal (t_secrets (client_turn answer)) (Defaults (next_config sample_client)) =
      Inr ((Defaults (next_config sample_client))\<lparr>ProtectedPrivateKey := [], ProtectedOTLPToken := [],
        KeyProtection := ''root-owned-file''\<rparr>)"
    by (simp add: client_turn_def seal_other)
  show "pending_items (queue_file (client_world items)) = Some items" by (rule client_pending)
qed (simp_all add: sample_client_def client_turn_def)

section \<open>Properties\<close>

text \<open>
  C21: a report that \<open>enqueue\<close> accepts stands at the end of the durable queue, behind the reports that
  have not expired; its envelope carries the client's device id, the next sequence number and the
  payload, and is signed with the client's key over the message of these fields and the agent's own
  canonical text of the payload. When the payload consists of web-safe texts and plain numbers, this
  is the very message that \<open>signature_message\<close> of the server recomputes with \<open>json.dumps\<close>; for other
  payloads it need not be (C16). The sequence number has been consumed in memory and on disk.
\<close>

theorem enqueue_signs:
  assumes "enqueue t endpoint payload cl w = (None, cl', w')"
    and "pending_items (queue_file w) = Some items"
  shows "\<exists>envelope key m d. pending_items (queue_file w') =
      Some (filter (live (cl_Queue cl) (t_clock t 4)) items @ [report_item t endpoint envelope]) \<and>
    DeviceID envelope = Config_DeviceID (cfg cl) \<and> Sequence envelope = NextSequence (cfg cl) \<and>
    Payload envelope = payload \<and> b64_decode (PrivateKey (cfg cl)) = Some key \<and>
    envelope_message (t_crypto t) envelope = Some m \<and>
    (plain_numbers payload \<and> all_strings web_safe payload \<longrightarrow>
       m = signature_message (t_crypto t) (DeviceID envelope) (uint (Sequence envelope)) (Timestamp envelope)
             (EventID envelope) payload) \<and>
    Signature envelope = b64_encode (ed25519_sign (t_crypto t) key m) \<and>
    dest (config_file w') = Content d \<and> NextSequence d = NextSequence (cfg cl') \<and>
    NextSequence (cfg cl') =
      (if NextSequence (cfg cl) + 1 = 0 then 1 else NextSequence (cfg cl) + 1)"
  using assms(1)
proof (cases rule: enqueue_cases)
  case nothing
  then show ?thesis by simp
next
  case (unsaved er c' s')
  then show ?thesis by simp
next
  case (saved key rnd envelope c' s' er q)
  have "pending_items q = Some (filter (live (cl_Queue cl) (t_clock t 4)) items @ [report_item t endpoint envelope])"
    using file_queue.push_ok[OF assms(2)] saved(5,6) by auto
  moreover obtain m where "envelope_message (t_crypto t) envelope = Some m \<and>
      Signature envelope = b64_encode (ed25519_sign (t_crypto t) key m)"
    using Sign_message[OF saved(3)] by blast
  moreover obtain d where "dest s' = Content d \<and> NextSequence d = NextSequence c'"
    using config_Save_disk[OF saved(4)] by blast
  ultimately show ?thesis
    using Sign_fields[OF saved(3)] saved config_Save_fields(4)[OF saved(4)]
      signed_alike_message[of "t_crypto t" envelope m]
    by (intro exI[of _ envelope] exI[of _ key] exI[of _ m] exI[of _ d]) (simp add: signed_alike_def)
qed

theorem enqueue_signs_witness:
  "\<exists>cl' w' envelope. enqueue (client_turn NoAnswer) ''/api/v1/heartbeat'' (JObj []) sample_client (client_world []) = (None, cl', w') \<and>
     Sequence envelope = 7 \<and> DeviceID envelope = ''dev'' \<and> NextSequence (cfg cl') = 8 \<and>
     envelope_message (t_crypto (client_turn NoAnswer)) envelope =
       Some (signature_message (t_crypto (client_turn NoAnswer)) ''dev'' 7 (Timestamp envelope) (EventID envelope) (JObj [])) \<and>
     pending_items (queue_file w') = Some [report_item (client_turn NoAnswer) ''/api/v1/heartbeat'' envelope]"
proof -
  obtain cl' w' where e: "enqueue (client_turn NoAnswer) ''/api/v1/heartbeat'' (JObj []) sample_client (client_world []) =
      (None, cl', w')" using client_enqueue by blast
  from enqueue_signs[OF e client_pending] e show ?thesis by (auto simp: sample_client_def)
qed

text \<open>
  C7: \<open>Flush\<close> delivers in order and stops at the first failure. The items it posts are a prefix of the
  queue, each posted once and only after all earlier ones were answered with a 2xx status. Without
  an error the whole queue was accepted and is empty; after an error exactly the items before the
  last posted one are gone from the queue. The only other ending is the re-enrollment that an
  "unknown device" answer starts.
\<close>

theorem flush_in_order:
  assumes "Flush t cl w = (e, cl', w')" and "pending_items (queue_file w) = Some items"
  shows "\<exists>k n answers. k \<le> length items \<and> posted t cl (take k items) (net w) = (answers, n) \<and>
    list_all accepted_answer (butlast answers) \<and> flush_end t cl items answers n e cl' w'"
proof -
  obtain sent where "flush_run t cl w sent e cl' w'" using Flush_run[OF assms(1)] by blast
  from flush_run_posts[OF this assms(2)] show ?thesis by blast
qed

theorem flush_in_order_witness:
  "\<exists>cl' w' k n answers. Flush (client_turn (Answer 200 ''ok'')) sample_client (client_world [client_item 1, client_item 2]) = (None, cl', w') \<and>
     net w' = [Envelope_data (client_item 1), Envelope_data (client_item 2)] \<and>
     posted (client_turn (Answer 200 ''ok'')) sample_client (take k [client_item 1, client_item 2]) [] = (answers, n) \<and>
     flush_end (client_turn (Answer 200 ''ok'')) sample_client [client_item 1, client_item 2] answers n None cl' w'"
proof -
  let ?t = "client_turn (Answer 200 ''ok'')" and ?items = "[client_item 1, client_item 2]"
  have p: "t_post ?t url body n = (Answer 200 ''ok'', n @ [body])" "pop_fault ?t i = None" for url body n i
    by (simp_all add: client_turn_def)
  obtain cl' w' where f: "Flush ?t sample_client (client_world ?items) = (None, cl', w')"
    "net w' = map Envelope_data ?items"
    by (simp add: Flush_def Flush_loop_unfold p client_world_def Peek_def Pop_def queue_load_def queue_save_None)
  have "net (client_world ?items) = []" by (simp add: client_world_def)
  with f flush_in_order[OF f(1) client_pending] show ?thesis by fastforce
qed


text \<open>A sequence of reports, one turn each.\<close>

fun reports :: "('w turn \<times> string \<times> json) list \<Rightarrow> Client \<Rightarrow> 'w world \<Rightarrow> Client \<times> 'w world" where
  "reports [] cl w = (cl, w)"
| "reports ((t, endpoint, payload) # rs) cl w =
     (case report t endpoint payload cl w of (_, cl', w') \<Rightarrow> reports rs cl' w')"

text \<open>Posting one item again and again.\<close>

definition repost :: "string \<Rightarrow> json Item \<Rightarrow> 'w turn list \<Rightarrow> 'w \<Rightarrow> 'w" where
  "repost url x ts n = fold (\<lambda>t n. snd (t_post t (url @ Endpoint x) (Envelope_data x) n)) ts n"

text \<open>
  What the delivery cannot get past: a report that the server refuses with another answer than "unknown
  device", and a report of another device than the current one which the server does not know. For the
  second kind \<open>reEnrollIfCurrent\<close> has nothing to do, and \<open>Flush\<close> returns without an error.
\<close>

definition blocking :: "('w, 'x) turn_scheme \<Rightarrow> Config \<Rightarrow> json Item \<Rightarrow> bool" where
  "blocking t c x = (refuses t (ServerURL c) x \<or>
     ((\<forall>n. unknown_device (fst (t_post t (ServerURL c @ Endpoint x) (Envelope_data x) n))) \<and>
      (\<exists>d. stale_device (Envelope_data x) = Some d \<and> d \<noteq> Config_DeviceID c)))"

lemma blocked_flush:
  assumes "pending_items (queue_file w) = Some (x # xs)" and "blocking t (cfg cl) x"
  shows "\<exists>e. Flush t cl w = (e, cl, w\<lparr>net := snd (t_post t (ServerURL (cfg cl) @ Endpoint x) (Envelope_data x) (net w))\<rparr>) \<and>
    (refuses t (ServerURL (cfg cl)) x \<longrightarrow> e \<noteq> None)"
proof (cases "refuses t (ServerURL (cfg cl)) x")
  case True
  from refused_flush[OF assms(1) this] show ?thesis by blast
next
  case False
  with assms(2) obtain d where d: "stale_device (Envelope_data x) = Some d" "Config_DeviceID (cfg cl) \<noteq> d"
    and u: "unknown_device (fst (t_post t (ServerURL (cfg cl) @ Endpoint x) (Envelope_data x) (net w)))"
    unfolding blocking_def by blast
  obtain a n where p: "t_post t (ServerURL (cfg cl) @ Endpoint x) (Envelope_data x) (net w) = (a, n)"
    by (metis prod.collapse)
  with u obtain body where a: "a = Answer 401 body" "Contains (ToLower (take 4096 body)) ''unknown device''"
    by (auto simp: unknown_device_def split: http.splits)
  have "Peek (queue_file w) = (Some x, None)" using file_queue.peek_pending[OF assms(1)] by simp
  with p a d False show ?thesis
    by (subst Flush_def, subst Flush_loop_unfold) (simp add: reEnrollIfCurrent_def)
qed

lemma report_poisoned:
  assumes "report t endpoint payload cl w = (e, cl', w')" and "pending_items (queue_file w) = Some (x # xs)"
    and "blocking t (cfg cl) x" and "live (cl_Queue cl) (t_clock t 4) x"
  shows "(refuses t (ServerURL (cfg cl)) x \<longrightarrow> e \<noteq> None) \<and> (\<exists>ys. pending_items (queue_file w') = Some (x # ys)) \<and>
    cl_Queue cl' = cl_Queue cl \<and> ServerURL (cfg cl') = ServerURL (cfg cl) \<and>
    Config_DeviceID (cfg cl') = Config_DeviceID (cfg cl) \<and>
    (net w' = net w \<or> net w' = snd (t_post t (ServerURL (cfg cl) @ Endpoint x) (Envelope_data x) (net w)))"
proof -
  obtain er cl1 w1 where e: "enqueue t endpoint payload cl w = (er, cl1, w1)" by (metis prod.collapse)
  obtain ys where ys: "pending_items (queue_file w1) = Some (x # ys)"
    using enqueue_head[OF e assms(2,4)] by blast
  note k = enqueue_keeps[OF e]
  show ?thesis
  proof (cases er)
    case None
    have "blocking t (cfg cl1) x" using assms(3) k(2,3) by (simp add: blocking_def)
    from blocked_flush[OF ys this] obtain fe where "Flush t cl1 w1 = (fe, cl1,
        w1\<lparr>net := snd (t_post t (ServerURL (cfg cl1) @ Endpoint x) (Envelope_data x) (net w1))\<rparr>)"
      "refuses t (ServerURL (cfg cl1)) x \<longrightarrow> fe \<noteq> None" by blast
    with assms(1) e None ys k show ?thesis by (auto simp: report_def)
  next
    case (Some er')
    with assms(1) e ys k show ?thesis by (auto simp: report_def)
  qed
qed

text \<open>
  C37: head-of-line blocking. A report at the head of the queue that the server refuses for good, or
  that belongs to another device which the server does not know, keeps every later report from being
  sent until its retention period is over: after any number of reporting operations it is still there
  and the server has seen nothing but repetitions of it.
\<close>

theorem poison_blocks:
  assumes "pending_items (queue_file w) = Some (x # xs)"
    and "\<forall>(t, _) \<in> set rs. blocking t (cfg cl) x \<and> live (cl_Queue cl) (t_clock t 4) x"
    and "reports rs cl w = (cl', w')"
  shows "(\<exists>ys. pending_items (queue_file w') = Some (x # ys)) \<and>
    (\<exists>ts. set ts \<subseteq> fst ` set rs \<and> net w' = repost (ServerURL (cfg cl)) x ts (net w))"
  using assms
proof (induction rs arbitrary: cl w xs)
  case Nil
  then show ?case by (auto simp: repost_def intro!: exI[of _ "[]"])
next
  case (Cons r rs)
  obtain t endpoint payload where r: "r = (t, endpoint, payload)" by (cases r)
  obtain e cl1 w1 where rep: "report t endpoint payload cl w = (e, cl1, w1)" by (metis prod.collapse)
  have pre: "blocking t (cfg cl) x" "live (cl_Queue cl) (t_clock t 4) x" using Cons.prems(2) r by auto
  note p = report_poisoned[OF rep Cons.prems(1) pre]
  then obtain ys where ys: "pending_items (queue_file w1) = Some (x # ys)" by blast
  have "reports rs cl1 w1 = (cl', w')" using Cons.prems(3) r rep by simp
  have "\<forall>(t, _) \<in> set rs. blocking t (cfg cl1) x \<and> live (cl_Queue cl1) (t_clock t 4) x"
    using Cons.prems(2) p by (auto simp: blocking_def)
  from Cons.IH[OF ys this \<open>reports rs cl1 w1 = (cl', w')\<close>] p obtain zs ts where
    "pending_items (queue_file w') = Some (x # zs)" "set ts \<subseteq> fst ` set rs"
    "net w' = repost (ServerURL (cfg cl)) x ts (net w1)" by metis
  moreover have "repost u x (t # ts) n = repost u x ts (snd (t_post t (u @ Endpoint x) (Envelope_data x) n))" for u n
    by (simp add: repost_def)
  moreover have "set ts \<subseteq> fst ` set (r # rs)" "set (t # ts) \<subseteq> fst ` set (r # rs)"
    using \<open>set ts \<subseteq> fst ` set rs\<close> r by auto
  ultimately have "\<exists>ts. set ts \<subseteq> fst ` set (r # rs) \<and> net w' = repost (ServerURL (cfg cl)) x ts (net w)"
    using p by (elim conjE disjE) (rule exI[of _ ts], simp, rule exI[of _ "t # ts"], simp)
  then show ?case using \<open>pending_items (queue_file w') = Some (x # zs)\<close> by blast
qed

theorem poison_blocks_witness:
  "\<exists>ys ts. let w' = snd (reports (replicate 3 (client_turn (Answer 422 ''bad''), ''/api/v1/usage'', JObj []))
       sample_client (client_world [client_item 9])) in
     pending_items (queue_file w') = Some (client_item 9 # ys) \<and>
     net w' = repost ''https://s'' (client_item 9) ts []"
proof -
  let ?t = "client_turn (Answer 422 ''bad'')" and ?w = "client_world [client_item 9]"
  let ?rs = "replicate 3 (?t, ''/api/v1/usage'', JObj [])"
  obtain cl' w' where r: "reports ?rs sample_client ?w = (cl', w')" by (cases "reports ?rs sample_client ?w")
  have ref: "refuses ?t u (client_item 9)" for u
    by (auto simp: refuses_def client_turn_def unknown_device_def)
  have liv: "live (cl_Queue sample_client) (t_clock ?t 4) (client_item 9)"
    by (simp add: live_def expiry_def After_def less_go_time_def time_Add_def New_queue_def sample_client_def
        client_turn_def client_item_def wrap64_def hour_def minute_def second_def)
  have all: "\<forall>(t, _) \<in> set ?rs. blocking t (cfg sample_client) (client_item 9) \<and>
      live (cl_Queue sample_client) (t_clock t 4) (client_item 9)"
    using ref liv by (auto simp: blocking_def)
  have "ServerURL (cfg sample_client) = ''https://s''" "net ?w = []"
    by (simp_all add: sample_client_def client_world_def)
  with poison_blocks[OF client_pending all r] r show ?thesis by auto
qed

lemma reEnroll_changes:
  assumes "reEnrollIfCurrent t d cl w = (e, cl', w')" and "cfg cl' \<noteq> cfg cl"
  shows "Config_DeviceID (cfg cl) = d \<and> e = None \<and> dest (queue_file w') = Content [] \<and>
    NextSequence (cfg cl') = 1 \<and> PrivateKey (cfg cl') = PrivateKey (cfg cl) \<and>
    ServerURL (cfg cl') = ServerURL (cfg cl) \<and>
    (\<exists>enrolled n. register t (ServerURL (cfg cl)) (StudentName (cfg cl)) (DeviceLabel (cfg cl)) (PublicKey (cfg cl)) (net w) =
       (Inr enrolled, n) \<and> Config_DeviceID (cfg cl') = enr_DeviceID enrolled) \<and>
    (\<exists>disk. dest (config_file w') = Content disk \<and> NextSequence disk = 1 \<and> Config_DeviceID disk = Config_DeviceID (cfg cl'))"
  using assms(1)
proof (cases rule: reEnroll_cases)
  case other
  with assms(2) show ?thesis by simp
next
  case kept
  with assms(2) show ?thesis by simp
next
  case (renewed enrolled fp c')
  have e: "Config_DeviceID (enrolled_config enrolled c) = enr_DeviceID enrolled" "ServerURL (enrolled_config enrolled c) = ServerURL c"
    "PrivateKey (enrolled_config enrolled c) = PrivateKey c" for c
    by (simp_all add: enrolled_config_def)
  from config_Save_fields[OF renewed(5)] config_Save_disk[OF renewed(5)] renewed show ?thesis
    by (auto simp: e)
qed

lemma configure_fine:
  "toml_config fs \<noteq> NoRead \<Longrightarrow> (\<And>d. toml d \<noteq> None) \<Longrightarrow>
   \<exists>hash fs'. ConfigureTelemetry C toml toml_fine token fs = ((hash, None), fs')"
  by (auto simp: ConfigureTelemetry_def toml_fine_def written_def TelemetryFingerprint_def TelemetryStatus_def Let_def
      split: option.splits prod.splits)

lemma client_reenroll:
  assumes "toml_config (tomls w (pathKey client_host ''/h'')) \<noteq> NoRead"
  shows "\<exists>cl' w'. reEnrollIfCurrent (client_turn answer) ''dev'' sample_client w = (None, cl', w') \<and>
    Config_DeviceID (cfg cl') = ''dev2''"
proof -
  let ?t = "client_turn answer"
  obtain enrolled where r: "register ?t s a b c m = (Inr enrolled, m)" "enr_DeviceID enrolled = ''dev2''" for s a b c m
    by (auto simp: register_def client_turn_def)
  have h: "CodexHome (enrolled_config enrolled (cfg sample_client)) = ''/h''"
    by (simp add: enrolled_config_def sample_client_def client_config_def)
  obtain hash fs where c: "ConfigureTelemetry (t_crypto ?t) (t_toml ?t) (reenroll_env ?t) tok (tomls w (pathKey client_host ''/h'')) =
      ((hash tok, None), fs tok)" for tok
    using configure_fine[OF assms, of "t_toml ?t" "t_crypto ?t"] by (simp add: client_turn_def) metis
  note c' = c[of "OTLPToken (enrolled_config enrolled (cfg sample_client))"]
  have e: "Config_DeviceID (enrolled_config enrolled c) = ''dev2''" for c by (simp add: enrolled_config_def r)
  have f: "t_host ?t = client_host" "t_secrets ?t = secrets_other" "clear_fault ?t = None" "reenroll_fault ?t = None"
    by (simp_all add: client_turn_def)
  have d: "Config_DeviceID (cfg sample_client) = ''dev''" by (simp add: sample_client_def)
  show ?thesis
    by (simp add: reEnrollIfCurrent_def d r h c' f Clear_def queue_save_None config_Save_None[OF seal_other] Let_def e)
qed

text \<open>
  C13: the client gives up its device id only when the server has lost it. If \<open>Flush\<close> changes the
  configuration, some queued envelope of the current device was answered with 401 and "unknown
  device"; the new identity is the one the server has just issued for the same key, the sequence
  restarts at 1, in memory and on disk, and no report of the old identity is left in the queue.
\<close>

theorem reenroll_guarded:
  assumes "Flush t cl w = (e, cl', w')" and "cfg cl' \<noteq> cfg cl" and "pending_items (queue_file w) = Some items"
  shows "e = None \<and> dest (queue_file w') = Content [] \<and> NextSequence (cfg cl') = 1 \<and>
    PrivateKey (cfg cl') = PrivateKey (cfg cl) \<and> ServerURL (cfg cl') = ServerURL (cfg cl) \<and>
    (\<exists>disk. dest (config_file w') = Content disk \<and> NextSequence disk = 1 \<and>
       Config_DeviceID disk = Config_DeviceID (cfg cl')) \<and>
    (\<exists>k answers n enrolled n'. k < length items \<and> posted t cl (take (Suc k) items) (net w) = (answers, n) \<and>
       unknown_device (last answers) \<and> stale_device (Envelope_data (items ! k)) = Some (Config_DeviceID (cfg cl)) \<and>
       register t (ServerURL (cfg cl)) (StudentName (cfg cl)) (DeviceLabel (cfg cl)) (PublicKey (cfg cl)) n =
         (Inr enrolled, n') \<and> Config_DeviceID (cfg cl') = enr_DeviceID enrolled)"
proof -
  obtain sent where "flush_run t cl w sent e cl' w'" using Flush_run[OF assms(1)] by blast
  from flush_run_posts[OF this assms(3)] obtain k n answers where k: "k \<le> length items"
    "posted t cl (take k items) (net w) = (answers, n)" "flush_end t cl items answers n e cl' w'" by blast
  have l: "length answers = k" using posted_length[OF k(2)] k(1) by simp
  with k(3) assms(2) obtain d w1 where d: "0 < k" "unknown_device (last answers)"
    "stale_device (Envelope_data (items ! (k - 1))) = Some d" "net w1 = n" "reEnrollIfCurrent t d cl w1 = (e, cl', w')"
    by (auto simp: flush_end_def Let_def)
  from reEnroll_changes[OF d(5) assms(2)] d k(1,2) show ?thesis
    by (auto intro!: exI[of _ "k - 1"] simp: Suc_pred')
qed

theorem reenroll_guarded_witness:
  "\<exists>cl' w'. Flush (client_turn (Answer 401 ''unknown device'')) sample_client (client_world [client_item 3]) = (None, cl', w') \<and>
     Config_DeviceID (cfg cl') = ''dev2'' \<and> NextSequence (cfg cl') = 1 \<and> dest (queue_file w') = Content []"
proof -
  let ?t = "client_turn (Answer 401 ''unknown device'')" and ?w = "client_world [client_item 3]"
  have p: "t_post ?t url body n = (Answer 401 ''unknown device'', n @ [body])" for url body n
    by (simp add: client_turn_def)
  have u: "Contains (ToLower (take 4096 ''unknown device'')) ''unknown device''" by code_simp
  have sd: "stale_device (Envelope_data (client_item 3)) = Some ''dev''"
  proof -
    have "ToLower ''device_id'' = ''device_id''" "ToLower ''sequence'' = ''sequence''" by code_simp+
    then show ?thesis by (simp add: stale_device_def client_item_def stale_member_def)
  qed
  have "Peek (queue_file ?w) = (Some (client_item 3), None)"
    using file_queue.peek_pending[OF client_pending[of "[client_item 3]"]] by simp
  then have f: "Flush ?t sample_client ?w = reEnrollIfCurrent ?t ''dev'' sample_client (?w\<lparr>net := [Envelope_data (client_item 3)]\<rparr>)"
    using u sd by (subst Flush_def, subst Flush_loop_unfold) (simp add: p, simp add: client_world_def)
  obtain cl' w' where c: "reEnrollIfCurrent ?t ''dev'' sample_client (?w\<lparr>net := [Envelope_data (client_item 3)]\<rparr>) = (None, cl', w')"
    "Config_DeviceID (cfg cl') = ''dev2''"
    using client_reenroll[of "?w\<lparr>net := [Envelope_data (client_item 3)]\<rparr>"] by (force simp: client_world_def)
  then have "cfg cl' \<noteq> cfg sample_client" by (auto simp: sample_client_def)
  with c f reenroll_guarded[OF _ this client_pending] show ?thesis by auto
qed


section \<open>Termination\<close>

lemma flush_passes_state:
  "flush_passes t cl k w = Inr w' \<Longrightarrow>
   Len (queue_file w') + k \<le> Len (queue_file w) \<and> Flush_loop t 0 cl w = Flush_loop t k cl w'"
proof (induction k arbitrary: w')
  case (Suc k)
  then obtain w1 where w1: "flush_passes t cl k w = Inr w1" "flush_pass t k cl w1 = Inr w'"
    by (auto split: sum.splits)
  from flush_pass_shrinks[OF w1(2)] have "Len (queue_file w') < Len (queue_file w1)" .
  moreover have "Flush_loop t k cl w1 = Flush_loop t (Suc k) cl w'" using w1(2) by (simp add: Flush_loop.simps[of t k])
  ultimately show ?case using Suc.IH[OF w1(1)] by auto
qed simp

text \<open>
  C8: \<open>Flush\<close> terminates. Whatever the network answers and whatever fails on disk, one of the first
  \<open>n + 1\<close> passes of its loop returns, where \<open>n\<close> is the number of queued reports, and what that pass returns
  is the result of the call; as a pass makes one request at most, so many requests are made at most.
\<close>

theorem flush_terminates:
  "\<exists>k \<le> Len (queue_file w). \<exists>w1. flush_passes t cl k w = Inr w1 \<and> flush_pass t k cl w1 = Inl (Flush t cl w)"
proof (rule ccontr)
  assume no: "\<not> ?thesis"
  have "\<exists>w1. flush_passes t cl k w = Inr w1" if "k \<le> Suc (Len (queue_file w))" for k
    using that
  proof (induction k)
    case (Suc k)
    then obtain w1 where w1: "flush_passes t cl k w = Inr w1" by auto
    show ?case
    proof (cases "flush_pass t k cl w1")
      case (Inl r)
      with flush_passes_state[OF w1] have "Flush t cl w = r" by (simp add: Flush_def Flush_loop.simps[of t k])
      with no w1 Inl Suc.prems show ?thesis by auto
    qed (simp add: w1)
  qed simp
  from this[OF order_refl] flush_passes_state[of t cl "Suc (Len (queue_file w))" w] show False by fastforce
qed

end
