(* ===== verification/Posture.thy ===== *)
theory Posture
  imports Config
begin

text \<open>
  \<open>internal/agent/posture.go\<close>, \<open>posture_other.go\<close>, \<open>posture_windows.go\<close>: what the agent observes of its
  own installation. The files, the permission bits and the commands it asks for are fields of a
  \<open>system\<close> record; the two build variants of \<open>inspectMonitorPosture\<close> are two definitions.
\<close>

unbundle bit_operations_syntax

record MonitorPosture =
  posture_OS :: string
  ServiceManager :: string
  ServiceInstalled :: bool
  ServiceRunning :: bool
  AutoStartOK :: bool
  RestartPolicyOK :: bool
  WatchdogExpected :: bool
  WatchdogOK :: bool
  AgentPermissionsOK :: bool
  ConfigPermissionsOK :: bool
  posture_KeyProtection :: string
  ServiceFingerprint :: string

text \<open>
  \<open>ReadFile\<close> tells whether the error is nil, and the data. \<open>StatMode\<close> gives the permission bits and, where
  \<open>Sys()\<close> is a \<open>Stat_t\<close>, the owner. \<open>CommandRun\<close> is a command that exits with status 0, \<open>CombinedOutput\<close>
  the combined output of a command whatever its status.
\<close>

record system =
  runtime_GOOS :: string
  ReadFile :: "string \<Rightarrow> bool \<times> string"
  StatMode :: "string \<Rightarrow> (32 word \<times> nat option) option"
  CommandRun :: "string list \<Rightarrow> bool"
  CombinedOutput :: "string list \<Rightarrow> string"

definition commandOK :: "system \<Rightarrow> string list \<Rightarrow> bool" where
  "commandOK S args = CommandRun S args"

definition windowsOutput :: "system \<Rightarrow> string list \<Rightarrow> string" where
  "windowsOutput S args = CombinedOutput S args"

definition unit_separator :: string where
  "unit_separator = CHR 0x0A # ''---'' @ [CHR 0x0A]"

definition clean_part :: "string \<Rightarrow> string" where
  "clean_part part = TrimSpace (crlf_to_lf part)"

definition postureFingerprint :: "crypto \<Rightarrow> string list \<Rightarrow> string" where
  "postureFingerprint C parts = sha256_hex C (join_with unit_separator (map clean_part parts))"

section \<open>Linux and macOS\<close>

definition rootOwnedNotWritableByUsers :: "system \<Rightarrow> string \<Rightarrow> bool" where
  "rootOwnedNotWritableByUsers S path =
     (case StatMode S path of
        None \<Rightarrow> False
      | Some (perm, owner) \<Rightarrow> if perm AND 18 \<noteq> 0 then False else owner = Some 0)"

definition zero_posture :: "system \<Rightarrow> string \<Rightarrow> Config \<Rightarrow> MonitorPosture" where
  "zero_posture S configPath c =
     \<lparr>posture_OS = runtime_GOOS S, ServiceManager = [], ServiceInstalled = False, ServiceRunning = False,
      AutoStartOK = False, RestartPolicyOK = False, WatchdogExpected = False, WatchdogOK = False,
      AgentPermissionsOK = rootOwnedNotWritableByUsers S (AgentPath c),
      ConfigPermissionsOK = rootOwnedNotWritableByUsers S configPath,
      posture_KeyProtection = KeyProtection c, ServiceFingerprint = []\<rparr>"

definition linux_posture :: "system \<Rightarrow> MonitorPosture \<Rightarrow> MonitorPosture \<times> string" where
  "linux_posture S p =
     (case ReadFile S ''/etc/systemd/system/codex-guard.service'' of (ok, unit) \<Rightarrow>
      case ReadFile S ''/etc/systemd/system/codex-guard-watchdog.timer'' of (timer_ok, timer) \<Rightarrow>
        (p\<lparr>ServiceManager := ''systemd'', ServiceInstalled := ok,
           ServiceRunning := commandOK S [''systemctl'', ''is-active'', ''--quiet'', ''codex-guard.service''],
           AutoStartOK := commandOK S [''systemctl'', ''is-enabled'', ''--quiet'', ''codex-guard.service''],
           RestartPolicyOK := Contains unit ''Restart=always'' \<and> Contains unit ''RestartSec=5''
             \<and> Contains unit ''NoNewPrivileges=true'',
           WatchdogExpected := True,
           WatchdogOK := timer_ok \<and> Contains timer ''OnUnitActiveSec=2min''
             \<and> commandOK S [''systemctl'', ''is-enabled'', ''--quiet'', ''codex-guard-watchdog.timer'']\<rparr>,
         unit @ [CHR 0x0A] @ timer))"

definition darwin_posture :: "system \<Rightarrow> MonitorPosture \<Rightarrow> MonitorPosture \<times> string" where
  "darwin_posture S p =
     (case ReadFile S ''/Library/LaunchDaemons/com.openai.codex-guard.plist'' of (ok, plist) \<Rightarrow>
      case ReadFile S ''/Library/LaunchDaemons/com.openai.codex-guard-watchdog.plist'' of (timer_ok, timer) \<Rightarrow>
        (p\<lparr>ServiceManager := ''launchd'', ServiceInstalled := ok,
           ServiceRunning := commandOK S [''launchctl'', ''print'', ''system/com.openai.codex-guard''],
           AutoStartOK := Contains plist ''<key>RunAtLoad</key><true/>'',
           RestartPolicyOK := Contains plist ''<key>KeepAlive</key><true/>'',
           WatchdogExpected := True,
           WatchdogOK := timer_ok \<and> Contains timer ''<key>StartInterval</key><integer>120</integer>''
             \<and> commandOK S [''launchctl'', ''print'', ''system/com.openai.codex-guard-watchdog'']\<rparr>,
         plist @ [CHR 0x0A] @ timer))"

definition inspect_other :: "crypto \<Rightarrow> system \<Rightarrow> string \<Rightarrow> Config \<Rightarrow> MonitorPosture" where
  "inspect_other C S configPath c =
     (let p = zero_posture S configPath c
      in case (if runtime_GOOS S = ''linux'' then linux_posture S p
               else if runtime_GOOS S = ''darwin'' then darwin_posture S p
               else (p\<lparr>ServiceManager := ''unsupported'', WatchdogExpected := False, WatchdogOK := True\<rparr>, []))
         of (q, unit_text) \<Rightarrow> q\<lparr>ServiceFingerprint := postureFingerprint C [runtime_GOOS S, unit_text]\<rparr>)"

section \<open>Windows\<close>

definition protectedWindowsACL :: "system \<Rightarrow> string \<Rightarrow> bool" where
  "protectedWindowsACL S path =
     (let upper = ToUpper (windowsOutput S [''powershell.exe'', ''-NoLogo'', ''-NoProfile'', ''-NonInteractive'',
                    ''-Command'', ''$p=$args[0]; (Get-Acl -LiteralPath $p).Sddl'', path])
      in if \<not> Contains upper '';;;SY)'' \<or> \<not> Contains upper '';;;BA)'' then False
         else \<not> list_ex (Contains upper) ['';;;BU)'', '';;;WD)'', '';;;AU)''])"

definition inspect_windows :: "crypto \<Rightarrow> system \<Rightarrow> string \<Rightarrow> Config \<Rightarrow> MonitorPosture" where
  "inspect_windows C S configPath c =
     (let query = windowsOutput S [''sc.exe'', ''query'', ''CodexGuard''];
          qc = windowsOutput S [''sc.exe'', ''qc'', ''CodexGuard''];
          failure = windowsOutput S [''sc.exe'', ''qfailure'', ''CodexGuard''];
          watchdog = windowsOutput S [''schtasks.exe'', ''/Query'', ''/TN'', ''CodexGuardWatchdog'', ''/XML'']
      in \<lparr>posture_OS = runtime_GOOS S, ServiceManager = ''windows-scm'',
          ServiceInstalled = Contains (ToUpper qc) ''SERVICE_NAME'' \<and> Contains (ToUpper qc) ''CODEXGUARD'',
          ServiceRunning = Contains (ToUpper query) ''RUNNING'',
          AutoStartOK = Contains (ToUpper qc) ''AUTO_START'',
          RestartPolicyOK = (Count (ToUpper failure) ''RESTART'' \<ge> 2),
          WatchdogExpected = True,
          WatchdogOK = Contains (ToUpper watchdog) ''CODEX-GUARD.EXE'' \<and> Contains (ToUpper watchdog) ''WATCHDOG'',
          AgentPermissionsOK = protectedWindowsACL S (AgentPath c),
          ConfigPermissionsOK = protectedWindowsACL S configPath,
          posture_KeyProtection = KeyProtection c,
          ServiceFingerprint = postureFingerprint C [qc, failure, watchdog]\<rparr>)"

definition inspectMonitorPosture :: "crypto \<Rightarrow> system \<Rightarrow> string \<Rightarrow> Config \<Rightarrow> MonitorPosture" where
  "inspectMonitorPosture C S configPath c =
     (if runtime_GOOS S = ''windows'' then inspect_windows C S configPath c else inspect_other C S configPath c)"

section \<open>What the fingerprint sees\<close>

lemma fingerprint_same:
  assumes "postureFingerprint C ps = postureFingerprint C qs"
  shows "join_with unit_separator (map clean_part ps) = join_with unit_separator (map clean_part qs) \<or>
    collide C (join_with unit_separator (map clean_part ps)) (join_with unit_separator (map clean_part qs))"
  using assms unfolding postureFingerprint_def by (metis sha256_hex_collide)

text \<open>The text that the fingerprint of a Linux installation is made of.\<close>

definition linux_units :: "system \<Rightarrow> string" where
  "linux_units S = snd (ReadFile S ''/etc/systemd/system/codex-guard.service'') @ [CHR 0x0A]
     @ snd (ReadFile S ''/etc/systemd/system/codex-guard-watchdog.timer'')"

lemma linux_fingerprint:
  "runtime_GOOS S = ''linux'' \<Longrightarrow>
   ServiceFingerprint (inspectMonitorPosture C S p c) = postureFingerprint C [''linux'', linux_units S]"
  by (simp add: inspectMonitorPosture_def inspect_other_def linux_posture_def linux_units_def Let_def
      split: prod.splits)

end
