(* ===== verification/Reports.thy ===== *)
theory Reports
  imports Client Posture
begin

text \<open>
  The reporting operations of the client: \<open>Heartbeat\<close>, \<open>SecurityEvent\<close> (\<open>client.go\<close>), \<open>Usage\<close> (\<open>usage.go\<close>),
  \<open>OTelUsage\<close> (\<open>otel.go\<close>), \<open>Integrity\<close> (\<open>integrity.go\<close>) and the cached quota (\<open>quota.go\<close>). A \<open>cycle\<close> extends a
  turn with what the payloads read from the machine.

  The index of a clock reading names the place of the source that reads it: 0 to 4 belong to the
  client, 5 and 6 to the quota cache, 7 to the uptime, 8 to the usage window.
\<close>

record UsageDay =
  ud_Date :: string
  ud_InputTokens :: uint64
  ud_CacheReadTokens :: uint64
  ud_OutputTokens :: uint64
  ud_ReasoningOutputTokens :: uint64
  ud_TotalTokens :: uint64

record 'w cycle = "'w turn" +
  c_file :: "string \<Rightarrow> bytes option"
  c_run :: "string list \<Rightarrow> (string \<times> string) list \<Rightarrow> string option"
  c_GOARCH :: string
  c_system :: system
  c_slice :: slice_sort
  c_reader :: quota_reader
  c_iteration :: iteration
  c_entropy :: entropy
  c_scan_fault :: "save_fault option"
  c_days_order :: "(string \<times> normalizedUsage) list \<Rightarrow> (string \<times> normalizedUsage) list"
  c_location :: "string \<Rightarrow> (go_time \<Rightarrow> int) option"
  c_ccusage :: "string \<Rightarrow> UsageDay list option"

datatype report_err =
    ClientErr client_err
  | TimezoneErr | CCUsageFailed | CCUsageParse
  | ScanErr integrity_err

definition home_node :: "host \<Rightarrow> string \<Rightarrow> node" where
  "home_node h p = (case disk h p of Inl e \<Rightarrow> NoStat e | Inr n \<Rightarrow> n)"

section \<open>Fingerprints of files and paths\<close>

definition shaFile :: "crypto \<Rightarrow> (string \<Rightarrow> bytes option) \<Rightarrow> string \<Rightarrow> string" where
  "shaFile C file path = (case file path of None \<Rightarrow> ''unavailable'' | Some b \<Rightarrow> sha256_hex C b)"

definition opaquePath :: "crypto \<Rightarrow> host \<Rightarrow> string \<Rightarrow> string" where
  "opaquePath C h path = sha256_hex C (Clean (paths h) path)"

section \<open>The cached quota\<close>

definition quotaRefreshInterval :: duration where
  "quotaRefreshInterval = 5 * minute"

definition cachedQuota :: "('w, 'x) cycle_scheme \<Rightarrow> Client \<Rightarrow> QuotaSnapshot option \<times> Client" where
  "cachedQuota t cl =
     (if \<not> IsZero (quotaRead cl) \<and> time_Sub (t_clock t 5) (quotaRead cl) < quotaRefreshInterval then (quota cl, cl)
      else
        let cl1 = cl\<lparr>quotaRead := t_clock t 6\<rparr>
        in case LatestQuota (c_slice t) (c_reader t) (home_node (t_host t) (CodexHome (cfg cl))) of
             Inr (Some q) \<Rightarrow> (Some q, cl1\<lparr>quota := Some q\<rparr>)
           | _ \<Rightarrow> (quota cl1, cl1))"

section \<open>Heartbeat\<close>

text \<open>Whole seconds of a duration; the source goes through \<open>float64\<close>, exact up to some months.\<close>

definition whole_seconds :: "duration \<Rightarrow> int" where
  "whole_seconds d = (if d < 0 then - (- d div second) else d div second)"

text \<open>The map literal, its keys in the order in which \<open>json.Marshal\<close> writes them.\<close>

definition heartbeat_payload :: "('w, 'x) cycle_scheme \<Rightarrow> Client \<Rightarrow> text_file \<Rightarrow> QuotaSnapshot option \<Rightarrow> json" where
  "heartbeat_payload t cl toml_text q =
     (let c = cfg cl; C = t_crypto t
      in case TelemetryStatus C (t_toml t) toml_text (OTLPToken c) of (configHash, configOK, _) \<Rightarrow>
        JObj ([(''agent_sha256'', JStr (shaFile C (c_file t) (AgentPath c))), (''agent_version'', JStr Version),
               (''arch'', JStr (c_GOARCH t)),
               (''ccusage_sha256'', JStr (shaFile C (c_file t) (CCUsagePath c))),
               (''ccusage_version'', JStr (CCUsageVersion (c_run t [CCUsagePath c, ''--version''] []))),
               (''codex_home'', JStr (opaquePath C (t_host t) (CodexHome c))),
               (''codex_home_auto_discovered'', JBool (homeAuto cl)), (''codex_home_source'', JStr (homeSource cl)),
               (''codex_version'', JStr (CodexVersion (c_run t [CodexPath c, ''--version''] []))),
               (''config_fingerprint'', JStr configHash), (''os'', JStr (GOOS (t_host t)))]
              @ (case q of None \<Rightarrow> [] | Some s \<Rightarrow> [(''quota'', quota_json s)])
              @ [(''telemetry_config_ok'', JBool configOK),
                 (''uptime_seconds'', JNum (IntNum (whole_seconds (time_Sub (t_clock t 7) (started cl)))))]))"

text \<open>The pattern of all operations that start with \<open>refreshCodexHome\<close>.\<close>

definition after_refresh ::
  "('w, 'x) cycle_scheme \<Rightarrow> (Client \<Rightarrow> 'w world \<Rightarrow> report_err option \<times> Client \<times> 'w world) \<Rightarrow> Client \<Rightarrow> 'w world \<Rightarrow>
     report_err option \<times> Client \<times> 'w world" where
  "after_refresh t body cl w =
     (case refreshCodexHome t cl w of
        (Some e, cl1, w1) \<Rightarrow> (Some (ClientErr e), cl1, w1)
      | (None, cl1, w1) \<Rightarrow> body cl1 w1)"

definition send ::
  "('w, 'x) cycle_scheme \<Rightarrow> string \<Rightarrow> json \<Rightarrow> Client \<Rightarrow> 'w world \<Rightarrow> report_err option \<times> Client \<times> 'w world" where
  "send t endpoint payload cl w = (case report t endpoint payload cl w of (e, r) \<Rightarrow> (map_option ClientErr e, r))"

definition Heartbeat :: "('w, 'x) cycle_scheme \<Rightarrow> Client \<Rightarrow> 'w world \<Rightarrow> report_err option \<times> Client \<times> 'w world" where
  "Heartbeat t =
     after_refresh t (\<lambda>cl w.
       let toml_text = toml_config (tomls w (pathKey (t_host t) (CodexHome (cfg cl))))
       in case cachedQuota t cl of (q, cl1) \<Rightarrow>
            send t ''/api/v1/heartbeat'' (heartbeat_payload t cl1 toml_text q) cl1 w)"

definition SecurityEvent ::
  "('w, 'x) cycle_scheme \<Rightarrow> string \<Rightarrow> json \<Rightarrow> Client \<Rightarrow> 'w world \<Rightarrow> report_err option \<times> Client \<times> 'w world" where
  "SecurityEvent t eventType details cl w =
     send t ''/api/v1/events'' (JObj [(''details'', details), (''event_type'', JStr eventType)]) cl w"

section \<open>Usage\<close>

text \<open>\<open>c_ccusage\<close> is \<open>json.Unmarshal\<close> of the output of \<open>ccusage\<close>, its field \<open>daily\<close>.\<close>

definition normalize_day :: "UsageDay \<Rightarrow> normalizedUsage" where
  "normalize_day d =
     \<lparr>usage_Date = ud_Date d, InputTokens = ud_InputTokens d, CachedInputTokens = ud_CacheReadTokens d,
      OutputTokens = ud_OutputTokens d, ReasoningOutputTokens = ud_ReasoningOutputTokens d,
      TotalTokens = ud_TotalTokens d\<rparr>"

definition CollectUsage ::
  "('w, 'x) cycle_scheme \<Rightarrow> string \<Rightarrow> string \<Rightarrow> string \<Rightarrow> go_time \<Rightarrow> int \<Rightarrow> report_err + normalizedUsage list" where
  "CollectUsage t ccusagePath codexHome timezone now retentionDays =
     (case c_location t timezone of
        None \<Rightarrow> Inl TimezoneErr
      | Some offset \<Rightarrow>
          let local = time_Add now (offset now * second);
              until = format_date local;
              since = format_date (time_Add local (- retentionDays * 24 * hour))
          in (case c_run t [ccusagePath, ''codex'', ''daily'', ''--json'', ''--no-cost'', ''--offline'',
                     ''--timezone'', timezone, ''--since'', since, ''--until'', until]
                     [(''CODEX_HOME'', codexHome), (''NO_COLOR'', ''1'')] of
                None \<Rightarrow> Inl CCUsageFailed
              | Some output \<Rightarrow> (case c_ccusage t output of None \<Rightarrow> Inl CCUsageParse | Some days \<Rightarrow> Inr (map normalize_day days))))"

definition usage_payload :: "string \<Rightarrow> normalizedUsage list \<Rightarrow> json" where
  "usage_payload source days = JObj [(''days'', JArr (map usage_json days)), (''source'', JStr source)]"

definition Usage :: "('w, 'x) cycle_scheme \<Rightarrow> Client \<Rightarrow> 'w world \<Rightarrow> report_err option \<times> Client \<times> 'w world" where
  "Usage t =
     after_refresh t (\<lambda>cl w.
       case CollectUsage t (CCUsagePath (cfg cl)) (CodexHome (cfg cl)) (Timezone (cfg cl)) (t_clock t 8)
              (RetentionDays (cfg cl)) of
         Inl e \<Rightarrow> (Some e, cl, w)
       | Inr days \<Rightarrow> send t ''/api/v1/usage'' (usage_payload ''local'' days) cl w)"

definition OTelUsage :: "('w, 'x) cycle_scheme \<Rightarrow> Client \<Rightarrow> 'w world \<Rightarrow> report_err option \<times> Client \<times> 'w world" where
  "OTelUsage t cl w =
     (case otel_payload (c_days_order t) (otel_file w) of
        None \<Rightarrow> (None, cl, w)
      | Some payload \<Rightarrow> send t ''/api/v1/usage'' payload cl w)"

section \<open>Integrity\<close>

definition posture_json :: "MonitorPosture \<Rightarrow> json" where
  "posture_json p =
     JObj [(''os'', JStr (posture_OS p)), (''service_manager'', JStr (ServiceManager p)),
           (''service_installed'', JBool (ServiceInstalled p)), (''service_running'', JBool (ServiceRunning p)),
           (''auto_start_ok'', JBool (AutoStartOK p)), (''restart_policy_ok'', JBool (RestartPolicyOK p)),
           (''watchdog_expected'', JBool (WatchdogExpected p)), (''watchdog_ok'', JBool (WatchdogOK p)),
           (''agent_permissions_ok'', JBool (AgentPermissionsOK p)),
           (''config_permissions_ok'', JBool (ConfigPermissionsOK p)),
           (''key_protection'', JStr (posture_KeyProtection p)),
           (''service_fingerprint'', JStr (ServiceFingerprint p))]"

definition integrity_json :: "IntegrityPayload \<Rightarrow> MonitorPosture \<Rightarrow> json" where
  "integrity_json p posture =
     JObj ([(''files_checked'', JNum (IntNum (int (FilesChecked p)))), (''status'', JStr (Status p)),
            (''findings'', JArr (map finding_json (Findings p))),
            (''file_metadata'', JArr (map metadata_json (Metadata p))),
            (''state_id'', JStr (pay_state p)), (''scan_sequence'', JNum (IntNum (uint (pay_sequence p))))]
           @ opt_str ''previous_snapshot_hash'' (PreviousSnapshotHash p)
           @ [(''snapshot_hash'', JStr (SnapshotHash p)), (''monitor_posture'', posture_json posture)])"

definition Integrity :: "('w, 'x) cycle_scheme \<Rightarrow> string \<Rightarrow> Client \<Rightarrow> 'w world \<Rightarrow> report_err option \<times> Client \<times> 'w world" where
  "Integrity t configPath =
     after_refresh t (\<lambda>cl w.
       case ScanIntegrity (t_crypto t) (c_iteration t) (c_entropy t) (c_scan_fault t)
              (home_node (t_host t) (CodexHome (cfg cl))) (integrity_file w) of
         (Inl e, s) \<Rightarrow> (Some (ScanErr e), cl, w\<lparr>integrity_file := s\<rparr>)
       | (Inr p, s) \<Rightarrow>
           send t ''/api/v1/integrity''
             (integrity_json p (inspectMonitorPosture (t_crypto t) (c_system t) configPath (cfg cl)))
             cl (w\<lparr>integrity_file := s\<rparr>))"


section \<open>What an operation leaves behind\<close>

lemma reported:
  "send t endpoint payload cl w = (e, cl', w') \<Longrightarrow> enqueue t endpoint payload cl w = (Some er, cl1, w1) \<Longrightarrow>
   e = Some (ClientErr er) \<and> cl' = cl1 \<and> w' = w1"
  by (auto simp: send_def report_def)

lemma enqueue_failed_queue:
  assumes "enqueue t endpoint payload cl w = (Some er, cl1, w1)"
  shows "pending_items (queue_file w1) = pending_items (queue_file w)" and "integrity_file w1 = integrity_file w"
proof -
  have "pending_items (queue_file w1) = pending_items (queue_file w) \<and> integrity_file w1 = integrity_file w"
    using assms
  proof (cases rule: enqueue_cases)
    case (saved key rnd envelope c' s' pe q)
    obtain x where "pe = Some x" using saved(6) by (cases pe) auto
    with saved(5,8) file_queue.push_error[of "cl_Queue cl"] show ?thesis by simp
  qed simp_all
  then show "pending_items (queue_file w1) = pending_items (queue_file w)" "integrity_file w1 = integrity_file w"
    by simp_all
qed

section \<open>Properties\<close>

text \<open>
  C40: a finding can be lost. \<open>Integrity\<close> saves the new checkpoints before it queues the report. If the
  report cannot be queued, because the queue file is broken or the configuration cannot be saved,
  the operation fails, nothing is queued, and the next scan of the same logs compares with the new
  checkpoints: it reports status OK and no finding, whatever the failed report contained.
\<close>

theorem lost_findings:
  assumes "refreshCodexHome t cl w = (None, cl, w)"
    and "ScanIntegrity (t_crypto t) (c_iteration t) (c_entropy t) (c_scan_fault t)
      (home_node (t_host t) (CodexHome (cfg cl))) (integrity_file w) = (Inr p, s1)"
    and "\<And>payload. \<exists>e cl1 w1. enqueue t ''/api/v1/integrity'' payload cl (w\<lparr>integrity_file := s1\<rparr>) = (Some e, cl1, w1)"
    and "Integrity t configPath cl w = (e, cl', w')"
    and "wf_node (home_node (t_host t) (CodexHome (cfg cl)))" and "iterates it"
    and "discoverLogs (home_node (t_host t) (CodexHome (cfg cl))) = Inr logs"
    and "\<forall>lg \<in> set logs. \<exists>b m. fst (snd lg) = File b m"
  shows "e \<noteq> None \<and> pending_items (queue_file w') = pending_items (queue_file w) \<and>
    (\<exists>p2 s2. ScanIntegrity (t_crypto t) it rnd None (home_node (t_host t) (CodexHome (cfg cl))) (integrity_file w') =
       (Inr p2, s2) \<and> Status p2 = ''OK'' \<and> Findings p2 = [])"
proof -
  let ?json = "integrity_json p (inspectMonitorPosture (t_crypto t) (c_system t) configPath (cfg cl))"
  obtain er cl1 w1 where q: "enqueue t ''/api/v1/integrity'' ?json cl (w\<lparr>integrity_file := s1\<rparr>) = (Some er, cl1, w1)"
    using assms(3) by blast
  have "send t ''/api/v1/integrity'' ?json cl (w\<lparr>integrity_file := s1\<rparr>) = (e, cl', w')"
    using assms(1,2,4) by (simp add: Integrity_def after_refresh_def)
  from reported[OF this q] have r: "e = Some (ClientErr er)" "w' = w1" by simp_all
  have s: "integrity_file w' = s1" "pending_items (queue_file w') = pending_items (queue_file w)"
    using enqueue_failed_queue[OF q] r(2) by simp_all
  have "\<exists>p2 s2. ScanIntegrity (t_crypto t) it rnd None (home_node (t_host t) (CodexHome (cfg cl))) s1 = (Inr p2, s2) \<and>
      Status p2 = ''OK'' \<and> Findings p2 = []"
    by (rule appended_scan[OF assms(6,5,5,2,7,7,8)]) (auto simp: intact_def split: prod.splits)
  with r(1) s show ?thesis by simp
qed


section \<open>A sample cycle\<close>

definition sample_cycle :: "bytes option \<Rightarrow> json list cycle" where
  "sample_cycle rnd =
     (turn.extend (client_turn (Answer 200 ''ok''))
       (cycle.fields (\<lambda>_. None) (\<lambda>_ _. None) ''amd64''
         \<lparr>runtime_GOOS = ''linux'', ReadFile = (\<lambda>_. (False, [])), StatMode = (\<lambda>_. None), CommandRun = (\<lambda>_. False),
          CombinedOutput = (\<lambda>_. [])\<rparr>
         (\<lambda>_ xs. xs) sample_reader in_order sample_entropy None (\<lambda>xs. xs) (\<lambda>_. Some (\<lambda>_. 0)) (\<lambda>_. None)))
     \<lparr>t_host := client_host\<lparr>disk := (\<lambda>_. Inr (sample_home [(''a.jsonl'', ''x'')] []))\<rparr>, t_random := rnd\<rparr>"

lemma sample_cycle_simps [simp]:
  "t_random (sample_cycle rnd) = rnd" "t_crypto (sample_cycle rnd) = client_crypto"
  "t_secrets (sample_cycle rnd) = secrets_other" "t_clock (sample_cycle rnd) i = Time (int i)"
  "home_node (t_host (sample_cycle rnd)) p = sample_home [(''a.jsonl'', ''x'')] []"
  "c_iteration (sample_cycle rnd) = in_order" "c_entropy (sample_cycle rnd) = sample_entropy"
  "c_scan_fault (sample_cycle rnd) = None"
  by (simp_all add: sample_cycle_def turn.defs cycle.defs client_turn_def home_node_def)

text \<open>A client that has just looked for the Codex home.\<close>

definition settled_client :: Client where "settled_client = sample_client\<lparr>homeRead := Time 1\<rparr>"

lemma settled_home: "refreshCodexHome (sample_cycle rnd) settled_client w = (None, settled_client, w)"
  by (simp add: refreshCodexHome_def settled_client_def IsZero_def zero_time_def time_Sub_def sat64_def minute_def
      second_def max_int64_def min_int64_def)

lemma no_randomness:
  "\<exists>e cl1 w1. enqueue (sample_cycle None) endpoint payload cl w = (Some e, cl1, w1)"
  by (simp add: enqueue_def split: option.split)

theorem lost_findings_witness:
  "\<exists>w e cl' w' p s p2 s2.
     ScanIntegrity client_crypto in_order sample_entropy None (sample_home [(''a.jsonl'', ''x'')] []) (integrity_file w) = (Inr p, s) \<and>
     Integrity (sample_cycle None) ''/c'' settled_client w = (Some e, cl', w') \<and>
     pending_items (queue_file w') = pending_items (queue_file w) \<and>
     ScanIntegrity client_crypto in_order sample_entropy None (sample_home [(''a.jsonl'', ''x'')] []) (integrity_file w') = (Inr p2, s2) \<and>
     Findings p2 = []"
proof -
  let ?w = "client_world []" and ?h = "sample_home [(''a.jsonl'', ''x'')] []"
  obtain p s where 1: "ScanIntegrity client_crypto in_order sample_entropy None ?h (integrity_file ?w) = (Inr p, s)"
    using sample_first_scan[of client_crypto in_order sample_entropy "''x''"] by (auto simp: client_world_def)
  obtain e cl' w' where i: "Integrity (sample_cycle None) ''/c'' settled_client ?w = (e, cl', w')"
    by (metis prod.collapse)
  have all: "\<forall>lg \<in> set [(''sessions/a.jsonl'', File ''x'' (Time 0), False)]. \<exists>b m. fst (snd lg) = File b m" by simp
  have "e \<noteq> None \<and> pending_items (queue_file w') = pending_items (queue_file ?w) \<and>
      (\<exists>p2 s2. ScanIntegrity client_crypto in_order sample_entropy None ?h (integrity_file w') = (Inr p2, s2) \<and>
         Status p2 = ''OK'' \<and> Findings p2 = [])"
    using lost_findings[of "sample_cycle None", OF settled_home _ no_randomness i _ in_order_iterates _ all] 1
    by (simp add: sample_wf sample_logs)
  with i 1 show ?thesis by blast
qed

end
