(* ===== verification/ChainAudit.thy ===== *)
theory ChainAudit
  imports Reports Verifier
begin

text \<open>
  The chain of integrity snapshots from end to end: the handler \<open>/api/v1/integrity\<close> of
  \<open>server/app/main.py\<close> with the schema of \<open>server/app/schemas.py\<close>, on the reports that \<open>ScanIntegrity\<close> of the
  agent makes. An honest agent never raises a chain alarm, and a scan that was not reported, a lost and a
  restored state file each raise theirs.
\<close>

section \<open>The decoded payload\<close>

text \<open>
  A field that may be None is the same whether it is absent or null; the lists may be absent but not null. The keys
  of an object are distinct. The conversions of pydantic (a numeric text or an integral float for an integer) are left
  out, since the agent writes integers.
\<close>

definition member :: "string \<Rightarrow> json \<Rightarrow> json" where
  "member k v = (case v of JObj kvs \<Rightarrow> (case map_of kvs k of Some m \<Rightarrow> m | None \<Rightarrow> JNull) | _ \<Rightarrow> JNull)"

definition as_text :: "json \<Rightarrow> string option" where
  "as_text v = (case v of JStr s \<Rightarrow> Some s | _ \<Rightarrow> None)"

definition as_int :: "json \<Rightarrow> int option" where
  "as_int v = (case v of JNum n \<Rightarrow> (case n of IntNum i \<Rightarrow> Some i | _ \<Rightarrow> None) | _ \<Rightarrow> None)"

definition as_rows :: "json \<Rightarrow> json list" where
  "as_rows v = (case v of JArr vs \<Rightarrow> vs | _ \<Rightarrow> [])"

definition is_array :: "json \<Rightarrow> bool" where
  "is_array v = (case v of JArr vs \<Rightarrow> True | _ \<Rightarrow> False)"

definition is_rows :: "string \<Rightarrow> json \<Rightarrow> bool" where
  "is_rows k v = (case v of JObj kvs \<Rightarrow> (case map_of kvs k of Some m \<Rightarrow> is_array m | None \<Rightarrow> True) | _ \<Rightarrow> False)"

definition keys_in :: "string list \<Rightarrow> json \<Rightarrow> bool" where
  "keys_in ks v = (case v of JObj kvs \<Rightarrow> list_all (\<lambda>kv. fst kv \<in> set ks) kvs | _ \<Rightarrow> False)"

definition hex_text :: "nat \<Rightarrow> string \<Rightarrow> bool" where
  "hex_text n s = (length s = n \<and> list_all is_hex s)"

definition text_with :: "(string \<Rightarrow> bool) \<Rightarrow> json \<Rightarrow> bool" where
  "text_with P v = (case v of JStr s \<Rightarrow> P s | _ \<Rightarrow> False)"

definition int_from :: "int \<Rightarrow> json \<Rightarrow> bool" where
  "int_from lo v = (case as_int v of Some i \<Rightarrow> lo \<le> i | None \<Rightarrow> False)"

definition is_bool :: "json \<Rightarrow> bool" where
  "is_bool v = (case v of JBool b \<Rightarrow> True | _ \<Rightarrow> False)"

definition optional :: "(json \<Rightarrow> bool) \<Rightarrow> json \<Rightarrow> bool" where
  "optional P v = (v = JNull \<or> P v)"

text \<open>Lengths are those of the texts in code points; the fields in question are hexadecimal.\<close>

definition file_fields :: "string list" where
  "file_fields = [''opaque_file_id'', ''size'', ''prefix_size'', ''prefix_sha256'', ''full_sha256'', ''archived'', ''mtime_unix'']"

definition valid_file :: "json \<Rightarrow> bool" where
  "valid_file r =
     (keys_in file_fields r \<and> text_with (\<lambda>s. 16 \<le> length s \<and> length s \<le> 64) (member ''opaque_file_id'' r) \<and>
      int_from 0 (member ''size'' r) \<and> int_from 0 (member ''prefix_size'' r) \<and>
      text_with (hex_text 64) (member ''prefix_sha256'' r) \<and> optional (text_with (hex_text 64)) (member ''full_sha256'' r) \<and>
      is_bool (member ''archived'' r) \<and> as_int (member ''mtime_unix'' r) \<noteq> None)"

definition event_types :: "string list" where
  "event_types =
     [''AGENT_BINARY_MODIFIED'', ''CCUSAGE_BINARY_MODIFIED'', ''TELEMETRY_CONFIG_CHANGED'', ''CODEX_HOME_CHANGED'',
      ''LOG_PREFIX_MODIFIED'', ''LOG_TRUNCATED'', ''LOG_DELETED'', ''ARCHIVED_LOG_MODIFIED'', ''USAGE_SOURCE_MISMATCH'',
      ''AGENT_UNINSTALL_REQUESTED'', ''SERVICE_STOPPED_OR_MODIFIED'', ''SERVICE_RESTART_FAILED'',
      ''SERVICE_CONFIGURATION_CHANGED'', ''SERVICE_AUTOSTART_DISABLED'', ''SERVICE_RECOVERY_DISABLED'',
      ''WATCHDOG_DISABLED'', ''AGENT_PERMISSIONS_WEAKENED'', ''CONFIG_PERMISSIONS_WEAKENED'', ''KEY_PROTECTION_WEAK'',
      ''INTEGRITY_STATE_RESET'', ''INTEGRITY_STATE_ROLLBACK'', ''INTEGRITY_CHAIN_BROKEN'',
      ''INTEGRITY_SNAPSHOT_HASH_INVALID'']"

definition finding_fields :: "string list" where
  "finding_fields = [''event_type'', ''severity'', ''opaque_file_id'', ''old_size'', ''new_size'']"

definition valid_finding :: "json \<Rightarrow> bool" where
  "valid_finding r =
     (keys_in finding_fields r \<and> text_with (\<lambda>s. s \<in> set event_types) (member ''event_type'' r) \<and>
      text_with (\<lambda>s. s \<in> {''INFO'', ''WARNING'', ''CRITICAL''}) (member ''severity'' r) \<and>
      optional (text_with (\<lambda>s. length s \<le> 64)) (member ''opaque_file_id'' r) \<and>
      optional (int_from 0) (member ''old_size'' r) \<and> optional (int_from 0) (member ''new_size'' r))"

definition posture_flags :: "string list" where
  "posture_flags =
     [''service_installed'', ''service_running'', ''auto_start_ok'', ''restart_policy_ok'', ''watchdog_expected'',
      ''watchdog_ok'', ''agent_permissions_ok'', ''config_permissions_ok'']"

definition valid_posture :: "json \<Rightarrow> bool" where
  "valid_posture r =
     (keys_in ([''os'', ''service_manager'', ''key_protection'', ''service_fingerprint''] @ posture_flags) r \<and>
      text_with (\<lambda>s. s \<in> {''linux'', ''darwin'', ''windows''}) (member ''os'' r) \<and>
      text_with (\<lambda>s. s \<in> {''systemd'', ''launchd'', ''windows-scm'', ''unsupported''}) (member ''service_manager'' r) \<and>
      list_all (\<lambda>k. is_bool (member k r)) posture_flags \<and>
      text_with (\<lambda>s. 1 \<le> length s \<and> length s \<le> 64) (member ''key_protection'' r) \<and>
      text_with (hex_text 64) (member ''service_fingerprint'' r))"

definition payload_fields :: "string list" where
  "payload_fields = [''files_checked'', ''status'', ''findings'', ''file_metadata'', ''state_id'', ''scan_sequence'',
     ''previous_snapshot_hash'', ''snapshot_hash'', ''monitor_posture'']"

text \<open>The validator \<open>complete_chain\<close>: the three fields of the chain come together.\<close>

definition complete_chain :: "json \<Rightarrow> bool" where
  "complete_chain p =
     (let present = map (\<lambda>k. member k p \<noteq> JNull) [''state_id'', ''scan_sequence'', ''snapshot_hash'']
      in (list_ex id present \<longrightarrow> list_all id present) \<and>
         (member ''previous_snapshot_hash'' p \<noteq> JNull \<longrightarrow> list_all id present))"

definition valid_integrity :: "json \<Rightarrow> bool" where
  "valid_integrity p =
     (keys_in payload_fields p \<and>
      (case as_int (member ''files_checked'' p) of Some n \<Rightarrow> 0 \<le> n \<and> n \<le> 1000000 | None \<Rightarrow> False) \<and>
      text_with (\<lambda>s. s \<in> {''OK'', ''TAMPER'', ''UNKNOWN''}) (member ''status'' p) \<and>
      is_rows ''findings'' p \<and> is_rows ''file_metadata'' p \<and>
      length (as_rows (member ''findings'' p)) \<le> 1000 \<and> list_all valid_finding (as_rows (member ''findings'' p)) \<and>
      length (as_rows (member ''file_metadata'' p)) \<le> 10000 \<and> list_all valid_file (as_rows (member ''file_metadata'' p)) \<and>
      optional (text_with (hex_text 32)) (member ''state_id'' p) \<and> optional (int_from 1) (member ''scan_sequence'' p) \<and>
      optional (text_with (hex_text 64)) (member ''previous_snapshot_hash'' p) \<and>
      optional (text_with (hex_text 64)) (member ''snapshot_hash'' p) \<and>
      optional valid_posture (member ''monitor_posture'' p) \<and> complete_chain p)"

section \<open>The handler\<close>

text \<open>\<open>model_dump(exclude_none=True)\<close>: the fields of the schema that are present, in the order of the schema.\<close>

definition model_dump :: "string list \<Rightarrow> json \<Rightarrow> json" where
  "model_dump ks r = JObj (concat (map (\<lambda>k. if member k r = JNull then [] else [(k, member k r)]) ks))"

definition chain_document :: "json \<Rightarrow> json" where
  "chain_document p =
     JObj [(''state_id'', member ''state_id'' p), (''sequence'', member ''scan_sequence'' p),
           (''previous_hash'', if member ''previous_snapshot_hash'' p = JNull then JStr [] else member ''previous_snapshot_hash'' p),
           (''files'', JArr (map (model_dump file_fields) (as_rows (member ''file_metadata'' p)))),
           (''findings'', JArr (map (model_dump finding_fields) (as_rows (member ''findings'' p))))]"

datatype alarm = HashInvalid | StateReset | StateRollback | ChainBroken

text \<open>The metadata of the newest stored snapshot of the device, as far as the chain needs it.\<close>

record snapshot_row =
  row_state :: "string option"
  row_sequence :: "int option"
  row_hash :: "string option"

definition truthy :: "string option \<Rightarrow> bool" where
  "truthy s = (s \<noteq> None \<and> s \<noteq> Some [])"

definition chain_alarms :: "snapshot_row option \<Rightarrow> json \<Rightarrow> alarm list" where
  "chain_alarms previous p =
     (let state = as_text (member ''state_id'' p); seq = as_int (member ''scan_sequence'' p);
          previous_state = Option.bind previous row_state; previous_sequence = Option.bind previous row_sequence;
          previous_hash = Option.bind previous row_hash
      in if truthy previous_state \<and> previous_state \<noteq> state then [StateReset]
         else if previous_sequence \<noteq> None \<and> the seq \<le> the previous_sequence then [StateRollback]
         else if truthy previous_hash \<and> as_text (member ''previous_snapshot_hash'' p) \<noteq> previous_hash then [ChainBroken]
         else [])"

definition audit_chain :: "crypto \<Rightarrow> snapshot_row option \<Rightarrow> json \<Rightarrow> alarm list \<times> snapshot_row" where
  "audit_chain C previous p =
     (let state = as_text (member ''state_id'' p); seq = as_int (member ''scan_sequence'' p);
          reported = as_text (member ''snapshot_hash'' p); calculated = sha256_hex C (py_dumps (chain_document p))
      in if truthy state \<and> seq \<notin> {None, Some 0} \<and> truthy reported
         then ((if Some calculated \<noteq> reported then [HashInvalid] else []) @ chain_alarms previous p,
               \<lparr>row_state = state, row_sequence = seq, row_hash = Some calculated\<rparr>)
         else ([], \<lparr>row_state = state, row_sequence = seq, row_hash = reported\<rparr>))"

text \<open>\<open>None\<close> is the answer 422, which stores nothing.\<close>

definition integrity_handler :: "crypto \<Rightarrow> snapshot_row option \<Rightarrow> json \<Rightarrow> (alarm list \<times> snapshot_row) option" where
  "integrity_handler C previous p = (if valid_integrity p then Some (audit_chain C previous p) else None)"


section \<open>The agent's report as the server reads it\<close>

lemma member_integrity:
  "member ''state_id'' (integrity_json p q) = JStr (pay_state p)"
  "member ''scan_sequence'' (integrity_json p q) = JNum (IntNum (uint (pay_sequence p)))"
  "member ''previous_snapshot_hash'' (integrity_json p q) =
     (if PreviousSnapshotHash p = [] then JNull else JStr (PreviousSnapshotHash p))"
  "member ''snapshot_hash'' (integrity_json p q) = JStr (SnapshotHash p)"
  "member ''findings'' (integrity_json p q) = JArr (map finding_json (Findings p))"
  "member ''file_metadata'' (integrity_json p q) = JArr (map metadata_json (Metadata p))"
  "member ''files_checked'' (integrity_json p q) = JNum (IntNum (int (FilesChecked p)))"
  "member ''status'' (integrity_json p q) = JStr (Status p)"
  "member ''monitor_posture'' (integrity_json p q) = posture_json q"
  "is_rows ''findings'' (integrity_json p q)" "is_rows ''file_metadata'' (integrity_json p q)"
  by (simp_all add: member_def integrity_json_def opt_str_def is_rows_def is_array_def)

lemma member_metadata:
  "member ''opaque_file_id'' (metadata_json m) = JStr (meta_id m)"
  "member ''size'' (metadata_json m) = JNum (IntNum (meta_size m))"
  "member ''prefix_size'' (metadata_json m) = JNum (IntNum (meta_prefix_size m))"
  "member ''prefix_sha256'' (metadata_json m) = JStr (meta_prefix m)"
  "member ''full_sha256'' (metadata_json m) = (if meta_full m = [] then JNull else JStr (meta_full m))"
  "member ''archived'' (metadata_json m) = JBool (meta_archived m)"
  "member ''mtime_unix'' (metadata_json m) = JNum (IntNum (meta_mtime m))"
  by (simp_all add: member_def metadata_json_def opt_str_def)

lemma member_finding:
  "member ''event_type'' (finding_json f) = JStr (EventType f)"
  "member ''severity'' (finding_json f) = JStr (Severity f)"
  "member ''opaque_file_id'' (finding_json f) = (if find_id f = [] then JNull else JStr (find_id f))"
  "member ''old_size'' (finding_json f) = (case OldSize f of None \<Rightarrow> JNull | Some i \<Rightarrow> JNum (IntNum i))"
  "member ''new_size'' (finding_json f) = (case NewSize f of None \<Rightarrow> JNull | Some i \<Rightarrow> JNum (IntNum i))"
  by (simp_all add: member_def finding_json_def opt_str_def opt_int_def split: option.split)

lemma member_posture:
  "member ''os'' (posture_json q) = JStr (posture_OS q)"
  "member ''service_manager'' (posture_json q) = JStr (ServiceManager q)"
  "member ''key_protection'' (posture_json q) = JStr (posture_KeyProtection q)"
  "member ''service_fingerprint'' (posture_json q) = JStr (ServiceFingerprint q)"
  "list_all (\<lambda>k. is_bool (member k (posture_json q))) posture_flags"
  by (simp_all add: member_def posture_json_def posture_flags_def is_bool_def)

lemma dump_metadata: "model_dump file_fields (metadata_json m) = metadata_json m"
  unfolding model_dump_def file_fields_def
  by (simp add: member_metadata) (simp add: metadata_json_def opt_str_def)

lemma dump_finding: "model_dump finding_fields (finding_json f) = finding_json f"
  unfolding model_dump_def finding_fields_def
  by (simp add: member_finding split: option.split) (simp add: finding_json_def opt_str_def opt_int_def)

text \<open>The document that the server hashes is the one that the agent has hashed.\<close>

lemma chain_document_integrity:
  "chain_document (integrity_json p q) =
     chain_json (pay_state p) (pay_sequence p) (PreviousSnapshotHash p) (Metadata p) (Findings p)"
  by (simp add: chain_document_def member_integrity as_rows_def comp_def dump_metadata dump_finding chain_json_def)

lemmas decoded = as_text_def as_int_def as_rows_def optional_def text_with_def int_from_def is_bool_def

section \<open>Reports that both sides write alike\<close>

abbreviation small :: "int \<Rightarrow> bool" where "small i \<equiv> 0 \<le> i \<and> i < 2 ^ 53"

definition tidy_metadata :: "FileMetadata \<Rightarrow> bool" where
  "tidy_metadata m =
     (hex_text 32 (meta_id m) \<and> small (meta_size m) \<and> meta_prefix_size m = meta_size m \<and> hex_text 64 (meta_prefix m) \<and>
      (meta_full m = [] \<or> hex_text 64 (meta_full m)) \<and> \<bar>meta_mtime m\<bar> < 2 ^ 53)"

definition tidy_finding :: "Finding \<Rightarrow> bool" where
  "tidy_finding f =
     (EventType f \<in> {''ARCHIVED_LOG_MODIFIED'', ''LOG_TRUNCATED'', ''LOG_PREFIX_MODIFIED'', ''LOG_DELETED''} \<and>
      Severity f = ''CRITICAL'' \<and> hex_text 32 (find_id f) \<and> (\<exists>i. OldSize f = Some i \<and> small i) \<and>
      (NewSize f = None \<or> (\<exists>i. NewSize f = Some i \<and> small i)))"

definition tidy_payload :: "IntegrityPayload \<Rightarrow> bool" where
  "tidy_payload p =
     (FilesChecked p \<le> 500 \<and> length (Findings p) \<le> 1000 \<and> length (Metadata p) \<le> 500 \<and>
      Status p \<in> {''OK'', ''TAMPER''} \<and>
      (\<forall>m \<in> set (Metadata p). tidy_metadata m) \<and> (\<forall>f \<in> set (Findings p). tidy_finding f) \<and>
      hex_text 32 (pay_state p) \<and> 0 < uint (pay_sequence p) \<and> uint (pay_sequence p) < 2 ^ 53 \<and>
      (PreviousSnapshotHash p = [] \<or> hex_text 64 (PreviousSnapshotHash p)) \<and> hex_text 64 (SnapshotHash p))"

lemma web_safe_chars: "\<forall>c \<in> set s. c \<notin> {CHR ''<'', CHR ''>'', CHR ''&'', CHR 0xE2} \<Longrightarrow> web_safe s"
  by (induction s) (auto simp: line_sep_def split: list.splits)

declare web_safe.simps [simp del]

lemma hex_web_safe: "list_all is_hex s \<Longrightarrow> web_safe s"
proof (rule web_safe_chars, rule ballI)
  fix c
  assume "list_all is_hex s" and "c \<in> set s"
  then have "is_hex c" by (simp add: list_all_iff)
  then show "c \<notin> {CHR ''<'', CHR ''>'', CHR ''&'', CHR 0xE2}" by (auto simp: is_hex_def is_digit_def)
qed

lemma hex_text_safe: "hex_text n s \<Longrightarrow> web_safe s"
  by (simp add: hex_text_def hex_web_safe)

lemma hex_text_not_Nil: "hex_text n s \<Longrightarrow> 0 < n \<Longrightarrow> s \<noteq> []"
  by (auto simp: hex_text_def)

lemma hex_text_encode: "hex_text (2 * length b) (hex_encode b)"
  using hex_encode_chars[of _ b] by (simp add: hex_text_def list_all_iff)

lemma safe_words:
  "web_safe ''state_id''" "web_safe ''sequence''" "web_safe ''previous_hash''" "web_safe ''files''" "web_safe ''findings''"
  "web_safe ''opaque_file_id''" "web_safe ''size''" "web_safe ''prefix_size''" "web_safe ''prefix_sha256''"
  "web_safe ''full_sha256''" "web_safe ''archived''" "web_safe ''mtime_unix''" "web_safe ''event_type''"
  "web_safe ''severity''" "web_safe ''old_size''" "web_safe ''new_size''" "web_safe ''CRITICAL''"
  "web_safe ''ARCHIVED_LOG_MODIFIED''" "web_safe ''LOG_TRUNCATED''" "web_safe ''LOG_PREFIX_MODIFIED''"
  "web_safe ''LOG_DELETED''"
  by (simp_all add: web_safe.simps line_sep_def)

lemma tidy_metadata_json:
  assumes "tidy_metadata m"
  shows "all_strings web_safe (metadata_json m) \<and> plain_numbers (metadata_json m) \<and> valid_file (metadata_json m)"
proof -
  have "keys_in file_fields (metadata_json m)" by (simp add: keys_in_def file_fields_def metadata_json_def opt_str_def)
  then have "valid_file (metadata_json m)"
    using assms by (auto simp: tidy_metadata_def valid_file_def member_metadata decoded hex_text_def)
  moreover have "all_strings web_safe (metadata_json m) \<and> plain_numbers (metadata_json m)"
    using assms by (auto simp: tidy_metadata_def metadata_json_def opt_str_def safe_words plain_num_def hex_text_safe)
  ultimately show ?thesis by blast
qed

lemma tidy_finding_json:
  assumes "tidy_finding f"
  shows "all_strings web_safe (finding_json f) \<and> plain_numbers (finding_json f) \<and> valid_finding (finding_json f)"
proof -
  have k: "keys_in finding_fields (finding_json f)"
    by (simp add: keys_in_def finding_fields_def finding_json_def opt_str_def opt_int_def split: option.split)
  have e: "EventType f \<in> set event_types" "web_safe (EventType f)" "web_safe (Severity f)"
    using assms by (simp_all only: tidy_finding_def event_types_def) (auto simp: safe_words)
  have i: "hex_text 32 (find_id f)" "Severity f = ''CRITICAL''" using assms by (auto simp: tidy_finding_def)
  obtain o' where o: "OldSize f = Some o'" "small o'" using assms by (auto simp: tidy_finding_def)
  have n: "NewSize f = None \<or> (\<exists>n. NewSize f = Some n \<and> small n)" using assms by (simp add: tidy_finding_def)
  have "valid_finding (finding_json f)"
    using k e i o n by (auto simp: valid_finding_def member_finding decoded hex_text_def)
  moreover have "all_strings web_safe (finding_json f) \<and> plain_numbers (finding_json f)"
    using e i o n hex_text_safe[OF i(1)]
    by (auto simp: finding_json_def opt_str_def opt_int_def safe_words plain_num_def)
  ultimately show ?thesis by blast
qed


text \<open>For a tidy payload the schema is satisfied and the server recomputes the agent's hash.\<close>

lemma tidy_valid:
  assumes "tidy_payload p" and "valid_posture (posture_json q)"
  shows "valid_integrity (integrity_json p q)"
proof -
  have "keys_in payload_fields (integrity_json p q)"
    by (simp add: keys_in_def payload_fields_def integrity_json_def opt_str_def)
  moreover have "complete_chain (integrity_json p q)"
    by (simp add: complete_chain_def Let_def member_integrity)
  ultimately show ?thesis using assms tidy_metadata_json tidy_finding_json
    by (auto simp: tidy_payload_def valid_integrity_def member_integrity decoded list_all_iff)
qed

lemma tidy_chain_text:
  assumes "tidy_payload p"
  shows "CanonicalJSON (chain_json (pay_state p) (pay_sequence p) (PreviousSnapshotHash p) (Metadata p) (Findings p)) =
    Inr (py_dumps (chain_json (pay_state p) (pay_sequence p) (PreviousSnapshotHash p) (Metadata p) (Findings p)))"
proof -
  let ?d = "chain_json (pay_state p) (pay_sequence p) (PreviousSnapshotHash p) (Metadata p) (Findings p)"
  have "web_safe (pay_state p)" "web_safe (PreviousSnapshotHash p)"
    using assms hex_text_safe by (auto simp: tidy_payload_def web_safe.simps)
  then have "all_strings web_safe ?d" "plain_numbers ?d"
    using assms tidy_metadata_json tidy_finding_json
    by (auto simp: chain_json_def tidy_payload_def safe_words plain_num_def)
  then show ?thesis using canonical_is_py_dumps[OF chain_supported] by blast
qed

lemma tidy_ids: "tidy_payload p \<Longrightarrow> pay_state p \<noteq> [] \<and> SnapshotHash p \<noteq> []"
  by (auto simp: tidy_payload_def hex_text_def)

text \<open>What the handler makes of it: the alarms of the chain only, and a row with exactly the values of the agent.\<close>

definition row_of :: "IntegrityPayload \<Rightarrow> snapshot_row" where
  "row_of p = \<lparr>row_state = Some (pay_state p), row_sequence = Some (uint (pay_sequence p)), row_hash = Some (SnapshotHash p)\<rparr>"

definition self_hashed :: "crypto \<Rightarrow> IntegrityPayload \<Rightarrow> bool" where
  "self_hashed C p =
     (map_sum id (sha256_hex C) (CanonicalJSON (chain_json (pay_state p) (pay_sequence p) (PreviousSnapshotHash p)
        (Metadata p) (Findings p))) = Inr (SnapshotHash p))"

lemma audit_tidy:
  assumes "tidy_payload p" and "valid_posture (posture_json q)" and "self_hashed C p"
  shows "integrity_handler C previous (integrity_json p q) = Some (chain_alarms previous (integrity_json p q), row_of p)"
proof -
  have "sha256_hex C (py_dumps (chain_document (integrity_json p q))) = SnapshotHash p"
    using assms(3) by (simp add: self_hashed_def tidy_chain_text[OF assms(1)] chain_document_integrity)
  moreover have "pay_state p \<noteq> []" "SnapshotHash p \<noteq> []" "uint (pay_sequence p) \<noteq> 0"
    using assms(1) by (auto simp: tidy_payload_def hex_text_def)
  ultimately show ?thesis using tidy_valid[OF assms(1,2)]
    by (simp add: integrity_handler_def audit_chain_def member_integrity as_text_def as_int_def truthy_def row_of_def)
qed

text \<open>The alarms, over the values of the two payloads.\<close>

lemma chain_alarms_rows:
  assumes "pay_state p1 \<noteq> []" and "SnapshotHash p1 \<noteq> []"
  shows "chain_alarms (Some (row_of p1)) (integrity_json p2 q) =
    (if pay_state p2 \<noteq> pay_state p1 then [StateReset]
     else if uint (pay_sequence p2) \<le> uint (pay_sequence p1) then [StateRollback]
     else if PreviousSnapshotHash p2 \<noteq> SnapshotHash p1 then [ChainBroken] else [])"
  using assms by (auto simp: chain_alarms_def row_of_def member_integrity as_text_def as_int_def truthy_def)

lemma chain_alarms_first: "chain_alarms None v = []"
  by (simp add: chain_alarms_def truthy_def)

section \<open>What a scan reports\<close>

text \<open>A home of at most 500 logs, none larger than \<open>2^53\<close> bytes, with times in that range too.\<close>

definition modest_home :: "node \<Rightarrow> bool" where
  "modest_home home =
     (case discoverLogs home of
        Inl _ \<Rightarrow> True
      | Inr logs \<Rightarrow> length logs \<le> 500 \<and>
          (\<forall>(r, n, a) \<in> set logs. case n of File b t \<Rightarrow> int (length b) < 2 ^ 53 \<and> \<bar>time_Unix t\<bar> < 2 ^ 53 | _ \<Rightarrow> True))"

definition tidy_checkpoint :: "checkpoint \<Rightarrow> bool" where
  "tidy_checkpoint cp = (hex_text 32 (cp_id cp) \<and> small (cp_size cp))"

definition tidy_state :: "integrityState \<Rightarrow> bool" where
  "tidy_state st =
     (hex_text 32 (StateID st) \<and> (LastSnapshotHash st = [] \<or> hex_text 64 (LastSnapshotHash st)) \<and>
      length (Files st) \<le> 500 \<and> (\<forall>(r, cp) \<in> set (Files st). tidy_checkpoint cp))"

text \<open>The lengths of a SHA-256 digest and of a random identifier.\<close>

definition sized :: "crypto \<Rightarrow> entropy \<Rightarrow> bool" where
  "sized C rnd = ((\<forall>b. length (sha256 C b) = 32) \<and> (\<forall>site. length (rnd site) = 16))"

lemma sized_hash: "sized C rnd \<Longrightarrow> hex_text 64 (sha256_hex C b)"
  using hex_text_encode[of "sha256 C b"] by (simp add: sized_def sha256_hex_def)

lemma sized_id: "sized C rnd \<Longrightarrow> hex_text 32 (opaqueID rnd site)"
  using hex_text_encode[of "rnd site"] by (simp add: sized_def opaqueID_def)

text \<open>A file id is that of an old checkpoint or a fresh one.\<close>

definition id_source :: "entropy \<Rightarrow> checkpoints \<Rightarrow> string \<Rightarrow> bool" where
  "id_source rnd old i = ((\<exists>r cp. (r, cp) \<in> set old \<and> i = cp_id cp) \<or> (\<exists>site. i = opaqueID rnd site))"

lemma scan_ids:
  "scan_logs C it rnd old sc lgs = Inr sc' \<Longrightarrow> iterates it \<Longrightarrow>
   (\<forall>rc \<in> set (next_files sc'). rc \<in> set (next_files sc) \<or> id_source rnd old (cp_id (snd rc)))"
proof (induction lgs arbitrary: sc)
  case (Cons lg lgs)
  then obtain sc1 where sc1: "scan_step C it rnd old sc lg = Inr sc1" "scan_logs C it rnd old sc1 lgs = Inr sc'"
    by (auto split: sum.splits)
  from sc1(1) have "\<exists>rc. next_files sc1 = next_files sc @ [rc] \<and> id_source rnd old (cp_id (snd rc))"
  proof (cases rule: scan_step_cases)
    case (1 relative b t a rc)
    show ?thesis
    proof (cases "map_of old relative")
      case (Some previous)
      with 1(3) 1(5)[OF Some] show ?thesis by (auto simp: id_source_def dest: map_of_SomeD)
    next
      case None
      have "(src, cp) \<in> set old" if "moved_from C it old (used sc) lg (int (length b)) = Some (src, cp)" for src cp
        using moved_from_Some[OF that[unfolded 1(1)]] iterates_sets(1)[OF Cons.prems(2)] by auto
      with 1(3) 1(6)[OF None] show ?thesis unfolding id_source_def by blast
    qed
  qed
  with Cons.IH[OF sc1(2) Cons.prems(2)] show ?case by auto
qed simp


lemma violations_tidy:
  assumes "tidy_checkpoint cp" and "int (length b) < 2 ^ 53"
  shows "length (violations C cp b) \<le> 1 \<and> (\<forall>f \<in> set (violations C cp b). tidy_finding f)"
proof -
  have "tidy_finding (finding e (cp_id cp) (cp_size cp) (Some k))"
    if "e \<in> {''ARCHIVED_LOG_MODIFIED'', ''LOG_TRUNCATED'', ''LOG_PREFIX_MODIFIED''}" "small k" for e k
    using assms(1) that by (auto simp: tidy_finding_def tidy_checkpoint_def finding_def)
  moreover have "small (int (length b))" using assms(2) by simp
  ultimately show ?thesis unfolding violations_def by (simp split: if_split)
qed

lemma log_violations_tidy:
  assumes "\<forall>(r, cp) \<in> set old. tidy_checkpoint cp" and "case n of File b t \<Rightarrow> int (length b) < 2 ^ 53 | _ \<Rightarrow> True"
  shows "length (log_violations C old (r, n, a)) \<le> 1 \<and> (\<forall>f \<in> set (log_violations C old (r, n, a)). tidy_finding f)"
proof (cases "map_of old r")
  case (Some cp)
  then have "tidy_checkpoint cp" using assms(1) by (auto dest: map_of_SomeD)
  from violations_tidy[OF this, of _ C] Some assms(2) show ?thesis
    by (cases n) (simp_all add: log_violations_def)
qed (simp add: log_violations_def)

lemma deletions_tidy:
  assumes "\<forall>(r, cp) \<in> set old. tidy_checkpoint cp" and "iterates it"
  shows "length (deletions it old us present) \<le> length old \<and> (\<forall>f \<in> set (deletions it old us present). tidy_finding f)"
proof -
  have "length (delete_order it old) = length old" using assms(2) mset_eq_length unfolding iterates_def by blast
  then have "length (deletions it old us present) \<le> length old"
    unfolding deletions_def length_map using length_filter_le[of _ "delete_order it old"] by simp
  moreover have "tidy_finding f" if "f \<in> set (deletions it old us present)" for f
    using that assms(1) iterates_sets(2)[OF assms(2)]
    by (auto simp: deletions_def tidy_finding_def finding_def tidy_checkpoint_def)
  ultimately show ?thesis by blast
qed

lemma concat_short: "(\<And>x. x \<in> set xs \<Longrightarrow> length (f x) \<le> 1) \<Longrightarrow> length (concat (map f xs)) \<le> length xs"
  by (induction xs) force+

text \<open>The parts of a scan that starts from a tidy state.\<close>

lemma scanned_tidy:
  assumes "scanned C it old start_scan lgs sc new" and "scan_logs C it rnd old start_scan lgs = Inr sc"
    and "\<forall>(r, cp) \<in> set old. tidy_checkpoint cp" and "iterates it" and "sized C rnd"
    and "\<forall>(r, n, a) \<in> set lgs. case n of File b t \<Rightarrow> int (length b) < 2 ^ 53 \<and> \<bar>time_Unix t\<bar> < 2 ^ 53 | _ \<Rightarrow> True"
  shows "length new = length lgs" "\<forall>(r, cp) \<in> set new. tidy_checkpoint cp \<and> tidy_metadata (metadata_of cp)"
    "length (findings sc) \<le> length lgs" "\<forall>f \<in> set (findings sc). tidy_finding f"
proof -
  have l: "list_all2 (checkpoint_of C) lgs new" and n: "next_files sc = new"
    and f: "findings sc = concat (map (log_violations C old) lgs)"
    using assms(1) by (simp_all add: scanned_def start_scan_def)
  show "length new = length lgs" using l by (metis list_all2_lengthD)
  show "\<forall>(r, cp) \<in> set new. tidy_checkpoint cp \<and> tidy_metadata (metadata_of cp)"
  proof clarify
    fix r cp
    assume rc: "(r, cp) \<in> set new"
    then obtain i where i: "i < length new" "new ! i = (r, cp)" by (auto simp: in_set_conv_nth)
    with l have c: "i < length lgs" "checkpoint_of C (lgs ! i) (r, cp)" by (auto simp: list_all2_conv_all_nth)
    obtain r' nd a where lg: "lgs ! i = (r', nd, a)" by (cases "lgs ! i")
    with c(2) obtain b t where b: "nd = File b t" "describing C r' b t a cp"
      by (cases nd) (auto simp: checkpoint_of_def)
    have "(r', nd, a) \<in> set lgs" using nth_mem[OF c(1)] lg by simp
    with assms(6) b(1) have s: "int (length b) < 2 ^ 53" "\<bar>time_Unix t\<bar> < 2 ^ 53" by auto
    have "id_source rnd old (cp_id cp)" using scan_ids[OF assms(2,4)] rc n by (auto simp: start_scan_def)
    then have "hex_text 32 (cp_id cp)"
      using assms(3) sized_id[OF assms(5)] by (auto simp: id_source_def tidy_checkpoint_def)
    then show "tidy_checkpoint cp \<and> tidy_metadata (metadata_of cp)"
      using s b(2) sized_hash[OF assms(5)]
      by (simp add: tidy_checkpoint_def tidy_metadata_def metadata_of_def describing_def)
  qed
  have v: "length (log_violations C old lg) \<le> 1 \<and> (\<forall>f \<in> set (log_violations C old lg). tidy_finding f)"
    if "lg \<in> set lgs" for lg
  proof -
    obtain r nd a where lg: "lg = (r, nd, a)" by (cases lg)
    show ?thesis using log_violations_tidy[OF assms(3), of nd C r a] assms(6) that by (auto simp: lg split: node.splits)
  qed
  then show "length (findings sc) \<le> length lgs" unfolding f by (intro concat_short) blast
  show "\<forall>f \<in> set (findings sc). tidy_finding f" using v unfolding f by auto
qed


lemma modest_logs:
  assumes "modest_home home" and "discoverLogs home = Inr logs"
  shows "length (sort_key fst logs) \<le> 500"
    "\<forall>(r, n, a) \<in> set (sort_key fst logs). case n of File b t \<Rightarrow> int (length b) < 2 ^ 53 \<and> \<bar>time_Unix t\<bar> < 2 ^ 53 | _ \<Rightarrow> True"
  using assms by (simp_all add: modest_home_def)

lemma length_scan_metadata: "iterates it \<Longrightarrow> length (scan_metadata it new) = length new"
  using metadata_order.SliceStable_sort_key[of "map (\<lambda>(_, cp). metadata_of cp) (meta_order it new)"]
  by (simp add: scan_metadata_def) (metis iterates_def mset_eq_length)

lemma set_scan_metadata: "iterates it \<Longrightarrow> set (scan_metadata it new) = (metadata_of \<circ> snd) ` set new"
  by (auto simp: scan_metadata_def iterates_sets image_iff split: prod.splits) force+

text \<open>A scan of a modest home from a tidy state makes a tidy payload and leaves a tidy state.\<close>

lemma scan_tidy:
  assumes scan: "ScanIntegrity C it rnd fault home s = (Inr p, s')" and load: "loadIntegrityState rnd s = Inr st0"
    and "tidy_state st0" and "iterates it" and "modest_home home" and "sized C rnd" and "uint (ScanSequence st0) + 1 < 2 ^ 53"
  shows "tidy_payload p \<and> self_hashed C p \<and> pay_state p = StateID st0 \<and>
    uint (pay_sequence p) = uint (ScanSequence st0) + 1 \<and> PreviousSnapshotHash p = LastSnapshotHash st0 \<and>
    (\<exists>st'. dest s' = Content st' \<and> tidy_state st' \<and> StateID st' = pay_state p \<and>
       ScanSequence st' = pay_sequence p \<and> LastSnapshotHash st' = SnapshotHash p)"
  using scan
proof (cases rule: ScanIntegrity_ok)
  case (1 st logs sc new h)
  then have st: "st = st0" using load by simp
  have old: "\<forall>(r, cp) \<in> set (Files st). tidy_checkpoint cp" using assms(3) st by (simp add: tidy_state_def)
  note m = modest_logs[OF assms(5) 1(2)]
  note t = scanned_tidy[OF 1(4,3) old assms(4,6) m(2)]
  note del = deletions_tidy[OF old assms(4), of "used sc" "map fst logs"]
  have seq: "uint (ScanSequence st + 1) = uint (ScanSequence st) + 1" using assms(7) st by (simp add: uint_word_ariths)
  have hash: "h = sha256_hex C (emit (canonical_tree (as_any
      (chain_json (StateID st) (ScanSequence st + 1) (LastSnapshotHash st) (Metadata p) (Findings p)))))"
    using 1(10) by (simp add: snapshot_hash_total)
  have "length (Findings p) \<le> 1000" using 1(6) t(3) m(1) del assms(3) st by (simp add: tidy_state_def)
  moreover have "\<forall>f \<in> set (Findings p). tidy_finding f" using 1(6) t(4) del by auto
  moreover have "length (Metadata p) \<le> 500" "\<forall>m \<in> set (Metadata p). tidy_metadata m"
    using 1(7) t(1,2) m(1) length_scan_metadata[OF assms(4)] set_scan_metadata[OF assms(4)] by auto
  moreover have "FilesChecked p \<le> 500" "Status p \<in> {''OK'', ''TAMPER''}" using 1(8,9) t(1) m(1) by auto
  moreover have "0 \<le> uint (ScanSequence st)" by simp
  ultimately have "tidy_payload p"
    using assms(3,7) 1(11-14) hash sized_hash[OF assms(6)] seq unfolding st
    by (simp add: tidy_payload_def tidy_state_def)
  moreover have "self_hashed C p"
    using 1(11-14) hash by (simp add: self_hashed_def CanonicalJSON_supported[OF chain_supported])
  moreover have "\<exists>st'. dest s' = Content st' \<and> tidy_state st' \<and> StateID st' = pay_state p \<and>
      ScanSequence st' = pay_sequence p \<and> LastSnapshotHash st' = SnapshotHash p"
    using 1(11-15) t(1,2) m(1) assms(3) hash sized_hash[OF assms(6)] unfolding st
    by (auto simp: tidy_state_def)
  ultimately show ?thesis using 1(11-13) seq unfolding st by simp
qed

section \<open>Histories\<close>

text \<open>What the environment brings to one scan and its report.\<close>

record scan_env =
  e_iteration :: iteration
  e_entropy :: entropy
  e_fault :: "save_fault option"
  e_home :: node
  e_system :: system
  e_path :: string
  e_config :: Config

definition posture_at :: "crypto \<Rightarrow> scan_env \<Rightarrow> MonitorPosture" where
  "posture_at C e = inspectMonitorPosture C (e_system e) (e_path e) (e_config e)"

text \<open>The reports of a sequence of scans; a scan that fails makes none.\<close>

fun scan_reports :: "crypto \<Rightarrow> scan_env list \<Rightarrow> integrityState slot \<Rightarrow> json list \<times> integrityState slot" where
  "scan_reports C [] s = ([], s)"
| "scan_reports C (e # es) s =
     (case ScanIntegrity C (e_iteration e) (e_entropy e) (e_fault e) (e_home e) s of
        (Inl _, s') \<Rightarrow> scan_reports C es s'
      | (Inr p, s') \<Rightarrow> (case scan_reports C es s' of (js, s'') \<Rightarrow> (integrity_json p (posture_at C e) # js, s'')))"

text \<open>The server on a sequence of reports: the alarms and the last row, \<open>None\<close> if one of them is answered with 422.\<close>

fun audit_all :: "crypto \<Rightarrow> snapshot_row option \<Rightarrow> json list \<Rightarrow> (alarm list \<times> snapshot_row option) option" where
  "audit_all C previous [] = Some ([], previous)"
| "audit_all C previous (j # js) =
     (case integrity_handler C previous j of
        None \<Rightarrow> None
      | Some (alarms, row) \<Rightarrow>
          (case audit_all C (Some row) js of None \<Rightarrow> None | Some (more_alarms, r) \<Rightarrow> Some (alarms @ more_alarms, r)))"

definition honest_env :: "crypto \<Rightarrow> scan_env \<Rightarrow> bool" where
  "honest_env C e =
     (iterates (e_iteration e) \<and> sized C (e_entropy e) \<and> modest_home (e_home e) \<and>
      runtime_GOOS (e_system e) \<in> {''linux'', ''darwin'', ''windows''} \<and>
      KeyProtection (e_config e) \<noteq> [] \<and> length (KeyProtection (e_config e)) \<le> 64)"

text \<open>The posture that the agent inspects satisfies the schema.\<close>

lemma inspected_valid:
  assumes "sized C rnd" and "runtime_GOOS S \<in> {''linux'', ''darwin'', ''windows''}"
    and "KeyProtection c \<noteq> []" and "length (KeyProtection c) \<le> 64"
  shows "valid_posture (posture_json (inspectMonitorPosture C S path c))"
proof -
  let ?p = "inspectMonitorPosture C S path c"
  have f: "hex_text 64 (ServiceFingerprint ?p)" "posture_OS ?p \<in> {''linux'', ''darwin'', ''windows''}"
    "ServiceManager ?p \<in> {''systemd'', ''launchd'', ''windows-scm''}" "posture_KeyProtection ?p = KeyProtection c"
    using assms(2) sized_hash[OF assms(1)]
    by (auto simp: inspectMonitorPosture_def inspect_windows_def inspect_other_def linux_posture_def darwin_posture_def
        zero_posture_def postureFingerprint_def Let_def split: prod.splits)
  have "keys_in ([''os'', ''service_manager'', ''key_protection'', ''service_fingerprint''] @ posture_flags) (posture_json ?p)"
    by (simp add: keys_in_def posture_json_def posture_flags_def)
  with f assms(3,4) show ?thesis
    unfolding valid_posture_def by (auto simp: member_posture text_with_def Suc_le_eq)
qed

lemma honest_posture: "honest_env C e \<Longrightarrow> valid_posture (posture_json (posture_at C e))"
  by (simp add: honest_env_def posture_at_def inspected_valid[of C "e_entropy e"])

text \<open>The row of the server and the state file agree; \<open>n\<close> more scans do not leave the range of the numbers.\<close>

definition in_step :: "nat \<Rightarrow> snapshot_row option \<Rightarrow> integrityState slot \<Rightarrow> bool" where
  "in_step n row s =
     (case row of
        None \<Rightarrow> dest s = Absent \<and> int n < 2 ^ 53
      | Some r \<Rightarrow> (\<exists>st. dest s = Content st \<and> tidy_state st \<and> LastSnapshotHash st \<noteq> [] \<and>
          r = \<lparr>row_state = Some (StateID st), row_sequence = Some (uint (ScanSequence st)),
               row_hash = Some (LastSnapshotHash st)\<rparr> \<and> uint (ScanSequence st) + int n < 2 ^ 53))"

definition follows :: "snapshot_row option \<Rightarrow> snapshot_row option \<Rightarrow> nat \<Rightarrow> bool" where
  "follows row row' k =
     (case row of
        None \<Rightarrow> True
      | Some r \<Rightarrow> (\<exists>r'. row' = Some r' \<and> row_state r' = row_state r \<and>
          the (row_sequence r') = the (row_sequence r) + int k))"

lemma in_step_scan:
  assumes "in_step (Suc n) row s" and "honest_env C e"
    and scan: "ScanIntegrity C (e_iteration e) (e_entropy e) (e_fault e) (e_home e) s = (Inr p, s')"
  shows "integrity_handler C row (integrity_json p (posture_at C e)) = Some ([], row_of p) \<and> in_step n (Some (row_of p)) s' \<and>
    tidy_payload p \<and> self_hashed C p \<and> follows row (Some (row_of p)) 1"
proof -
  obtain st where st: "loadIntegrityState (e_entropy e) s = Inr st" "tidy_state st"
    "uint (ScanSequence st) + 1 + int n < 2 ^ 53"
    "row = None \<or> row = Some \<lparr>row_state = Some (StateID st), row_sequence = Some (uint (ScanSequence st)),
       row_hash = Some (LastSnapshotHash st)\<rparr>"
  proof (cases row)
    case None
    with assms(1,2) that[of "\<lparr>StateID = opaqueID (e_entropy e) [], ScanSequence = 0, LastSnapshotHash = [], Files = []\<rparr>"]
    show ?thesis
      by (auto simp: in_step_def loadIntegrityState_def tidy_state_def honest_env_def intro: sized_id)
  next
    case (Some r)
    with assms(1) obtain st where "dest s = Content st" "tidy_state st" "uint (ScanSequence st) + int (Suc n) < 2 ^ 53"
      "r = \<lparr>row_state = Some (StateID st), row_sequence = Some (uint (ScanSequence st)), row_hash = Some (LastSnapshotHash st)\<rparr>"
      by (auto simp: in_step_def)
    with Some that[of st] hex_text_not_Nil[of 32 "StateID st"] show ?thesis
      by (simp add: loadIntegrityState_def tidy_state_def)
  qed
  have e: "iterates (e_iteration e)" "modest_home (e_home e)" "sized C (e_entropy e)"
    "valid_posture (posture_json (posture_at C e))"
    using assms(2) honest_posture by (simp_all add: honest_env_def)
  have "uint (ScanSequence st) + 1 < 2 ^ 53" using st(3) by simp
  from scan_tidy[OF scan st(1,2) e(1-3) this]
  have p: "tidy_payload p" "self_hashed C p" "pay_state p = StateID st"
    "uint (pay_sequence p) = uint (ScanSequence st) + 1" "PreviousSnapshotHash p = LastSnapshotHash st"
    and "\<exists>st'. dest s' = Content st' \<and> tidy_state st' \<and> StateID st' = pay_state p \<and>
       ScanSequence st' = pay_sequence p \<and> LastSnapshotHash st' = SnapshotHash p" by blast+
  then obtain st' where st': "dest s' = Content st'" "tidy_state st'" "StateID st' = pay_state p"
    "ScanSequence st' = pay_sequence p" "LastSnapshotHash st' = SnapshotHash p" by blast
  have "chain_alarms row (integrity_json p (posture_at C e)) = []"
    using st(4) p(3-5) by (auto simp: chain_alarms_def member_integrity as_text_def as_int_def truthy_def)
  moreover have "in_step n (Some (row_of p)) s'"
    using st' st(3) p(1,4) hex_text_not_Nil[of 64 "SnapshotHash p"] by (simp add: in_step_def row_of_def tidy_payload_def)
  moreover have "follows row (Some (row_of p)) 1" using st(4) p(3,4) by (auto simp: follows_def row_of_def)
  ultimately show ?thesis using audit_tidy[OF p(1) e(4) p(2), of row] p(1,2) by simp
qed


lemma in_step_less: "in_step n row s \<Longrightarrow> m \<le> n \<Longrightarrow> dest s' = dest s \<Longrightarrow> in_step m row s'"
  by (auto simp: in_step_def split: option.splits)

text \<open>A whole history: no alarm, and the two sides agree at its end.\<close>

definition last_report :: "crypto \<Rightarrow> json list \<Rightarrow> snapshot_row option \<Rightarrow> bool" where
  "last_report C js row = (\<exists>p q. last js = integrity_json p q \<and> row = Some (row_of p) \<and> tidy_payload p \<and> self_hashed C p)"

lemma history_passes:
  "scan_reports C es s = (js, s') \<Longrightarrow> in_step (length es + k) row s \<Longrightarrow> (\<forall>e \<in> set es. honest_env C e) \<Longrightarrow>
   \<exists>row'. audit_all C row js = Some ([], row') \<and> in_step k row' s' \<and> follows row row' (length js) \<and>
     (if js = [] then row' = row else last_report C js row')"
proof (induction es arbitrary: js s row)
  case Nil
  then show ?case by (auto simp: follows_def split: option.split)
next
  case (Cons e es)
  obtain r s1 where scan: "ScanIntegrity C (e_iteration e) (e_entropy e) (e_fault e) (e_home e) s = (r, s1)"
    by (metis prod.collapse)
  show ?case
  proof (cases r)
    case (Inl er)
    with Cons.prems(1) scan have "scan_reports C es s1 = (js, s')" by simp
    moreover have "dest s1 = dest s" using ScanIntegrity_error scan Inl by blast
    then have "in_step (length es + k) row s1" by (rule in_step_less[OF Cons.prems(2), rotated]) simp
    ultimately show ?thesis using Cons.IH Cons.prems(3) by simp
  next
    case (Inr p)
    with Cons.prems(1) scan obtain js1 where rest: "scan_reports C es s1 = (js1, s')"
      and js: "js = integrity_json p (posture_at C e) # js1" by (auto split: prod.splits)
    from in_step_scan[of "length es + k" row s C e p s1] Cons.prems scan Inr
    have h: "integrity_handler C row (integrity_json p (posture_at C e)) = Some ([], row_of p)"
      and i: "in_step (length es + k) (Some (row_of p)) s1" and t: "tidy_payload p" "self_hashed C p"
      and f: "follows row (Some (row_of p)) 1" by simp_all
    from Cons.IH[OF rest i] Cons.prems(3) obtain row' where
      r: "audit_all C (Some (row_of p)) js1 = Some ([], row')" "in_step k row' s'"
      "follows (Some (row_of p)) row' (length js1)" "if js1 = [] then row' = Some (row_of p) else last_report C js1 row'" by auto
    have "follows row row' (length js)" using f r(3) by (auto simp: follows_def js split: option.splits)
    moreover have "last_report C js row'"
    proof (cases "js1 = []")
      case True
      with r(4) t show ?thesis unfolding last_report_def js by auto
    next
      case False
      with r(4) show ?thesis by (simp add: last_report_def js)
    qed
    ultimately show ?thesis using h r(1,2) by (intro exI[of _ row']) (simp add: js)
  qed
qed

lemma audit_all_append:
  "audit_all C previous xs = Some (as, row) \<Longrightarrow>
   audit_all C previous (xs @ ys) = map_option (\<lambda>(bs, r). (as @ bs, r)) (audit_all C row ys)"
  by (induction xs arbitrary: previous as) (auto simp: option.map_id split: option.splits prod.splits)

text \<open>Reports with different sequence numbers are hashed from different texts.\<close>

lemma chain_tree:
  "canonical_tree (chain_json i q h ms fs) =
     JObj [(''files'', JArr (map canonical_tree (map metadata_json ms))),
           (''findings'', JArr (map canonical_tree (map finding_json fs))), (''previous_hash'', JStr h),
           (''sequence'', JNum (IntNum (uint q))), (''state_id'', JStr i)]"
  by (simp add: chain_json_def sort_key_def)

lemma chain_text:
  assumes "tidy_payload p"
  shows "py_dumps (chain_document (integrity_json p q)) = emit (canonical_tree (chain_document (integrity_json p q)))"
proof -
  let ?d = "chain_json (pay_state p) (pay_sequence p) (PreviousSnapshotHash p) (Metadata p) (Findings p)"
  have "plain_numbers ?d"
    using assms tidy_metadata_json tidy_finding_json by (auto simp: chain_json_def tidy_payload_def plain_num_def)
  then show ?thesis
    using tidy_chain_text[OF assms] by (simp add: chain_document_integrity CanonicalJSON_supported[OF chain_supported] plain_as_any)
qed

lemma chain_texts_differ:
  assumes "tidy_payload p1" and "tidy_payload p2" and "pay_sequence p1 \<noteq> pay_sequence p2"
  shows "py_dumps (chain_document (integrity_json p1 q1)) \<noteq> py_dumps (chain_document (integrity_json p2 q2))"
proof
  assume "py_dumps (chain_document (integrity_json p1 q1)) = py_dumps (chain_document (integrity_json p2 q2))"
  then have "canonical_tree (chain_document (integrity_json p1 q1)) = canonical_tree (chain_document (integrity_json p2 q2))"
    unfolding chain_text[OF assms(1)] chain_text[OF assms(2)]
    using emit_unique[of _ "[]" _ "[]"] by (simp add: chain_document_integrity chain_supported supported_canonical_tree)
  then have "uint (pay_sequence p1) = uint (pay_sequence p2)" by (simp add: chain_document_integrity chain_tree)
  with assms(3) show False using word_uint_eqI by blast
qed

lemma hashed_text:
  assumes "tidy_payload p" and "self_hashed C p"
  shows "SnapshotHash p = sha256_hex C (py_dumps (chain_document (integrity_json p q)))"
  using assms(2) by (simp add: self_hashed_def tidy_chain_text[OF assms(1)] chain_document_integrity)

section \<open>A concrete agent\<close>

text \<open>In place of SHA-256 a function that pads or cuts a text to 32 bytes.\<close>

definition padded_crypto :: crypto where
  "padded_crypto = \<lparr>sha256 = (\<lambda>b. take 32 (b @ replicate 32 CHR 0x00)), ed25519_sign = (\<lambda>_ _. [])\<rparr>"

definition sample_env :: scan_env where
  "sample_env =
     \<lparr>e_iteration = in_order, e_entropy = (\<lambda>site. replicate 16 CHR ''r''), e_fault = None,
      e_home = sample_home [(''a.jsonl'', ''x'')] [],
      e_system = \<lparr>runtime_GOOS = ''linux'', ReadFile = (\<lambda>_. (False, [])), StatMode = (\<lambda>_. None), CommandRun = (\<lambda>_. True),
        CombinedOutput = (\<lambda>_. [])\<rparr>,
      e_path = ''/etc/codex-guard/config.json'', e_config = zero_config\<lparr>KeyProtection := ''root-owned-file''\<rparr>\<rparr>"

lemma sample_honest: "honest_env padded_crypto sample_env"
  by (simp add: honest_env_def sample_env_def in_order_iterates modest_home_def sample_logs time_Unix_def sized_def
      padded_crypto_def zero_config_def min_def)

abbreviation sample_scan :: "integrityState slot \<Rightarrow> (integrity_err + IntegrityPayload) \<times> integrityState slot" where
  "sample_scan \<equiv> ScanIntegrity padded_crypto (e_iteration sample_env) (e_entropy sample_env) (e_fault sample_env) (e_home sample_env)"

lemma sample_scans: "\<exists>p1 s1 p2 s2 p3 s3. sample_scan empty_slot = (Inr p1, s1) \<and> sample_scan s1 = (Inr p2, s2) \<and> sample_scan s2 = (Inr p3, s3)"
proof -
  have e: "e_fault sample_env = None" "e_home sample_env = sample_home [(''a.jsonl'', ''x'')] []" by (simp_all add: sample_env_def)
  obtain p1 s1 where 1: "sample_scan empty_slot = (Inr p1, s1)" unfolding e using sample_first_scan by blast
  have "\<forall>lg \<in> set [(''sessions/a.jsonl'', File ''x'' (Time 0), False)]. \<exists>b t. fst (snd lg) = File b t" by simp
  note next_scan = sample_next_scan[OF _ sample_logs(1) sample_logs(1) this]
  obtain p2 s2 where 2: "sample_scan s1 = (Inr p2, s2)" unfolding e using next_scan[OF 1[unfolded e]] by blast
  obtain p3 s3 where "sample_scan s2 = (Inr p3, s3)" unfolding e using next_scan[OF 2[unfolded e]] by blast
  with 1 2 show ?thesis by blast
qed

section \<open>Properties\<close>

text \<open>
  C6: an honest agent raises no alarm of the integrity chain. Whatever sequence of scans an agent makes from
  its installation on, some of them failing, over logs that may change, move and disappear, the server accepts
  each report, recomputes its snapshot hash, and finds the state id, the sequence number and the previous hash
  that it expects. Assumed are SHA-256 digests of 32 and random identifiers of 16 bytes, at most 500 logs at a
  time, and sizes and times below \<open>2^53\<close>.
\<close>

theorem honest_scans_pass:
  assumes "dest s = Absent" and "\<forall>e \<in> set es. honest_env C e" and "int (length es) < 2 ^ 53"
    and "scan_reports C es s = (js, s')"
  shows "\<exists>row. audit_all C None js = Some ([], row)"
  using history_passes[OF assms(4), of 0 None] assms(1-3) by (auto simp: in_step_def)


theorem honest_scans_pass_witness:
  "\<exists>js s row. scan_reports padded_crypto [sample_env, sample_env] empty_slot = (js, s) \<and> length js = 2 \<and>
     audit_all padded_crypto None js = Some ([], row)"
proof -
  obtain p1 s1 p2 s2 where "sample_scan empty_slot = (Inr p1, s1)" "sample_scan s1 = (Inr p2, s2)" using sample_scans by blast
  then have r: "scan_reports padded_crypto [sample_env, sample_env] empty_slot =
      ([integrity_json p1 (posture_at padded_crypto sample_env), integrity_json p2 (posture_at padded_crypto sample_env)], s2)" by simp
  from honest_scans_pass[OF _ _ _ r] sample_honest r show ?thesis by (fastforce simp: empty_slot_def)
qed

text \<open>
  C10: a scan whose report the server never sees is noticed. After any history, if the report of one scan is
  lost (it could not be queued, it has expired, or it was removed), the next report raises the alarm that the chain
  is broken and no other, or the two texts that were hashed are a SHA-256 collision.
\<close>

theorem skipped_report_noticed:
  assumes "dest s0 = Absent" and "\<forall>e \<in> set es \<union> {e2, e3}. honest_env C e" and "int (length es) + 2 < 2 ^ 53"
    and "scan_reports C es s0 = (js, s)" and "js \<noteq> []" and "audit_all C None js = Some ([], row)"
    and lost: "ScanIntegrity C (e_iteration e2) (e_entropy e2) (e_fault e2) (e_home e2) s = (Inr p2, s2)"
    and seen: "ScanIntegrity C (e_iteration e3) (e_entropy e3) (e_fault e3) (e_home e3) s2 = (Inr p3, s3)"
  shows "integrity_handler C row (integrity_json p3 (posture_at C e3)) = Some ([ChainBroken], row_of p3) \<or>
    collide C (py_dumps (chain_document (integrity_json p2 (posture_at C e2)))) (py_dumps (chain_document (last js)))"
proof -
  from history_passes[OF assms(4), of 2 None] assms(1-3,5,6)
  have i: "in_step 2 row s" and l: "last_report C js row" by (auto simp: in_step_def)
  from l obtain p1 q1 where p1: "last js = integrity_json p1 q1" "row = Some (row_of p1)" "tidy_payload p1" "self_hashed C p1"
    by (auto simp: last_report_def)
  have i2: "in_step (Suc 1) row s" using i by (simp add: numeral_2_eq_2)
  from in_step_scan[OF i2 _ lost] assms(2)
  have p2: "tidy_payload p2" "self_hashed C p2" "in_step 1 (Some (row_of p2)) s2" "follows row (Some (row_of p2)) 1" by simp_all
  from p2(3) have i3: "in_step (Suc 0) (Some (row_of p2)) s2" by simp
  from in_step_scan[OF i3 _ seen] assms(2)
  have p3: "tidy_payload p3" "self_hashed C p3" "follows (Some (row_of p2)) (Some (row_of p3)) 1"
    "integrity_handler C (Some (row_of p2)) (integrity_json p3 (posture_at C e3)) = Some ([], row_of p3)" by simp_all
  have ne: "pay_state p1 \<noteq> []" "SnapshotHash p1 \<noteq> []" "pay_state p2 \<noteq> []" "SnapshotHash p2 \<noteq> []"
    using p1(3) p2(1) tidy_ids by blast+
  have n: "uint (pay_sequence p2) = uint (pay_sequence p1) + 1" "uint (pay_sequence p3) = uint (pay_sequence p2) + 1"
    "pay_state p2 = pay_state p1" "pay_state p3 = pay_state p1"
    using p2(4) p3(3) p1(2) by (simp_all add: follows_def row_of_def)
  have post: "valid_posture (posture_json (posture_at C e3))" using assms(2) honest_posture by blast
  have prev: "PreviousSnapshotHash p3 = SnapshotHash p2"
    using p3(4) audit_tidy[OF p3(1) post p3(2)] chain_alarms_rows[OF ne(3,4)] n by (auto split: if_splits)
  show ?thesis
  proof (cases "SnapshotHash p2 = SnapshotHash p1")
    case True
    have "pay_sequence p2 \<noteq> pay_sequence p1" using n(1) by auto
    then have "py_dumps (chain_document (integrity_json p2 (posture_at C e2))) \<noteq> py_dumps (chain_document (last js))"
      unfolding p1(1) by (rule chain_texts_differ[OF p2(1) p1(3)])
    moreover have "sha256_hex C (py_dumps (chain_document (integrity_json p2 (posture_at C e2)))) =
        sha256_hex C (py_dumps (chain_document (last js)))"
      unfolding p1(1) by (rule trans[OF trans[OF hashed_text[OF p2(1,2), symmetric] True] hashed_text[OF p1(3,4)]])
    ultimately show ?thesis using sha256_hex_collide by blast
  next
    case False
    then show ?thesis
      using audit_tidy[OF p3(1) post p3(2)] chain_alarms_rows[OF ne(1,2)] n prev by (simp add: p1(2))
  qed
qed

theorem skipped_report_noticed_witness:
  "\<exists>js s row p2 s2 p3 s3. scan_reports padded_crypto [sample_env] empty_slot = (js, s) \<and>
     audit_all padded_crypto None js = Some ([], row) \<and> sample_scan s = (Inr p2, s2) \<and> sample_scan s2 = (Inr p3, s3) \<and>
     (integrity_handler padded_crypto row (integrity_json p3 (posture_at padded_crypto sample_env)) = Some ([ChainBroken], row_of p3) \<or>
      collide padded_crypto (py_dumps (chain_document (integrity_json p2 (posture_at padded_crypto sample_env))))
        (py_dumps (chain_document (last js))))"
proof -
  obtain p1 s1 p2 s2 p3 s3 where s: "sample_scan empty_slot = (Inr p1, s1)" "sample_scan s1 = (Inr p2, s2)"
    "sample_scan s2 = (Inr p3, s3)" using sample_scans by blast
  then have r: "scan_reports padded_crypto [sample_env] empty_slot = ([integrity_json p1 (posture_at padded_crypto sample_env)], s1)" by simp
  obtain row where a: "audit_all padded_crypto None [integrity_json p1 (posture_at padded_crypto sample_env)] = Some ([], row)"
    using history_passes[OF r, of 0 None] sample_honest by (auto simp: in_step_def empty_slot_def)
  from skipped_report_noticed[OF _ _ _ r _ a s(2,3)] sample_honest r a s show ?thesis
    by (fastforce simp: empty_slot_def)
qed

text \<open>
  C11: a state file that is lost or put back is noticed. After any history, the next report raises the state
  reset alarm and no other if the state file has been deleted and the new random state id is another one, and the
  rollback alarm and no other if the file is one that the agent has saved after an earlier reported scan.
\<close>

theorem replaced_state_noticed:
  assumes "dest s0 = Absent" and "\<forall>e \<in> set (es1 @ es2) \<union> {e}. honest_env C e" and "int (length (es1 @ es2)) + 1 < 2 ^ 53"
    and "scan_reports C es1 s0 = (js1, s1)" and "js1 \<noteq> []" and "scan_reports C es2 s1 = (js2, s2)" and "js2 \<noteq> []"
    and "audit_all C None (js1 @ js2) = Some ([], Some row)"
    and "ScanIntegrity C (e_iteration e) (e_entropy e) (e_fault e) (e_home e) s = (Inr p, s')"
  shows "(dest s = Absent \<and> Some (opaqueID (e_entropy e) []) \<noteq> row_state row \<longrightarrow>
      integrity_handler C (Some row) (integrity_json p (posture_at C e)) = Some ([StateReset], row_of p)) \<and>
    (dest s = dest s1 \<longrightarrow>
      integrity_handler C (Some row) (integrity_json p (posture_at C e)) = Some ([StateRollback], row_of p))"
proof -
  from history_passes[OF assms(4), of "length es2 + 1" None] assms(1-3,5) obtain row1 where
    h1: "audit_all C None js1 = Some ([], row1)" "in_step (length es2 + 1) row1 s1" "last_report C js1 row1"
    by (auto simp: in_step_def)
  from history_passes[OF assms(6) h1(2)] assms(2,7) obtain row2 where
    h2: "audit_all C row1 js2 = Some ([], row2)" "follows row1 row2 (length js2)" "last_report C js2 row2" by auto
  have row2: "row2 = Some row" using audit_all_append[OF h1(1), of js2] h2(1) assms(8) by simp
  then obtain p2 where p2: "row = row_of p2" "tidy_payload p2" using h2(3) by (auto simp: last_report_def)
  then have ne: "pay_state p2 \<noteq> []" "SnapshotHash p2 \<noteq> []" using tidy_ids by blast+
  have e: "honest_env C e" using assms(2) by simp
  then have v: "valid_posture (posture_json (posture_at C e))" by (rule honest_posture)
  have "integrity_handler C (Some row) (integrity_json p (posture_at C e)) = Some ([StateReset], row_of p)"
    if absent: "dest s = Absent" and new: "Some (opaqueID (e_entropy e) []) \<noteq> row_state row"
  proof -
    have "in_step (Suc 0) None s" using absent by (simp add: in_step_def)
    from in_step_scan[OF this e assms(9)] have t: "tidy_payload p" "self_hashed C p" by simp_all
    have "pay_state p = opaqueID (e_entropy e) []"
      by (rule ScanIntegrity_ok[OF assms(9)]) (use absent in \<open>auto simp: loadIntegrityState_def\<close>)
    then show ?thesis using audit_tidy[OF t(1) v t(2)] chain_alarms_rows[OF ne] new by (simp add: p2(1) row_of_def)
  qed
  moreover have "integrity_handler C (Some row) (integrity_json p (posture_at C e)) = Some ([StateRollback], row_of p)"
    if "dest s = dest s1"
  proof -
    have "in_step (Suc 0) row1 s" using in_step_less[OF h1(2) _ that] by simp
    from in_step_scan[OF this e assms(9)] have t: "tidy_payload p" "self_hashed C p" "follows row1 (Some (row_of p)) 1"
      by simp_all
    from h1(3) h2(2) t(3) row2 p2(1) assms(7)
    have "pay_state p = pay_state p2" "uint (pay_sequence p) \<le> uint (pay_sequence p2)"
      by (auto simp: last_report_def follows_def row_of_def Suc_le_eq neq_Nil_conv)
    then show ?thesis using audit_tidy[OF t(1) v t(2)] chain_alarms_rows[OF ne] by (simp add: p2(1))
  qed
  ultimately show ?thesis by blast
qed

theorem replaced_state_noticed_witness:
  "\<exists>js1 s1 js2 row p s'. scan_reports padded_crypto [sample_env] empty_slot = (js1, s1) \<and>
     scan_reports padded_crypto [sample_env] s1 = (js2, snd (sample_scan s1)) \<and>
     audit_all padded_crypto None (js1 @ js2) = Some ([], Some row) \<and> sample_scan s1 = (Inr p, s') \<and>
     integrity_handler padded_crypto (Some row) (integrity_json p (posture_at padded_crypto sample_env)) = Some ([StateRollback], row_of p)"
proof -
  obtain p1 s1 p2 s2 where s: "sample_scan empty_slot = (Inr p1, s1)" "sample_scan s1 = (Inr p2, s2)" using sample_scans by blast
  then have r: "scan_reports padded_crypto [sample_env] empty_slot = ([integrity_json p1 (posture_at padded_crypto sample_env)], s1)"
    "scan_reports padded_crypto [sample_env] s1 = ([integrity_json p2 (posture_at padded_crypto sample_env)], s2)"
    "scan_reports padded_crypto [sample_env, sample_env] empty_slot =
       ([integrity_json p1 (posture_at padded_crypto sample_env), integrity_json p2 (posture_at padded_crypto sample_env)], s2)" by simp_all
  obtain row where "audit_all padded_crypto None ([integrity_json p1 (posture_at padded_crypto sample_env)] @ [integrity_json p2 (posture_at padded_crypto sample_env)]) =
      Some ([], Some row)"
    using history_passes[OF r(3), of 0 None] sample_honest by (auto simp: in_step_def empty_slot_def last_report_def)
  moreover from replaced_state_noticed[OF _ _ _ r(1) _ r(2) _ this s(2)] sample_honest
  have "integrity_handler padded_crypto (Some row) (integrity_json p2 (posture_at padded_crypto sample_env)) = Some ([StateRollback], row_of p2)"
    by (simp add: empty_slot_def)
  ultimately show ?thesis using r s(2) by (metis snd_conv)
qed


lemma many_findings_refused:
  "length (Findings p) > 1000 \<Longrightarrow> integrity_handler C row (integrity_json p q) = None"
  by (simp add: integrity_handler_def valid_integrity_def member_integrity as_rows_def)

text \<open>A state file with 1001 checkpoints.\<close>

definition crowded_state :: integrityState where
  "crowded_state =
     \<lparr>StateID = replicate 32 CHR ''a'', ScanSequence = 1, LastSnapshotHash = replicate 64 CHR ''b'',
      Files = map (\<lambda>i. (nat_dec i, new_checkpoint (replicate 32 CHR ''c'') (nat_dec i) 1 [] False (Time 0))) [0..<1001]\<rparr>"

text \<open>
  C38: deleting very many logs at once silences the agent. If more than 1000 logs have been recorded and all of
  them are gone, the scan succeeds and its checkpoints are saved, but the server refuses the report that carries the
  findings: the schema accepts 1000 of them at most.
\<close>

theorem mass_deletion_refused:
  assumes "dest s = Content st" and "length (Files st) > 1000" and "iterates it" and "discoverLogs home = Inr []"
    and "ScanIntegrity C it rnd fault home s = (Inr p, s')"
  shows "integrity_handler C row (integrity_json p q) = None \<and> (\<exists>st'. dest s' = Content st' \<and> Files st' = [])"
proof (rule ScanIntegrity_ok[OF assms(5)], goal_cases)
  case (1 st0 logs sc new h)
  then have sc: "logs = []" "sc = start_scan" using assms(4) by auto
  have "length (delete_order it (Files st0)) = length (Files st0)"
    using assms(3) mset_eq_length unfolding iterates_def by blast
  moreover have "Files st0 = Files st" using load_Content[OF assms(1), of rnd] 1(1) by auto
  ultimately have "length (Findings p) > 1000"
    using 1(6) sc assms(2) by (simp add: deletions_def start_scan_def)
  moreover have "new = []" using 1(5) sc by (simp add: start_scan_def)
  ultimately show ?case using many_findings_refused 1(15) by simp
qed

theorem mass_deletion_refused_witness:
  "\<exists>p s'. ScanIntegrity padded_crypto in_order sample_entropy None (sample_home [] []) \<lparr>dest = Content crowded_state, temp = Absent\<rparr> =
       (Inr p, s') \<and>
     integrity_handler padded_crypto None (integrity_json p (posture_at padded_crypto sample_env)) = None"
proof -
  let ?s = "\<lparr>dest = Content crowded_state, temp = Absent\<rparr>"
  have load: "loadIntegrityState sample_entropy ?s = Inr crowded_state"
    by (simp add: loadIntegrityState_def crowded_state_def)
  have pos: "0 \<le> cp_size cp" if "map_of (Files crowded_state) r = Some cp" for r cp
    using map_of_SomeD[OF that] by (auto simp: crowded_state_def new_checkpoint_def)
  obtain p s' where scan: "ScanIntegrity padded_crypto in_order sample_entropy None (sample_home [] []) ?s = (Inr p, s')"
    using scan_runs[OF load sample_logs(3), of padded_crypto in_order] pos by auto
  have "length (Files crowded_state) > 1000" by (simp add: crowded_state_def)
  from mass_deletion_refused[OF _ this in_order_iterates sample_logs(3) scan] scan show ?thesis by auto
qed

end
