(* ===== verification/Receiver.thy ===== *)
theory Receiver
  imports Client
begin

text \<open>
  What the client relies on at the other end of the wire: the contract of a receiver of signed
  reports as a locale, and its interpretation on a model of the class server's \<open>verified\<close> and \<open>enroll\<close>
  (\<open>server/app/main.py\<close>) behind a network that may lose a request or its answer.
\<close>

text \<open>The device, the sequence number and the event id that a receiver reads from an envelope.\<close>

definition report_id :: "json \<Rightarrow> (string \<times> nat \<times> string) option" where
  "report_id j =
     (case (obj_get j ''device_id'', obj_get j ''sequence'', obj_get j ''event_id'') of
        (Some (JStr d), Some (JNum (IntNum q)), Some (JStr ev)) \<Rightarrow> Some (d, nat q, ev)
      | _ \<Rightarrow> None)"

lemma report_id_envelope: "report_id (envelope_json e) = Some (DeviceID e, unat (Sequence e), EventID e)"
  by (simp add: report_id_def envelope_json_def obj_get_def)

lemma stale_device_envelope: "stale_device (envelope_json e) = Some (DeviceID e)"
proof -
  have l: "ToLower ''device_id'' = ''device_id''" "ToLower ''sequence'' \<noteq> ''device_id''"
    "ToLower ''timestamp'' \<noteq> ''device_id''" "ToLower ''event_id'' \<noteq> ''device_id''"
    "ToLower ''payload'' \<noteq> ''device_id''" "ToLower ''signature'' \<noteq> ''device_id''"
    by code_simp+
  show ?thesis by (simp add: stale_device_def envelope_json_def stale_member_def l)
qed

section \<open>The contract\<close>

text \<open>
  \<open>last_seq\<close> is the last sequence number accepted from a device, \<open>None\<close> for an unknown device, \<open>handled\<close> the
  set of processed events. \<open>answers\<close> and \<open>enrolls\<close> relate a request to the answer that reaches the client
  and the state of the receiver afterwards; \<open>issued\<close> is the device id in a registration answer.
\<close>

locale report_receiver =
  fixes last_seq :: "'w \<Rightarrow> string \<Rightarrow> nat option"
    and handled :: "'w \<Rightarrow> (string \<times> string) set"
    and answers :: "json \<Rightarrow> 'w \<Rightarrow> http \<Rightarrow> 'w \<Rightarrow> bool"
    and enrolls :: "'w \<Rightarrow> http \<Rightarrow> 'w \<Rightarrow> bool"
    and resets :: "'w \<Rightarrow> 'w \<Rightarrow> bool"
    and issued :: "string \<Rightarrow> string option"
  assumes answer_effect: "answers body w a w' \<Longrightarrow>
      (last_seq w' = last_seq w \<and> handled w' = handled w) \<or>
      (\<exists>d q ev l. report_id body = Some (d, q, ev) \<and> last_seq w d = Some l \<and> l < q \<and> (d, ev) \<notin> handled w \<and>
         last_seq w' = (last_seq w)(d \<mapsto> q) \<and> handled w' = insert (d, ev) (handled w))"
    and answer_replay: "answers body w (Answer 409 x) w' \<Longrightarrow>
      \<exists>d q ev l. report_id body = Some (d, q, ev) \<and> last_seq w d = Some l \<and> q \<le> l \<and> (d, ev) \<notin> handled w"
    and answer_accepts: "answers body w (Answer code x) w' \<Longrightarrow> 200 \<le> code \<Longrightarrow> code < 300 \<Longrightarrow>
      \<exists>d q ev. report_id body = Some (d, q, ev) \<and> (d, ev) \<in> handled w'"
    and enroll_effect: "enrolls w a w' \<Longrightarrow> handled w' = handled w \<and>
      (last_seq w' = last_seq w \<or> (\<exists>d. last_seq w d = None \<and> last_seq w' = (last_seq w)(d \<mapsto> 0)))"
    and enroll_issues: "enrolls w (Answer 200 x) w' \<Longrightarrow> issued x = Some d \<Longrightarrow>
      last_seq w d = None \<and> last_seq w' d = Some 0"
    and reset_effect: "resets w w' \<Longrightarrow> last_seq w' d = None"

section \<open>The class server\<close>

record device =
  public_key :: string
  last_sequence :: nat

record server =
  devices :: "(string \<times> device) list"
  processed_events :: "(string \<times> string) list"

text \<open>
  The checks that depend on code outside the model: the schema of an envelope, the Ed25519
  verification over the recomputed message, and the validation of the payload by the endpoint.
\<close>

record server_checks =
  schema_ok :: "json \<Rightarrow> bool"
  signature_ok :: "string \<Rightarrow> json \<Rightarrow> bool"
  payload_ok :: "json \<Rightarrow> bool"

definition detail :: "string \<Rightarrow> string" where
  "detail m = ''{'' @ go_quote ''detail'' @ '':'' @ go_quote m @ ''}''"

text \<open>
  \<open>verified\<close> and the endpoint around it: a rejected payload rolls the transaction back, so the event is
  not marked as processed.
\<close>

definition receive :: "server_checks \<Rightarrow> json \<Rightarrow> server \<Rightarrow> http \<times> server" where
  "receive V body s =
     (case report_id body of
        None \<Rightarrow> (Answer 422 (detail ''invalid envelope''), s)
      | Some (d, q, ev) \<Rightarrow>
          if \<not> schema_ok V body then (Answer 422 (detail ''invalid envelope''), s)
          else (case map_of (devices s) d of
                  None \<Rightarrow> (Answer 401 (detail ''unknown device''), s)
                | Some dev \<Rightarrow>
                    if \<not> signature_ok V (public_key dev) body then (Answer 401 (detail ''invalid signature''), s)
                    else if (d, ev) \<in> set (processed_events s) then (Answer 200 ''duplicate'', s)
                    else if q \<le> last_sequence dev then (Answer 409 (detail ''replayed sequence''), s)
                    else if \<not> payload_ok V body then (Answer 422 (detail ''invalid payload''), s)
                    else (Answer 200 ''accepted'',
                          s\<lparr>devices := AList.update d (dev\<lparr>last_sequence := q\<rparr>) (devices s),
                            processed_events := (d, ev) # processed_events s\<rparr>)))"

text \<open>A request or its answer may be lost on the way.\<close>

inductive delivery :: "server_checks \<Rightarrow> json \<Rightarrow> server \<Rightarrow> http \<Rightarrow> server \<Rightarrow> bool" for V body s where
  request_lost: "delivery V body s NoAnswer s"
| answer_lost: "receive V body s = (a, s') \<Longrightarrow> delivery V body s NoAnswer s'"
| answered: "receive V body s = (a, s') \<Longrightarrow> delivery V body s a s'"

text \<open>Registration stores the key under a new random id; \<open>issued\<close> decodes the id from the answer.\<close>

inductive registration :: "(string \<Rightarrow> string option) \<Rightarrow> server \<Rightarrow> http \<Rightarrow> server \<Rightarrow> bool" for issued s where
  register_lost: "registration issued s NoAnswer s"
| register_refused: "code \<noteq> 200 \<Longrightarrow> registration issued s (Answer code x) s"
| registered: "map_of (devices s) d = None \<Longrightarrow> a = NoAnswer \<or> (\<exists>x. a = Answer 200 x \<and> issued x = Some d) \<Longrightarrow>
    registration issued s a (s\<lparr>devices := (d, \<lparr>public_key = key, last_sequence = 0\<rparr>) # devices s\<rparr>)"

definition last_seq_of :: "server \<Rightarrow> string \<Rightarrow> nat option" where
  "last_seq_of s d = map_option last_sequence (map_of (devices s) d)"

definition handled_of :: "server \<Rightarrow> (string \<times> string) set" where
  "handled_of s = set (processed_events s)"

text \<open>The approved reset of the database.\<close>

definition wiped :: "server \<Rightarrow> server \<Rightarrow> bool" where
  "wiped s s' = (devices s' = [] \<and> processed_events s' = [])"

lemma receive_effect:
  assumes "receive V body s = (a, s')"
  shows "(last_seq_of s' = last_seq_of s \<and> handled_of s' = handled_of s) \<or>
    (\<exists>d q ev l. report_id body = Some (d, q, ev) \<and> last_seq_of s d = Some l \<and> l < q \<and> (d, ev) \<notin> handled_of s \<and>
       last_seq_of s' = (last_seq_of s)(d \<mapsto> q) \<and> handled_of s' = insert (d, ev) (handled_of s))"
  using assms
  by (auto simp: receive_def last_seq_of_def handled_of_def fun_eq_iff update_conv'
      split: option.splits prod.splits if_splits)

lemma receive_answers:
  assumes "receive V body s = (a, s')"
  shows "a = Answer 409 x \<Longrightarrow> \<exists>d q ev l. report_id body = Some (d, q, ev) \<and> last_seq_of s d = Some l \<and> q \<le> l \<and>
      (d, ev) \<notin> handled_of s"
    and "a = Answer code x \<Longrightarrow> 200 \<le> code \<Longrightarrow> code < 300 \<Longrightarrow>
      \<exists>d q ev. report_id body = Some (d, q, ev) \<and> (d, ev) \<in> handled_of s'"
  using assms
  by (auto simp: receive_def last_seq_of_def handled_of_def split: option.splits prod.splits if_splits)

interpretation class_server: report_receiver last_seq_of handled_of "delivery V" "registration issued" wiped issued
  for V issued
proof (unfold_locales, goal_cases)
  case (1 body w a w')
  then show ?case by (cases rule: delivery.cases) (use receive_effect in blast)+
next
  case (2 body w x w')
  then show ?case by (cases rule: delivery.cases) (use receive_answers(1) in blast)
next
  case (3 body w code x w')
  then show ?case by (cases rule: delivery.cases) (use receive_answers(2) in blast)
next
  case (4 w a w')
  then show ?case
    by (cases rule: registration.cases) (auto simp: handled_of_def last_seq_of_def fun_eq_iff)
next
  case (5 w x w' d)
  then show ?case by (cases rule: registration.cases) (auto simp: last_seq_of_def)
next
  case (6 w w' d)
  then show ?case by (simp add: wiped_def last_seq_of_def)
qed

end
