(* ===== verification/Delivery.thy ===== *)
theory Delivery
  imports Receiver
begin

text \<open>
  The agent in time: any sequence of reports, deliveries, home changes, crashes and restarts of one
  agent process, against a receiver that keeps the contract and a network that loses messages. A
  crash inside an operation is covered by its faults: what survives is the state files, and they are
  replaced atomically.
\<close>

text \<open>A turn whose HTTP calls behave as the contract says.\<close>

definition obeys ::
  "(json \<Rightarrow> 'w \<Rightarrow> http \<Rightarrow> 'w \<Rightarrow> bool) \<Rightarrow> ('w \<Rightarrow> http \<Rightarrow> 'w \<Rightarrow> bool) \<Rightarrow> (string \<Rightarrow> string option) \<Rightarrow> 'w turn \<Rightarrow> bool" where
  "obeys answers enrolls issued t =
     ((\<forall>url body n. answers body n (fst (t_post t url body n)) (snd (t_post t url body n))) \<and>
      (\<forall>url body n. enrolls n (fst (t_register t url body n)) (snd (t_register t url body n))) \<and>
      (\<forall>x e. t_enrolled t (take 1048576 x) = Some e \<longrightarrow> issued x = Some (enr_DeviceID e)))"

text \<open>
  The steps: an operation on the configuration, the queue or the network, work of the agent beside them (the
  scan, the collector, the cached reading of the quota), and what happens to the process and the server.
\<close>

type_synonym 'w agent = "Client option \<times> 'w world"

inductive agent_step :: "('w turn \<Rightarrow> bool) \<Rightarrow> ('w \<Rightarrow> 'w \<Rightarrow> bool) \<Rightarrow> 'w agent \<Rightarrow> 'w agent \<Rightarrow> bool" for ok resets where
  queue_report: "ok t \<Longrightarrow> NextSequence (cfg cl) + 1 \<noteq> 0 \<Longrightarrow> enqueue t endpoint payload cl w = (e, cl', w') \<Longrightarrow>
    agent_step ok resets (Some cl, w) (Some cl', w')"
| deliver_queue: "ok t \<Longrightarrow> Flush t cl w = (e, cl', w') \<Longrightarrow> agent_step ok resets (Some cl, w) (Some cl', w')"
| refresh_home: "ok t \<Longrightarrow> refreshCodexHome t cl w = (e, cl', w') \<Longrightarrow> agent_step ok resets (Some cl, w) (Some cl', w')"
| own_work: "cfg cl' = cfg cl \<Longrightarrow> cl_Queue cl' = cl_Queue cl \<Longrightarrow> config_file w' = config_file w \<Longrightarrow>
    queue_file w' = queue_file w \<Longrightarrow> net w' = net w \<Longrightarrow> agent_step ok resets (Some cl, w) (Some cl', w')"
| die: "agent_step ok resets (c, w) (None, w)"
| restart: "New S now (config_file w) = Inr cl \<Longrightarrow> agent_step ok resets (None, w) (Some cl, w)"
| database_reset: "resets (net w) n \<Longrightarrow> agent_step ok resets (c, w) (c, w\<lparr>net := n\<rparr>)"

inductive_cases agent_step_cases: "agent_step ok resets s s'"

text \<open>The state an enrollment leaves.\<close>

definition installed :: "('w \<Rightarrow> string \<Rightarrow> nat option) \<Rightarrow> 'w agent \<Rightarrow> bool" where
  "installed last_seq s =
     (case s of (c, w) \<Rightarrow> c = None \<and> pending_items (queue_file w) = Some [] \<and>
        (\<exists>d. dest (config_file w) = Content d \<and> NextSequence d = 1 \<and>
           last_seq (net w) (Config_DeviceID d) = Some 0))"

section \<open>The invariant\<close>

definition seq_of :: "json Item \<Rightarrow> nat" where
  "seq_of item = (case report_id (Envelope_data item) of Some (_, q, _) \<Rightarrow> q | None \<Rightarrow> 0)"

text \<open>A queued report of the current device: its number has been given out, and the receiver has either
  processed it or accepted nothing newer.\<close>

definition in_flight ::
  "('w \<Rightarrow> string \<Rightarrow> nat option) \<Rightarrow> ('w \<Rightarrow> (string \<times> string) set) \<Rightarrow> 'w \<Rightarrow> string \<Rightarrow> nat \<Rightarrow> json Item \<Rightarrow> bool" where
  "in_flight last_seq handled n d bound item =
     (\<exists>q ev. report_id (Envelope_data item) = Some (d, q, ev) \<and> stale_device (Envelope_data item) = Some d \<and>
        0 < q \<and> q < bound \<and> (\<forall>l. last_seq n d = Some l \<longrightarrow> l < q \<or> (d, ev) \<in> handled n))"

definition memory_agrees :: "Client option \<Rightarrow> Config \<Rightarrow> bool" where
  "memory_agrees c d =
     (case c of None \<Rightarrow> True
      | Some cl \<Rightarrow> Config_DeviceID (cfg cl) = Config_DeviceID d \<and> NextSequence d \<le> NextSequence (cfg cl))"

definition consistent ::
  "('w \<Rightarrow> string \<Rightarrow> nat option) \<Rightarrow> ('w \<Rightarrow> (string \<times> string) set) \<Rightarrow> 'w agent \<Rightarrow> bool" where
  "consistent last_seq handled s =
     (case s of (c, w) \<Rightarrow> \<exists>d items. dest (config_file w) = Content d \<and> NextSequence d \<noteq> 0 \<and>
        pending_items (queue_file w) = Some items \<and> sorted_wrt (<) (map seq_of items) \<and>
        list_all (in_flight last_seq handled (net w) (Config_DeviceID d) (unat (NextSequence d))) items \<and>
        (\<forall>l. last_seq (net w) (Config_DeviceID d) = Some l \<longrightarrow> l < unat (NextSequence d)) \<and>
        memory_agrees c d)"

lemma consistentI:
  assumes "dest (config_file w) = Content d" "NextSequence d \<noteq> 0" "pending_items (queue_file w) = Some items"
    "sorted_wrt (<) (map seq_of items)"
    "list_all (in_flight last_seq handled (net w) (Config_DeviceID d) (unat (NextSequence d))) items"
    "\<And>l. last_seq (net w) (Config_DeviceID d) = Some l \<Longrightarrow> l < unat (NextSequence d)" "memory_agrees c d"
  shows "consistent last_seq handled (c, w)"
  using assms by (auto simp: consistent_def)

lemma consistentE:
  assumes "consistent last_seq handled (c, w)"
  obtains d items where "dest (config_file w) = Content d" "NextSequence d \<noteq> 0"
    "pending_items (queue_file w) = Some items" "sorted_wrt (<) (map seq_of items)"
    "list_all (in_flight last_seq handled (net w) (Config_DeviceID d) (unat (NextSequence d))) items"
    "\<And>l. last_seq (net w) (Config_DeviceID d) = Some l \<Longrightarrow> l < unat (NextSequence d)" "memory_agrees c d"
  using assms by (auto simp: consistent_def)

text \<open>The invariant depends on the files only through their contents.\<close>

lemma consistent_cong:
  "dest (config_file w') = dest (config_file w) \<Longrightarrow> dest (queue_file w') = dest (queue_file w) \<Longrightarrow> net w' = net w \<Longrightarrow>
   consistent last_seq handled (c, w) \<Longrightarrow> consistent last_seq handled (c, w')"
  using pending_dest_cong[of "queue_file w'" "queue_file w"] by (simp add: consistent_def)

lemma seq_of_in_flight: "in_flight L H n d bound item \<Longrightarrow> 0 < seq_of item \<and> seq_of item < bound"
  by (auto simp: in_flight_def seq_of_def)

lemma in_flight_mono: "in_flight L H n d bound item \<Longrightarrow> bound \<le> bound2 \<Longrightarrow> in_flight L H n d bound2 item"
  by (auto simp: in_flight_def)

lemma list_all_in_flight_mono:
  "list_all (in_flight L H n d bound) items \<Longrightarrow> bound \<le> bound2 \<Longrightarrow> list_all (in_flight L H n d bound2) items"
  by (auto simp: list_all_iff intro: in_flight_mono)

lemma consistent_tail:
  assumes "consistent L H (c, w)" and "pending_items (queue_file w) = Some (x # xs)"
    and "pending_items q = Some xs"
  shows "consistent L H (c, w\<lparr>queue_file := q\<rparr>)"
proof -
  obtain d where "dest (config_file w) = Content d" "NextSequence d \<noteq> 0" "sorted_wrt (<) (map seq_of (x # xs))"
    "list_all (in_flight L H (net w) (Config_DeviceID d) (unat (NextSequence d))) (x # xs)"
    "\<And>l. L (net w) (Config_DeviceID d) = Some l \<Longrightarrow> l < unat (NextSequence d)" "memory_agrees c d"
    using assms(1,2) by (auto elim: consistentE)
  with assms(3) show ?thesis by (intro consistentI) auto
qed

section \<open>Steps that do not involve the receiver\<close>

lemma next_unat: "(q :: uint64) + 1 \<noteq> 0 \<Longrightarrow> unat (q + 1) = unat q + 1"
  by (metis Suc_eq_plus1 add.commute unatSuc)

lemma next_le: "(q :: uint64) + 1 \<noteq> 0 \<Longrightarrow> p \<le> q \<Longrightarrow> p \<le> q + 1"
  by (simp add: word_le_nat_alt next_unat)

text \<open>What \<open>Push\<close> makes of a queue of reports in flight, whether it fails or not.\<close>

lemma push_in_flight:
  assumes "pending_items s = Some items" and "Push Q now f item s = (er, s')"
    and "sorted_wrt (<) (map seq_of items)" and "list_all (in_flight L H n d bound) items" and "bound \<le> seq_of item"
    and "in_flight L H n d bound2 item"
  shows "\<exists>items'. pending_items s' = Some items' \<and> sorted_wrt (<) (map seq_of items') \<and>
    list_all (in_flight L H n d bound2) items'"
proof -
  have "bound \<le> bound2" using seq_of_in_flight[OF assms(6)] assms(5) by simp
  then have old: "list_all (in_flight L H n d bound2) items" using list_all_in_flight_mono[OF assms(4)] by blast
  have below: "seq_of i < seq_of item" if "i \<in> set items" for i
    using seq_of_in_flight[of L H n d bound i] assms(4,5) that by (auto simp: list_all_iff)
  show ?thesis
  proof (cases er)
    case None
    let ?kept = "filter (live Q now) items"
    have "pending_items s' = Some (?kept @ [item])" using file_queue.push_ok[OF assms(1)] assms(2) None by simp
    moreover have "sorted_wrt (<) (map seq_of (?kept @ [item]))"
      using assms(3) below by (auto simp: sorted_wrt_append sorted_wrt_map sorted_wrt_filter)
    ultimately show ?thesis using old assms(6) by (auto simp: list_all_iff)
  next
    case (Some x)
    have "pending_items s' = Some items" using file_queue.push_error[OF assms(2)[unfolded Some]] assms(1) by simp
    with assms(3) old show ?thesis by blast
  qed
qed

lemma consistent_enqueue:
  assumes "consistent L H (Some cl, w)" and "enqueue t endpoint payload cl w = (e, cl', w')"
    and "NextSequence (cfg cl) + 1 \<noteq> 0"
  shows "consistent L H (Some cl', w')"
proof -
  from assms(1) obtain d items where d: "dest (config_file w) = Content d" "NextSequence d \<noteq> 0"
    "pending_items (queue_file w) = Some items" "sorted_wrt (<) (map seq_of items)"
    "list_all (in_flight L H (net w) (Config_DeviceID d) (unat (NextSequence d))) items"
    "\<And>l. L (net w) (Config_DeviceID d) = Some l \<Longrightarrow> l < unat (NextSequence d)" "memory_agrees (Some cl) d"
    by (rule consistentE) blast
  from d(7) have m: "Config_DeviceID (cfg cl) = Config_DeviceID d" "NextSequence d \<le> NextSequence (cfg cl)"
    by (auto simp: memory_agrees_def)
  from assms(2) show ?thesis
  proof (cases rule: enqueue_cases)
    case nothing
    with assms(1) show ?thesis by simp
  next
    case (unsaved er c' s')
    have "dest s' = Content d" using config_Save_error unsaved(2) d(1) by metis
    moreover have "memory_agrees (Some cl') d"
      using config_Save_fields[OF unsaved(2)] m assms(3) unsaved(3) next_le[OF assms(3) m(2)]
      by (simp add: memory_agrees_def)
    ultimately show ?thesis using unsaved d by (intro consistentI[of _ d items]) auto
  next
    case (saved key rnd envelope c' s' er q)
    let ?n = "NextSequence (cfg cl)"
    have c': "NextSequence c' = ?n + 1" "Config_DeviceID c' = Config_DeviceID d"
      using config_Save_fields[OF saved(4)] assms(3) m by auto
    obtain d' where d': "dest s' = Content d'" "NextSequence d' = ?n + 1" "Config_DeviceID d' = Config_DeviceID d"
      using config_Save_disk[OF saved(4)] c' by auto
    have bound: "unat (NextSequence d) \<le> unat ?n" "unat (NextSequence d') = unat ?n + 1"
      using m(2) next_unat[OF assms(3)] d'(2) by (simp_all add: word_le_nat_alt)
    let ?item = "report_item t endpoint envelope"
    have e: "DeviceID envelope = Config_DeviceID d" "Sequence envelope = ?n"
      using Sign_fields[OF saved(3)] m by auto
    have n0: "0 < unat ?n" using d(2) bound(1) by (metis gr0I le_zero_eq unat_eq_zero)
    have new: "in_flight L H (net w) (Config_DeviceID d) (unat ?n + 1) ?item" "seq_of ?item = unat ?n"
      using d(6) bound e n0
      by (auto simp: in_flight_def report_item_def report_id_envelope stale_device_envelope seq_of_def)
    obtain items' where "pending_items q = Some items'" "sorted_wrt (<) (map seq_of items')"
      "list_all (in_flight L H (net w) (Config_DeviceID d) (unat ?n + 1)) items'"
      using push_in_flight[OF d(3) saved(5) d(4,5) _ new(1)] new(2) bound(1) by auto
    moreover have "memory_agrees (Some cl') d'" using c' d' saved(7) by (simp add: memory_agrees_def)
    moreover have "l < unat ?n + 1" if "L (net w) (Config_DeviceID d) = Some l" for l using d(6)[OF that] bound(1) by simp
    ultimately show ?thesis using saved(8) d' bound(2) assms(3) by (intro consistentI[of _ d' items']) auto
  qed
qed

lemma refresh_cases:
  assumes "refreshCodexHome t cl w = (e, cl', w')"
  obtains (same) "cfg cl' = cfg cl" "w' = w"
  | (moved) c2 er c3 s' where "NextSequence c2 = NextSequence (cfg cl)" "Config_DeviceID c2 = Config_DeviceID (cfg cl)"
      "config_Save (t_secrets t) (home_fault t) c2 (config_file w) = (er, c3, s')" "cfg cl' = c3"
      "config_file w' = s'" "queue_file w' = queue_file w" "net w' = net w"
proof (cases "cfg cl' = cfg cl \<and> w' = w")
  case True
  with same show ?thesis by blast
next
  case False
  let ?r = "ResolveCodexHome (t_host t) (CodexHome (cfg cl))"
  let ?k = "pathKey (t_host t) (Path ?r)"
  have run: "\<not> (\<not> IsZero (homeRead cl) \<and> time_Sub (t_clock t 0) (homeRead cl) < 5 * minute)"
    "\<not> (Path ?r = [] \<or> ?k = pathKey (t_host t) (CodexHome (cfg cl)))"
    using assms False by (auto simp: refreshCodexHome_def Let_def split: if_splits)
  obtain hash terr fs where ct: "ConfigureTelemetry (t_crypto t) (t_toml t) (home_env t) (OTLPToken (cfg cl)) (tomls w ?k) =
      ((hash, terr), fs)" by (metis prod.collapse)
  define c2 where "c2 = (if terr = None then (cfg cl)\<lparr>CodexHome := Path ?r, ExpectedConfigHash := hash\<rparr>
      else (cfg cl)\<lparr>CodexHome := Path ?r\<rparr>)"
  obtain er c3 s' where sv: "config_Save (t_secrets t) (home_fault t) c2 (config_file w) = (er, c3, s')"
    by (metis prod.collapse)
  have "cfg cl' = c3" "config_file w' = s'" "queue_file w' = queue_file w" "net w' = net w"
    using assms sv unfolding refreshCodexHome_def Let_def c2_def by (auto simp: run ct)
  with sv show ?thesis by (intro moved[of c2 er c3 s']) (simp_all add: c2_def)
qed

lemma consistent_refresh:
  assumes "consistent L H (Some cl, w)" and "refreshCodexHome t cl w = (e, cl', w')"
  shows "consistent L H (Some cl', w')"
proof -
  from assms(1) obtain d items where d: "dest (config_file w) = Content d" "NextSequence d \<noteq> 0"
    "pending_items (queue_file w) = Some items" "sorted_wrt (<) (map seq_of items)"
    "list_all (in_flight L H (net w) (Config_DeviceID d) (unat (NextSequence d))) items"
    "\<And>l. L (net w) (Config_DeviceID d) = Some l \<Longrightarrow> l < unat (NextSequence d)" "memory_agrees (Some cl) d"
    by (rule consistentE) blast
  from d(7) have m: "Config_DeviceID (cfg cl) = Config_DeviceID d" "NextSequence d \<le> NextSequence (cfg cl)"
    by (auto simp: memory_agrees_def)
  have n0: "NextSequence (cfg cl) \<noteq> 0" using m(2) d(2) by auto
  from assms(2) show ?thesis
  proof (cases rule: refresh_cases)
    case same
    then have "memory_agrees (Some cl') d" using m by (simp add: memory_agrees_def)
    with d same(2) show ?thesis by (intro consistentI) auto
  next
    case (moved c2 er c3 s')
    note f = config_Save_fields[OF moved(3)]
    show ?thesis
    proof (cases er)
      case None
      obtain d' where d': "dest s' = Content d'" "NextSequence d' = NextSequence (cfg cl)"
        "Config_DeviceID d' = Config_DeviceID d"
        using config_Save_disk[OF moved(3)[unfolded None]] f moved(1,2) n0 m by auto
      have b: "unat (NextSequence d) \<le> unat (NextSequence d')" using m d' by (simp add: word_le_nat_alt)
      have "memory_agrees (Some cl') d'" using f d' moved(1,2,4) n0 m by (simp add: memory_agrees_def)
      moreover have "l < unat (NextSequence d')" if "L (net w) (Config_DeviceID d) = Some l" for l
        using d(6)[OF that] b by simp
      ultimately show ?thesis
        using d d' moved(5,6,7) n0 list_all_in_flight_mono[OF d(5) b]
        by (intro consistentI[of _ d' items]) (auto simp del: word_le_nat_alt)
    next
      case (Some x)
      have "dest s' = Content d" using config_Save_error[OF moved(3)[unfolded Some]] d(1) by simp
      moreover have "memory_agrees (Some cl') d" using f moved(1,2,4) n0 m by (simp add: memory_agrees_def)
      ultimately show ?thesis using d moved(5,6,7) by (intro consistentI[of _ d items]) auto
    qed
  qed
qed

lemma consistent_restart:
  assumes "consistent L H (None, w)" and "New S now (config_file w) = Inr cl"
  shows "consistent L H (Some cl, w)"
  using assms config_Load_Content
  by (fastforce simp: consistent_def memory_agrees_def New_def split: sum.splits)


section \<open>Steps that involve the receiver\<close>

text \<open>The receiver answers that it does not know the client's device.\<close>

definition forgotten :: "('w, 'x) turn_scheme \<Rightarrow> Client \<Rightarrow> json Item \<Rightarrow> bool" where
  "forgotten t cl i = (stale_device (Envelope_data i) = Some (Config_DeviceID (cfg cl)) \<and>
     (\<exists>n. unknown_device (fst (post_item t cl i n))))"

context report_receiver
begin

lemma post_head:
  assumes "consistent last_seq handled (c, w)" and "pending_items (queue_file w) = Some (x # xs)"
    and "answers (Envelope_data x) (net w) a n"
  shows "consistent last_seq handled (c, w\<lparr>net := n\<rparr>) \<and> a \<noteq> Answer 409 body"
proof -
  obtain d where d: "dest (config_file w) = Content d" "NextSequence d \<noteq> 0" "sorted_wrt (<) (map seq_of (x # xs))"
    "list_all (in_flight last_seq handled (net w) (Config_DeviceID d) (unat (NextSequence d))) (x # xs)"
    "\<And>l. last_seq (net w) (Config_DeviceID d) = Some l \<Longrightarrow> l < unat (NextSequence d)" "memory_agrees c d"
    using assms(1,2) by (auto elim: consistentE)
  let ?d = "Config_DeviceID d"
  obtain q ev where x: "report_id (Envelope_data x) = Some (?d, q, ev)" "0 < q" "q < unat (NextSequence d)"
    "\<And>l. last_seq (net w) ?d = Some l \<Longrightarrow> l < q \<or> (?d, ev) \<in> handled (net w)"
    using d(4) by (auto simp: in_flight_def)
  have no409: "a \<noteq> Answer 409 body"
  proof
    assume "a = Answer 409 body"
    with answer_replay assms(3) obtain d' q' ev' l where "report_id (Envelope_data x) = Some (d', q', ev')"
      "last_seq (net w) d' = Some l" "q' \<le> l" "(d', ev') \<notin> handled (net w)" by blast
    with x show False by fastforce
  qed
  from answer_effect[OF assms(3)] show ?thesis
  proof
    assume "last_seq n = last_seq (net w) \<and> handled n = handled (net w)"
    then have "in_flight last_seq handled n = in_flight last_seq handled (net w)" by (simp add: in_flight_def fun_eq_iff)
    with d assms(2) \<open>last_seq n = _ \<and> _\<close> no409 show ?thesis by (auto intro!: consistentI)
  next
    assume "\<exists>d q ev l. report_id (Envelope_data x) = Some (d, q, ev) \<and> last_seq (net w) d = Some l \<and> l < q \<and>
      (d, ev) \<notin> handled (net w) \<and> last_seq n = (last_seq (net w))(d \<mapsto> q) \<and> handled n = insert (d, ev) (handled (net w))"
    then have n: "last_seq n = (last_seq (net w))(?d \<mapsto> q)" "handled n = insert (?d, ev) (handled (net w))"
      using x(1) by auto
    have "in_flight last_seq handled n ?d (unat (NextSequence d)) i" if "i \<in> set (x # xs)" for i
    proof (cases "i = x")
      case True
      with d(4) n x(1) show ?thesis by (auto simp: in_flight_def)
    next
      case False
      with that have "i \<in> set xs" by simp
      then have "q < seq_of i" using d(3) x(1) by (auto simp: seq_of_def)
      with d(4) \<open>i \<in> set xs\<close> n show ?thesis by (auto simp: in_flight_def list_all_iff seq_of_def)
    qed
    then have "list_all (in_flight last_seq handled n ?d (unat (NextSequence d))) (x # xs)" by (simp add: list_all_iff)
    with d assms(2) n x no409 show ?thesis by (auto intro!: consistentI[where d = d and items = "x # xs"])
  qed
qed

text \<open>Registration gives no number to a device that has one.\<close>

lemma register_keeps:
  assumes "consistent last_seq handled (c, w)" and "enrolls (net w) a n"
  shows "consistent last_seq handled (c, w\<lparr>net := n\<rparr>)"
proof -
  obtain d items where d: "dest (config_file w) = Content d" "NextSequence d \<noteq> 0"
    "pending_items (queue_file w) = Some items" "sorted_wrt (<) (map seq_of items)"
    "list_all (in_flight last_seq handled (net w) (Config_DeviceID d) (unat (NextSequence d))) items"
    "\<And>l. last_seq (net w) (Config_DeviceID d) = Some l \<Longrightarrow> l < unat (NextSequence d)" "memory_agrees c d"
    using assms(1) by (rule consistentE) blast
  have h: "handled n = handled (net w)" using enroll_effect[OF assms(2)] by simp
  have l: "l = 0 \<or> last_seq (net w) (Config_DeviceID d) = Some l" if "last_seq n (Config_DeviceID d) = Some l" for l
    using enroll_effect[OF assms(2)] that by (auto split: if_splits)
  have "in_flight last_seq handled n (Config_DeviceID d) b i"
    if "in_flight last_seq handled (net w) (Config_DeviceID d) b i" for b i
    using that l h by (fastforce simp: in_flight_def)
  then have "list_all (in_flight last_seq handled n (Config_DeviceID d) (unat (NextSequence d))) items"
    using d(5) by (simp add: list_all_iff)
  moreover have "k < unat (NextSequence d)" if "last_seq n (Config_DeviceID d) = Some k" for k
    using l[OF that] d(2,6) by (auto simp: unat_gt_0)
  ultimately show ?thesis using d by (intro consistentI[of _ d items]) auto
qed

lemma register_step:
  assumes "register t s a b c n = (r, n')" and "obeys answers enrolls issued t"
  shows "\<exists>ans. enrolls n ans n' \<and> (\<forall>e. r = Inr e \<longrightarrow> last_seq n' (enr_DeviceID e) = Some 0)"
proof -
  let ?u = "TrimRight s (CHR ''/'') @ ''/api/v1/register''" and ?b = "register_body a b c"
  obtain ans m where p: "t_register t ?u ?b n = (ans, m)" by (metis prod.collapse)
  have e: "enrolls n ans m" using assms(2) p unfolding obeys_def by (metis fst_conv snd_conv)
  have m: "n' = m" using assms(1) p by (auto simp: register_def Let_def split: http.splits)
  have "last_seq m (enr_DeviceID en) = Some 0" if en: "r = Inr en" for en
  proof -
    obtain x where x: "ans = Answer 200 x" "t_enrolled t (take 1048576 x) = Some en"
      using assms(1)[unfolded en] p by (auto simp: register_def Let_def split: http.splits if_splits option.splits)
    then have "issued x = Some (enr_DeviceID en)" using assms(2) by (simp add: obeys_def)
    with enroll_issues e x(1) show ?thesis by blast
  qed
  with e m show ?thesis by blast
qed

lemma reEnroll_step:
  assumes "reEnrollIfCurrent t d cl w = (e, cl', w')" and "obeys answers enrolls issued t"
    and "consistent last_seq handled (Some cl, w)"
  shows "consistent last_seq handled (Some cl', w')"
  using assms(1)
proof (cases rule: reEnroll_cases)
  case other
  with assms(3) show ?thesis by simp
next
  case kept
  obtain r where r: "register t (ServerURL (cfg cl)) (StudentName (cfg cl)) (DeviceLabel (cfg cl)) (PublicKey (cfg cl)) (net w) = (r, net w')"
    using kept(6) by blast
  obtain ans where "enrolls (net w) ans (net w')" using register_step[OF r assms(2)] by blast
  from register_keeps[OF assms(3) this] have k: "consistent last_seq handled (Some cl, w\<lparr>net := net w'\<rparr>)" .
  from kept(5) show ?thesis
  proof
    assume "dest (queue_file w') = dest (queue_file w)"
    with kept(3,4) k show ?thesis using consistent_cong[of w' "w\<lparr>net := net w'\<rparr>" last_seq handled "Some cl"] by simp
  next
    assume q: "dest (queue_file w') = Content []"
    with k kept(3,4) pending_Content[OF q] show ?thesis by (auto simp: consistent_def)
  qed
next
  case (renewed enrolled fp c')
  note f = config_Save_fields[OF renewed(5)]
  obtain disk where disk: "dest (config_file w') = Content disk" "NextSequence disk = 1"
    "Config_DeviceID disk = enr_DeviceID enrolled"
    using config_Save_disk[OF renewed(5)] f by (auto simp: enrolled_config_def)
  have "last_seq (net w') (enr_DeviceID enrolled) = Some 0" using register_step[OF renewed(4) assms(2)] by blast
  moreover have "memory_agrees (Some cl') disk" using f disk renewed(3) by (simp add: memory_agrees_def enrolled_config_def)
  ultimately show ?thesis
    using disk pending_Content[OF renewed(6)] by (intro consistentI[of _ disk "[]"]) auto
qed

lemma post_obeys:
  "obeys answers enrolls issued t \<Longrightarrow> post_item t cl x n = (a, n') \<Longrightarrow> answers (Envelope_data x) n a n'"
  unfolding obeys_def post_item_def by (metis fst_conv snd_conv)

lemma flush_run_consistent:
  assumes "flush_run t cl w sent e cl' w'" and "obeys answers enrolls issued t"
    and "consistent last_seq handled (Some cl, w)"
  shows "consistent last_seq handled (Some cl', w') \<and> (\<forall>(i, a) \<in> set sent. \<forall>body. a \<noteq> Answer 409 body)"
  using assms(1,3)
proof (induction rule: flush_run.induct)
  case (refused w item a n e)
  then obtain xs where "pending_items (queue_file w) = Some (item # xs)"
    using peek_items[OF refused(1)] by (auto elim!: consistentE split: list.splits)
  from post_head[OF refused.prems this post_obeys[OF assms(2) refused(2)]] show ?case by simp
next
  case (stale w item a n d e cl' w')
  then obtain xs where "pending_items (queue_file w) = Some (item # xs)"
    using peek_items[OF stale(1)] by (auto elim!: consistentE split: list.splits)
  from post_head[OF stale.prems this post_obeys[OF assms(2) stale(2)]] reEnroll_step[OF stale(5) assms(2)]
  show ?case by simp
next
  case (unpopped w item a n f e q)
  then obtain xs where p: "pending_items (queue_file w) = Some (item # xs)"
    using peek_items[OF unpopped(1)] by (auto elim!: consistentE split: list.splits)
  have "dest q = dest (queue_file w)"
    using unpopped(4) by (auto simp: Pop_def split: prod.splits if_splits dest: queue_save_error)
  with post_head[OF unpopped.prems p post_obeys[OF assms(2) unpopped(2)]] show ?case
    by (auto intro: consistent_cong[of "w\<lparr>net := n, queue_file := q\<rparr>" "w\<lparr>net := n\<rparr>"])
next
  case (deliver w item a n f q sent e cl' w')
  then obtain xs where p: "pending_items (queue_file w) = Some (item # xs)"
    using peek_items[OF deliver(1)] by (auto elim!: consistentE split: list.splits)
  note h = post_head[OF deliver.prems p post_obeys[OF assms(2) deliver(2)]]
  have "pending_items q = Some xs" using file_queue.pop_ok[OF p deliver(4)] by simp
  with h p have "consistent last_seq handled (Some cl, w\<lparr>net := n, queue_file := q\<rparr>)"
    using consistent_tail[of last_seq handled "Some cl" "w\<lparr>net := n\<rparr>" item xs q] by simp
  with deliver.IH h show ?case by simp
qed simp_all

lemma agent_step_consistent:
  "agent_step (obeys answers enrolls issued) resets s s' \<Longrightarrow> consistent last_seq handled s \<Longrightarrow>
   consistent last_seq handled s'"
proof (induction rule: agent_step.induct)
  case (queue_report t cl endpoint payload w e cl' w')
  then show ?case using consistent_enqueue by blast
next
  case (deliver_queue t cl w e cl' w')
  then show ?case using flush_run_consistent Flush_run by blast
next
  case (refresh_home t cl w e cl' w')
  then show ?case using consistent_refresh by blast
next
  case (own_work cl' cl w' w)
  then show ?case by (simp add: consistent_def memory_agrees_def)
next
  case (die c w)
  then show ?case by (auto simp: consistent_def memory_agrees_def)
next
  case (restart S now w cl)
  then show ?case using consistent_restart by blast
next
  case (database_reset w n c)
  have "\<And>d. last_seq n d = None" using reset_effect[OF database_reset(1)] .
  with database_reset(2) show ?case by (fastforce simp: consistent_def in_flight_def list_all_iff)
qed

lemma installed_consistent: "installed last_seq s \<Longrightarrow> consistent last_seq handled s"
  by (auto simp: installed_def consistent_def memory_agrees_def)

lemma reachable_consistent:
  "(agent_step (obeys answers enrolls issued) resets)\<^sup>*\<^sup>* s s' \<Longrightarrow> installed last_seq s \<Longrightarrow>
   consistent last_seq handled s'"
  by (induction rule: rtranclp_induct) (auto intro: installed_consistent agent_step_consistent)

lemma answer_handled_mono: "answers body n a n' \<Longrightarrow> handled n \<subseteq> handled n'"
  using answer_effect by blast

lemma flush_run_handled_mono:
  assumes "flush_run t cl w sent e cl' w'" and "obeys answers enrolls issued t"
  shows "handled (net w) \<subseteq> handled (net w')"
  using assms(1)
proof (induction rule: flush_run.induct)
  case (stale w item a n d e cl' w')
  have m: "handled (net w) \<subseteq> handled n" using answer_handled_mono post_obeys[OF assms(2) stale(2)] by blast
  from stale(5) show ?case
  proof (cases rule: reEnroll_cases)
    case other
    with m show ?thesis by simp
  next
    case kept
    then obtain r ans where "enrolls n ans (net w')" using register_step assms(2) by fastforce
    with m enroll_effect show ?thesis by blast
  next
    case (renewed enrolled fp c')
    then obtain ans where "enrolls n ans (net w')" using register_step assms(2) by fastforce
    with m enroll_effect show ?thesis by blast
  qed
qed (use answer_handled_mono post_obeys[OF assms(2)] in \<open>fastforce+\<close>)

lemma flush_run_handled:
  assumes "flush_run t cl w sent e cl' w'" and "obeys answers enrolls issued t"
  shows "\<forall>(i, a) \<in> set sent. accepted_answer a \<longrightarrow>
    (\<exists>d q ev. report_id (Envelope_data i) = Some (d, q, ev) \<and> (d, ev) \<in> handled (net w'))"
proof -
  have ok: "\<exists>d q ev. report_id (Envelope_data i) = Some (d, q, ev) \<and> (d, ev) \<in> handled n'"
    if "post_item t cl i n = (a, n')" "accepted_answer a" for i n a n'
    using that answer_accepts post_obeys[OF assms(2) that(1)] by (cases a) (auto simp: accepted_answer_def)
  show ?thesis using assms(1)
  proof (induction rule: flush_run.induct)
    case (stale w item a n d e cl' w')
    have "\<not> accepted_answer a" using stale(3) by (cases a) (auto simp: accepted_answer_def unknown_device_def)
    then show ?case by simp
  next
    case (unpopped w item a n f e q)
    then show ?case using ok[OF unpopped(2,3)] by simp
  next
    case (deliver w item a n f q sent e cl' w')
    have "handled n \<subseteq> handled (net w')" using flush_run_handled_mono[OF deliver(5) assms(2)] by simp
    with ok[OF deliver(2,3)] deliver.IH show ?case by auto
  qed simp_all
qed

text \<open>Every item that leaves the queue was processed, or the receiver had lost the device.\<close>

lemma flush_run_removes:
  assumes "flush_run t cl w sent e cl' w'" and "obeys answers enrolls issued t"
    and "pending_items (queue_file w) = Some items"
  shows "\<exists>k \<le> length items.
    (\<forall>i \<in> set (take k items). \<exists>d q ev. report_id (Envelope_data i) = Some (d, q, ev) \<and> (d, ev) \<in> handled (net w')) \<and>
    (pending_items (queue_file w') = Some (drop k items) \<or>
     (k < length items \<and> dest (queue_file w') = Content [] \<and> forgotten t cl (items ! k)))"
  using assms(1,3)
proof (induction arbitrary: items rule: flush_run.induct)
  case (stale w item a n d e cl' w')
  obtain ys where ys: "items = item # ys" using peek_items[OF stale(1) stale.prems] by (cases items) auto
  show ?case
  proof (cases "dest (queue_file w') = dest (queue_file w)")
    case True
    with stale.prems pending_dest_cong[OF True] show ?thesis by (intro exI[of _ 0]) simp
  next
    case False
    have d: "Config_DeviceID (cfg cl) = d \<and> dest (queue_file w') = Content []"
      using stale(5) False by (cases rule: reEnroll_cases) auto
    moreover have "forgotten t cl item" using d stale(2,3,4) unfolding forgotten_def by (metis fst_conv)
    ultimately show ?thesis using ys by (intro exI[of _ 0]) simp
  qed
next
  case (unpopped w item a n f e q)
  have "dest q = dest (queue_file w)"
    using unpopped(4) by (auto simp: Pop_def split: prod.splits if_splits dest: queue_save_error)
  from pending_dest_cong[OF this] unpopped.prems show ?case by (intro exI[of _ 0]) simp
next
  case (deliver w item a n f q sent e cl' w')
  obtain ys where ys: "items = item # ys" using peek_items[OF deliver(1) deliver.prems] by (cases items) auto
  have "pending_items (queue_file (w\<lparr>net := n, queue_file := q\<rparr>)) = Some ys"
    using file_queue.pop_ok[OF deliver.prems deliver(4)] ys by simp
  from deliver.IH[OF this] obtain k where k: "k \<le> length ys"
    "\<forall>i \<in> set (take k ys). \<exists>d q ev. report_id (Envelope_data i) = Some (d, q, ev) \<and> (d, ev) \<in> handled (net w')"
    "pending_items (queue_file w') = Some (drop k ys) \<or>
     (k < length ys \<and> dest (queue_file w') = Content [] \<and> forgotten t cl (ys ! k))" by blast
  have "\<exists>d q ev. report_id (Envelope_data item) = Some (d, q, ev) \<and> (d, ev) \<in> handled (net w')"
    using flush_run_handled[OF flush_run.deliver[OF deliver(1-5)] assms(2)] deliver(3) by auto
  with k ys show ?case by (intro exI[of _ "Suc k"]) auto
qed (rule exI[of _ 0], simp)+

end

lemma rejected_answer:
  "flush_run t cl w sent e cl' w' \<Longrightarrow> e = Some (Rejected code body) \<Longrightarrow> \<exists>i b. (i, Answer code b) \<in> set sent"
proof (induction rule: flush_run.induct)
  case (stale w item a n d e cl' w')
  from stale(5) show ?case
    using stale(6) by (auto simp: reEnrollIfCurrent_def Let_def split: if_splits sum.splits prod.splits option.splits)
qed auto

section \<open>A sample run\<close>

definition open_checks :: server_checks where
  "open_checks = \<lparr>schema_ok = (\<lambda>_. True), signature_ok = (\<lambda>_ _. True), payload_ok = (\<lambda>_. True)\<rparr>"

definition server_turn :: "server turn" where
  "server_turn =
     \<lparr>t_crypto = client_crypto, t_secrets = secrets_other, t_host = client_host, t_toml = (\<lambda>_. None),
      t_clock = (\<lambda>i. Time (int i)), t_random = Some (replicate 16 CHR ''r''),
      t_post = (\<lambda>url body n. receive open_checks body n), t_register = (\<lambda>url body n. (NoAnswer, n)),
      t_enrolled = (\<lambda>_. None),
      home_env = toml_fine, home_fault = None, save_fault_of = None, push_fault = None, pop_fault = (\<lambda>_. None),
      reenroll_env = toml_fine, clear_fault = None, reenroll_fault = None\<rparr>"

definition server_world :: "server world" where
  "server_world =
     \<lparr>config_file = \<lparr>dest = Content (client_config\<lparr>NextSequence := 1\<rparr>), temp = Absent\<rparr>,
      queue_file = empty_slot, tomls = (\<lambda>_. \<lparr>toml_config = NoFile, toml_backup = NoFile\<rparr>),
      integrity_file = empty_slot, otel_file = empty_slot,
      net = \<lparr>devices = [(''dev'', \<lparr>public_key = [], last_sequence = 0\<rparr>)], processed_events = []\<rparr>\<rparr>"

abbreviation server_step :: "server_checks \<Rightarrow> (string \<Rightarrow> string option) \<Rightarrow> server agent \<Rightarrow> server agent \<Rightarrow> bool" where
  "server_step V issued \<equiv> agent_step (obeys (delivery V) (registration issued) issued) wiped"

lemma server_obeys: "obeys (delivery open_checks) (registration (\<lambda>_. None)) (\<lambda>_. None) server_turn"
  by (auto simp: obeys_def server_turn_def intro: delivery.answered registration.register_lost)

lemma server_installed: "installed last_seq_of (None, server_world)"
  by (simp add: installed_def server_world_def pending_items_def queue_load_def empty_slot_def last_seq_of_def)

text \<open>One report is queued after the first start.\<close>

lemma server_start:
  "\<exists>cl cl' w'. New secrets_other zero_time (config_file server_world) = Inr cl \<and>
     NextSequence (cfg cl) = 1 \<and>
     enqueue server_turn ''/api/v1/heartbeat'' (JObj []) cl server_world = (None, cl', w')"
proof -
  let ?c = "client_config\<lparr>NextSequence := 1\<rparr>"
  have dc: "Defaults ?c = ?c" by (simp add: client_config_def Defaults_def)
  have ne: "PrivateKey ?c \<noteq> []"
  proof
    assume "PrivateKey ?c = []"
    then have "b64_decode [] = Some (replicate 64 CHR ''k'')" using client_config_simps(3) by simp
    moreover have "b64_decode [] = Some []" using b64_decode_encode[of "[]"] by simp
    ultimately show False by simp
  qed
  have tk: "ProtectedOTLPToken ?c = []" by (simp add: client_config_def Defaults_def zero_config_def)
  have load: "config_Load secrets_other (config_file server_world) = Inr ?c"
    using dc ne tk by (simp add: config_Load_def server_world_def unseal_key_def unseal_token_def complete_def)
  then obtain cl where cl: "New secrets_other zero_time (config_file server_world) = Inr cl" "cfg cl = ?c"
    by (auto simp: New_def)
  have p: "pending_items (queue_file server_world) = Some []"
    by (simp add: server_world_def pending_items_def queue_load_def empty_slot_def)
  have key: "b64_decode (PrivateKey (cfg cl)) = Some (replicate 64 CHR ''k'')" using cl(2) by simp
  have sl: "seal (t_secrets server_turn) (Defaults (next_config cl)) = Inr ((Defaults (next_config cl))
      \<lparr>ProtectedPrivateKey := [], ProtectedOTLPToken := [], KeyProtection := ''root-owned-file''\<rparr>)"
    by (simp add: server_turn_def seal_other)
  have fl: "t_random server_turn = Some (replicate 16 CHR ''r'')" "save_fault_of server_turn = None"
    "push_fault server_turn = None" by (simp_all add: server_turn_def)
  obtain cl' w' where e: "enqueue server_turn ''/api/v1/heartbeat'' (JObj []) cl server_world = (None, cl', w')"
    using enqueue_succeeds[OF key _ _ _ _ _ sl p, where rnd = "replicate 16 CHR ''r''" and payload = "JObj []" and endpoint = "''/api/v1/heartbeat''"] fl by auto
  with cl show ?thesis by auto
qed

lemma server_pending: "pending_items (queue_file server_world) = Some []"
  by (simp add: server_world_def pending_items_def queue_load_def empty_slot_def)

lemma server_run:
  "\<exists>cl w. (server_step open_checks (\<lambda>_. None))\<^sup>*\<^sup>* (None, server_world) (Some cl, w) \<and>
     (\<exists>x. pending_items (queue_file w) = Some [x])"
proof -
  obtain cl cl' w' where c: "New secrets_other zero_time (config_file server_world) = Inr cl" "NextSequence (cfg cl) = 1"
    and e: "enqueue server_turn ''/api/v1/heartbeat'' (JObj []) cl server_world = (None, cl', w')" using server_start by blast
  from e server_pending have "\<exists>x. pending_items (queue_file w') = Some [x]"
    by (cases rule: enqueue_cases) (auto dest: file_queue.push_ok)
  moreover have "server_step open_checks (\<lambda>_. None) (None, server_world) (Some cl, server_world)"
    by (rule agent_step.restart[OF c(1)])
  moreover have "server_step open_checks (\<lambda>_. None) (Some cl, server_world) (Some cl', w')"
    using server_obeys c(2) e by (intro agent_step.queue_report) simp_all
  ultimately show ?thesis by (meson converse_rtranclp_into_rtranclp rtranclp.rtrancl_refl)
qed

text \<open>The item a successful \<open>enqueue\<close> appends.\<close>

lemma enqueued:
  assumes "enqueue t endpoint payload cl w = (None, cl', w')" and "pending_items (queue_file w) = Some items"
  shows "\<exists>e. pending_items (queue_file w') =
      Some (filter (live (cl_Queue cl) (t_clock t 4)) items @ [report_item t endpoint e]) \<and>
    DeviceID e = Config_DeviceID (cfg cl) \<and> Sequence e = NextSequence (cfg cl)"
  using assms(1)
proof (cases rule: enqueue_cases)
  case (saved key rnd envelope c' s' er q)
  have "pending_items q = Some (filter (live (cl_Queue cl) (t_clock t 4)) items @ [report_item t endpoint envelope])"
    using file_queue.push_ok[OF assms(2)] saved(5,6) by auto
  with saved(8) Sign_fields[OF saved(3)] show ?thesis by auto
qed simp_all

lemma client_enqueue_in:
  assumes "pending_items (queue_file w) = Some items"
  shows "\<exists>cl' w'. enqueue (client_turn answer) endpoint (JObj []) sample_client w = (None, cl', w')"
proof (rule enqueue_succeeds[where key = "replicate 64 CHR ''k''"])
  show "length (replicate 64 CHR ''k'') = 64" by (rule length_replicate)
  show "seal (t_secrets (client_turn answer)) (Defaults (next_config sample_client)) =
      Inr ((Defaults (next_config sample_client))\<lparr>ProtectedPrivateKey := [], ProtectedOTLPToken := [],
        KeyProtection := ''root-owned-file''\<rparr>)"
    by (simp add: client_turn_def seal_other)
  show "pending_items (queue_file w) = Some items" by (rule assms)
qed (simp_all add: sample_client_def client_turn_def)

section \<open>Properties\<close>

text \<open>
  C1: an honest agent never raises the replay alarm. After any history of reports, deliveries, home
  changes, crashes, restarts and lost messages, and also after a reset of the server's database, a
  delivery is never answered with 409 "replayed sequence".
\<close>

theorem no_honest_replay:
  assumes "(server_step V issued)\<^sup>*\<^sup>* s (Some cl, w)" and "installed last_seq_of s"
    and "obeys (delivery V) (registration issued) issued t" and "Flush t cl w = (e, cl', w')"
  shows "e \<noteq> Some (Rejected 409 body)"
proof
  assume e: "e = Some (Rejected 409 body)"
  have c: "consistent last_seq_of handled_of (Some cl, w)"
    by (rule class_server.reachable_consistent[OF assms(1,2)])
  obtain sent where run: "flush_run t cl w sent e cl' w'" using Flush_run[OF assms(4)] by blast
  have "\<forall>(i, a) \<in> set sent. \<forall>body. a \<noteq> Answer 409 body"
    using class_server.flush_run_consistent[OF run assms(3) c] by blast
  with rejected_answer[OF run[unfolded e]] show False by fastforce
qed

theorem no_honest_replay_witness:
  "\<exists>cl w x. (server_step open_checks (\<lambda>_. None))\<^sup>*\<^sup>* (None, server_world) (Some cl, w) \<and>
     pending_items (queue_file w) = Some [x] \<and> fst (Flush server_turn cl w) \<noteq> Some (Rejected 409 [])"
proof -
  obtain cl w x where r: "(server_step open_checks (\<lambda>_. None))\<^sup>*\<^sup>* (None, server_world) (Some cl, w)"
    "pending_items (queue_file w) = Some [x]" using server_run by blast
  obtain e cl' w' where "Flush server_turn cl w = (e, cl', w')" by (metis prod.collapse)
  with no_honest_replay[OF r(1) server_installed server_obeys this] r show ?thesis by (metis fst_conv)
qed

text \<open>
  C4: sequence numbers are never reused. In every reachable state, whatever has crashed or failed
  before, the queued reports carry strictly increasing numbers, all of the device in the configuration
  file and all below the next number stored there, so the next report gets a new one.
\<close>

theorem sequences_increase:
  assumes "(server_step V issued)\<^sup>*\<^sup>* s (c, w)" and "installed last_seq_of s"
  shows "\<exists>d items. dest (config_file w) = Content d \<and> pending_items (queue_file w) = Some items \<and>
    sorted_wrt (<) (map seq_of items) \<and>
    (\<forall>i \<in> set items. \<exists>ev. report_id (Envelope_data i) = Some (Config_DeviceID d, seq_of i, ev) \<and>
       0 < seq_of i \<and> seq_of i < unat (NextSequence d)) \<and>
    (\<forall>cl. c = Some cl \<longrightarrow> Config_DeviceID (cfg cl) = Config_DeviceID d \<and> NextSequence d \<le> NextSequence (cfg cl))"
proof -
  have "consistent last_seq_of handled_of (c, w)"
    by (rule class_server.reachable_consistent[OF assms])
  then obtain d items where d: "dest (config_file w) = Content d" "pending_items (queue_file w) = Some items"
    "sorted_wrt (<) (map seq_of items)"
    "list_all (in_flight last_seq_of handled_of (net w) (Config_DeviceID d) (unat (NextSequence d))) items"
    "memory_agrees c d" by (rule consistentE) blast
  have "\<exists>ev. report_id (Envelope_data i) = Some (Config_DeviceID d, seq_of i, ev) \<and> 0 < seq_of i \<and> seq_of i < unat (NextSequence d)"
    if "i \<in> set items" for i
    using d(4) that by (fastforce simp: list_all_iff in_flight_def seq_of_def)
  with d show ?thesis by (auto simp: memory_agrees_def)
qed

theorem sequences_increase_witness:
  "\<exists>cl w d x. (server_step open_checks (\<lambda>_. None))\<^sup>*\<^sup>* (None, server_world) (Some cl, w) \<and>
     dest (config_file w) = Content d \<and> pending_items (queue_file w) = Some [x] \<and> seq_of x < unat (NextSequence d)"
proof -
  obtain cl w x where r: "(server_step open_checks (\<lambda>_. None))\<^sup>*\<^sup>* (None, server_world) (Some cl, w)"
    "pending_items (queue_file w) = Some [x]" using server_run by blast
  from sequences_increase[OF r(1) server_installed] r show ?thesis by auto
qed

text \<open>
  No report is lost. The items that a \<open>Flush\<close> takes off the queue are a prefix of it, and the server
  has processed each of them, whatever was lost on the way; the rest is still queued, unless the
  server has answered that it does not know the device any more.
\<close>

theorem removed_is_processed:
  assumes "obeys (delivery V) (registration issued) issued t" and "Flush t cl w = (e, cl', w')"
    and "pending_items (queue_file w) = Some items"
  shows "\<exists>k \<le> length items.
    (\<forall>i \<in> set (take k items). \<exists>d q ev. report_id (Envelope_data i) = Some (d, q, ev) \<and> (d, ev) \<in> handled_of (net w')) \<and>
    (pending_items (queue_file w') = Some (drop k items) \<or>
     (k < length items \<and> dest (queue_file w') = Content [] \<and> forgotten t cl (items ! k)))"
proof -
  obtain sent where "flush_run t cl w sent e cl' w'" using Flush_run[OF assms(2)] by blast
  from class_server.flush_run_removes[OF this assms(1,3)] show ?thesis .
qed

theorem removed_is_processed_witness:
  "\<exists>cl w x e cl' w'. pending_items (queue_file w) = Some [x] \<and> Flush server_turn cl w = (e, cl', w') \<and>
     (pending_items (queue_file w') = Some [x] \<or> pending_items (queue_file w') = Some [] \<or> forgotten server_turn cl x)"
proof -
  obtain cl :: Client and w :: "server world" and x where r: "pending_items (queue_file w) = Some [x]"
    using server_run by blast
  obtain e cl' w' where f: "Flush server_turn cl w = (e, cl', w')" by (metis prod.collapse)
  from removed_is_processed[OF server_obeys f r] obtain k where "k \<le> 1"
    "pending_items (queue_file w') = Some (drop k [x]) \<or> (k < 1 \<and> forgotten server_turn cl ([x] ! k))" by auto
  then have "pending_items (queue_file w') = Some [x] \<or> pending_items (queue_file w') = Some [] \<or> forgotten server_turn cl x"
    by (cases k) auto
  with r f show ?thesis by blast
qed

text \<open>
  C39: the sequence numbers are safe for one process only. Two processes that have loaded the same
  configuration give the same number to their next reports, and a server that has accepted this
  number refuses the report of the other process without processing it.
\<close>

theorem second_process_clashes:
  assumes "enqueue t endpoint payload cl w = (None, cl1, w1)"
    and "enqueue t' endpoint' payload' cl w1 = (None, cl2, w2)"
    and "pending_items (queue_file w) = Some items"
  shows "\<exists>xs first ys second d q ev ev'. pending_items (queue_file w1) = Some (xs @ [first]) \<and>
    pending_items (queue_file w2) = Some (ys @ [second]) \<and>
    report_id (Envelope_data first) = Some (d, q, ev) \<and> report_id (Envelope_data second) = Some (d, q, ev') \<and>
    (\<forall>V s b s'. last_seq_of s d = Some q \<and> (d, ev') \<notin> handled_of s \<and> receive V (Envelope_data second) s = (b, s') \<longrightarrow>
       \<not> accepted_answer b \<and> s' = s)"
proof -
  obtain e1 where 1: "pending_items (queue_file w1) =
      Some (filter (live (cl_Queue cl) (t_clock t 4)) items @ [report_item t endpoint e1])"
    "DeviceID e1 = Config_DeviceID (cfg cl)" "Sequence e1 = NextSequence (cfg cl)"
    using enqueued[OF assms(1,3)] by blast
  obtain e2 where 2: "pending_items (queue_file w2) =
      Some (filter (live (cl_Queue cl) (t_clock t' 4))
        (filter (live (cl_Queue cl) (t_clock t 4)) items @ [report_item t endpoint e1]) @ [report_item t' endpoint' e2])"
    "DeviceID e2 = Config_DeviceID (cfg cl)" "Sequence e2 = NextSequence (cfg cl)"
    using enqueued[OF assms(2) 1(1)] by blast
  have r: "report_id (Envelope_data (report_item t endpoint e1)) = Some (DeviceID e1, unat (Sequence e1), EventID e1)"
    "report_id (Envelope_data (report_item t' endpoint' e2)) = Some (DeviceID e1, unat (Sequence e1), EventID e2)"
    using 1(2,3) 2(2,3) by (simp_all add: report_item_def report_id_envelope)
  have "\<not> accepted_answer b \<and> s' = s"
    if "last_seq_of s (DeviceID e1) = Some (unat (Sequence e1))" "(DeviceID e1, EventID e2) \<notin> handled_of s"
      "receive V (Envelope_data (report_item t' endpoint' e2)) s = (b, s')" for V s b s'
    using that r(2)
    by (auto simp: receive_def last_seq_of_def handled_of_def accepted_answer_def split: option.splits if_splits)
  with 1(1) 2(1) r show ?thesis by blast
qed

theorem second_process_clashes_witness:
  "\<exists>cl1 w1 cl2 w2. enqueue (client_turn NoAnswer) ''/api/v1/heartbeat'' (JObj []) sample_client (client_world []) = (None, cl1, w1) \<and>
     enqueue (client_turn NoAnswer) ''/api/v1/events'' (JObj []) sample_client w1 = (None, cl2, w2) \<and>
     (\<exists>xs x ys y d q ev ev'. pending_items (queue_file w1) = Some (xs @ [x]) \<and> pending_items (queue_file w2) = Some (ys @ [y]) \<and>
        report_id (Envelope_data x) = Some (d, q, ev) \<and> report_id (Envelope_data y) = Some (d, q, ev'))"
proof -
  obtain cl1 w1 where 1: "enqueue (client_turn NoAnswer) ''/api/v1/heartbeat'' (JObj []) sample_client (client_world []) = (None, cl1, w1)"
    using client_enqueue by blast
  obtain cl2 w2 where 2: "enqueue (client_turn NoAnswer) ''/api/v1/events'' (JObj []) sample_client w1 = (None, cl2, w2)"
    using client_enqueue_in enqueued[OF 1 client_pending] by blast
  from second_process_clashes[OF 1 2 client_pending] 1 2 show ?thesis by blast
qed

end
