(* ===== verification/RunLoop.thy ===== *)
theory RunLoop
  imports Delivery Reports
begin

text \<open>
  \<open>internal/agent/run.go\<close>: the reporting loop of the service and the single cycle. A \<open>round\<close> holds what
  the environment does in one pass of the loop: the clock, the requests that reach the local collector
  before it, one \<open>cycle\<close> per operation, and whether the context is done at the end. Only \<open>OTelUsage\<close> reads
  the store of the collector, so a request that arrives during another operation is one of the next round.
\<close>

section \<open>The loop\<close>

record collector_call =
  call_zone :: "collector option"
  call_fault :: "save_fault option"
  call_request :: http_request

definition collect_one :: "Client \<Rightarrow> collector_call \<Rightarrow> 'w world \<Rightarrow> 'w world" where
  "collect_one cl k w = w\<lparr>otel_file := snd (logs_handler (call_zone k) (OTLPToken (cfg cl)) (RetentionDays (cfg cl))
     (call_fault k) (call_request k) (otel_file w))\<rparr>"

record 'w round =
  r_now :: go_time
  r_calls :: "collector_call list"
  r_otel :: "'w cycle"
  r_usage :: "'w cycle"
  r_integrity :: "'w cycle"
  r_heartbeat :: "'w cycle"
  r_cancelled :: bool

datatype task = OTel_task | Usage_task | Integrity_task | Heartbeat_task

text \<open>An attempt with an error is what the source prints; the waits are those of \<open>Sleep\<close> and of \<open>select\<close>.\<close>

datatype run_event = Attempted task go_time "report_err option" | Slept duration | Waited duration

record run_state =
  backoff :: duration
  lastUsage :: go_time
  lastIntegrity :: go_time

definition run_start :: run_state where
  "run_start = \<lparr>backoff = second, lastUsage = zero_time, lastIntegrity = zero_time\<rparr>"

definition due :: "go_time \<Rightarrow> go_time \<Rightarrow> int \<Rightarrow> bool" where
  "due now prev seconds = (time_Sub now prev \<ge> wrap64 (seconds * second))"

definition attempt_if ::
  "bool \<Rightarrow> task \<Rightarrow> go_time \<Rightarrow> (Client \<Rightarrow> 'w world \<Rightarrow> report_err option \<times> Client \<times> 'w world) \<Rightarrow>
     run_event list \<times> Client \<times> 'w world \<Rightarrow> run_event list \<times> Client \<times> 'w world" where
  "attempt_if b k now operation s =
     (if b then (case s of (evs, cl, w) \<Rightarrow> case operation cl w of (e, cl', w') \<Rightarrow> (evs @ [Attempted k now e], cl', w'))
      else s)"

definition next_backoff :: "report_err option \<Rightarrow> duration \<Rightarrow> duration" where
  "next_backoff e b = (case e of None \<Rightarrow> second | Some _ \<Rightarrow> if b < 30 * second then b * 2 else b)"

definition run_round ::
  "string \<Rightarrow> 'w round \<Rightarrow> run_state \<Rightarrow> Client \<Rightarrow> 'w world \<Rightarrow> run_event list \<times> run_state \<times> Client \<times> 'w world" where
  "run_round configPath r st cl w =
     (let now = r_now r
      in case attempt_if True OTel_task now (OTelUsage (r_otel r)) ([], cl, fold (collect_one cl) (r_calls r) w) of
           (evs1, cl1, w1) \<Rightarrow>
             let u = due now (lastUsage st) (UsageSeconds (cfg cl1))
             in (case attempt_if u Usage_task now (Usage (r_usage r)) (evs1, cl1, w1) of
                   (evs2, cl2, w2) \<Rightarrow>
                     let i = due now (lastIntegrity st) (IntegritySeconds (cfg cl2))
                     in (case attempt_if i Integrity_task now (Integrity (r_integrity r) configPath) (evs2, cl2, w2) of
                           (evs3, cl3, w3) \<Rightarrow>
                             case Heartbeat (r_heartbeat r) cl3 w3 of
                               (e, cl4, w4) \<Rightarrow>
                                 (evs3 @ Attempted Heartbeat_task now e # (if e = None then [] else [Slept (backoff st)]),
                                  \<lparr>backoff = next_backoff e (backoff st), lastUsage = (if u then now else lastUsage st),
                                   lastIntegrity = (if i then now else lastIntegrity st)\<rparr>, cl4, w4))))"

text \<open>The flag tells whether the loop has ended; on a finite list of rounds it may still be running.\<close>

fun run_rounds ::
  "string \<Rightarrow> 'w round list \<Rightarrow> run_state \<Rightarrow> Client \<Rightarrow> 'w world \<Rightarrow> run_event list \<times> bool \<times> Client \<times> 'w world" where
  "run_rounds configPath [] st cl w = ([], False, cl, w)"
| "run_rounds configPath (r # rs) st cl w =
     (case run_round configPath r st cl w of (evs, st', cl', w') \<Rightarrow>
        if r_cancelled r then (evs, True, cl', w')
        else (case run_rounds configPath rs st' cl' w' of (evs', s) \<Rightarrow>
                (evs @ Waited (wrap64 (HeartbeatSeconds (cfg cl') * second)) # evs', s)))"

datatype run_err = ListenFailed

text \<open>
  Once the port is open the server and its shutdown run in goroutines of their own; what they do to the
  state is the handler, \<open>collect_one\<close>.
\<close>

definition StartOTelServer :: "bool \<Rightarrow> run_err option" where
  "StartOTelServer listens = (if listens then None else Some ListenFailed)"

text \<open>The result: \<open>None\<close> while it is running, then the value that \<open>Run\<close> returns.\<close>

definition Run ::
  "string \<Rightarrow> bool \<Rightarrow> 'w round list \<Rightarrow> Client \<Rightarrow> 'w world \<Rightarrow> run_event list \<times> run_err option option \<times> Client \<times> 'w world" where
  "Run configPath listens rs cl w =
     (case StartOTelServer listens of
        Some e \<Rightarrow> ([], Some (Some e), cl, w)
      | None \<Rightarrow>
          (case run_rounds configPath rs run_start cl w of
             (evs, stopped, s) \<Rightarrow> (evs, if stopped then Some None else None, s)))"

lemma Run_eq:
  "Run configPath listens rs cl w =
     (if \<not> listens then ([], Some (Some ListenFailed), cl, w)
      else (case run_rounds configPath rs run_start cl w of
              (evs, stopped, s) \<Rightarrow> (evs, if stopped then Some None else None, s)))"
  by (simp add: Run_def StartOTelServer_def)

section \<open>The single cycle\<close>

definition keep_first :: "report_err option \<Rightarrow> report_err option \<Rightarrow> report_err option" where
  "keep_first first e = (case first of None \<Rightarrow> e | Some _ \<Rightarrow> first)"

definition Cycle ::
  "string \<Rightarrow> 'w cycle \<Rightarrow> 'w cycle \<Rightarrow> 'w cycle \<Rightarrow> 'w cycle \<Rightarrow> Client \<Rightarrow> 'w world \<Rightarrow>
     report_err option \<times> Client \<times> 'w world" where
  "Cycle configPath t1 t2 t3 t4 cl w =
     (case Usage t1 cl w of (e1, cl1, w1) \<Rightarrow>
      case OTelUsage t2 cl1 w1 of (e2, cl2, w2) \<Rightarrow>
      case Integrity t3 configPath cl2 w2 of (e3, cl3, w3) \<Rightarrow>
      case Heartbeat t4 cl3 w3 of (e4, cl4, w4) \<Rightarrow>
        (keep_first (keep_first (keep_first e1 e2) e3) e4, cl4, w4))"

section \<open>Traces\<close>

definition attempt_of :: "task \<Rightarrow> run_event \<Rightarrow> (go_time \<times> report_err option) option" where
  "attempt_of k ev = (case ev of Attempted k' now e \<Rightarrow> if k' = k then Some (now, e) else None | _ \<Rightarrow> None)"

definition slept :: "run_event \<Rightarrow> duration option" where
  "slept ev = (case ev of Slept d \<Rightarrow> Some d | _ \<Rightarrow> None)"

text \<open>The instants at which a task was attempted.\<close>

definition attempts :: "task \<Rightarrow> run_event list \<Rightarrow> go_time list" where
  "attempts k evs = map fst (List.map_filter (attempt_of k) evs)"

text \<open>Which heartbeats went through.\<close>

definition beats :: "run_event list \<Rightarrow> bool list" where
  "beats evs = map (\<lambda>(_, e). e = None) (List.map_filter (attempt_of Heartbeat_task) evs)"

definition sleeps :: "run_event list \<Rightarrow> duration list" where
  "sleeps evs = List.map_filter slept evs"

named_theorems trace_simps

lemma trace_empty [trace_simps]: "attempts k [] = []" "beats [] = []" "sleeps [] = []"
  by (simp_all add: attempts_def beats_def sleeps_def map_filter_simps)

lemma trace_append [trace_simps]:
  "attempts k (xs @ ys) = attempts k xs @ attempts k ys" "beats (xs @ ys) = beats xs @ beats ys"
  "sleeps (xs @ ys) = sleeps xs @ sleeps ys"
  by (simp_all add: attempts_def beats_def sleeps_def map_filter_def)

lemma trace_Cons [trace_simps]:
  "attempts k (Attempted k' now e # evs) = (if k' = k then now # attempts k evs else attempts k evs)"
  "attempts k (Slept d # evs) = attempts k evs" "attempts k (Waited d # evs) = attempts k evs"
  "beats (Attempted k now e # evs) = (if k = Heartbeat_task then (e = None) # beats evs else beats evs)"
  "beats (Slept d # evs) = beats evs" "beats (Waited d # evs) = beats evs"
  "sleeps (Attempted k now e # evs) = sleeps evs" "sleeps (Slept d # evs) = d # sleeps evs"
  "sleeps (Waited d # evs) = sleeps evs"
  by (simp_all add: attempts_def beats_def sleeps_def map_filter_simps attempt_of_def slept_def)

section \<open>What every operation keeps\<close>

text \<open>The client changes these fields of its configuration on its own; the rest only on a new enrollment.\<close>

definition moves_on :: "Config \<Rightarrow> Config \<Rightarrow> bool" where
  "moves_on c d = (\<exists>h x n. d = c\<lparr>CodexHome := h, ExpectedConfigHash := x, NextSequence := n\<rparr>)"

lemma moves_on_updates:
  "moves_on c (c\<lparr>CodexHome := h\<rparr>)" "moves_on c (c\<lparr>CodexHome := h, ExpectedConfigHash := x\<rparr>)"
  "moves_on c (c\<lparr>NextSequence := n\<rparr>)"
proof -
  show "moves_on c (c\<lparr>CodexHome := h\<rparr>)" unfolding moves_on_def
    by (intro exI[of _ h] exI[of _ "ExpectedConfigHash c"] exI[of _ "NextSequence c"]) simp
  show "moves_on c (c\<lparr>CodexHome := h, ExpectedConfigHash := x\<rparr>)" unfolding moves_on_def
    by (intro exI[of _ h] exI[of _ x] exI[of _ "NextSequence c"]) simp
  show "moves_on c (c\<lparr>NextSequence := n\<rparr>)" unfolding moves_on_def
    by (intro exI[of _ "CodexHome c"] exI[of _ "ExpectedConfigHash c"] exI[of _ n]) simp
qed

definition renewed_config :: "EnrollResponse \<Rightarrow> string \<Rightarrow> Config \<Rightarrow> Config" where
  "renewed_config e fp c = (Defaults ((enrolled_config e c)\<lparr>NextSequence := 1\<rparr>))\<lparr>ExpectedConfigHash := fp\<rparr>"

lemma register_enrolled: "register t s name label key n = (Inr enrolled, n') \<Longrightarrow> \<exists>x. t_enrolled t x = Some enrolled"
  by (auto simp: register_def Let_def split: prod.splits http.splits if_splits option.splits)

lemma cachedQuota_cfg [simp]: "cachedQuota t cl = (q, cl') \<Longrightarrow> cfg cl' = cfg cl \<and> cl_Queue cl' = cl_Queue cl"
  by (auto simp: cachedQuota_def Let_def split: if_splits sum.splits option.splits)

text \<open>
  An invariant of the configuration in memory and the configuration file, in environments \<open>ok\<close>, that survives
  a save of these fields, successful or not, and a completed enrollment.
\<close>

locale config_invariant =
  fixes P :: "Config \<Rightarrow> Config slot \<Rightarrow> bool" and ok :: "'w cycle \<Rightarrow> bool"
  assumes kept_file: "P c s \<Longrightarrow> dest s' = dest s \<Longrightarrow> P c s'"
    and kept_save: "P c s \<Longrightarrow> ok t \<Longrightarrow> moves_on c d \<Longrightarrow> config_Save (t_secrets t) f d s = (e, c', s') \<Longrightarrow> P c' s'"
    and kept_enroll: "P c s \<Longrightarrow> ok t \<Longrightarrow> t_enrolled t x = Some enrolled \<Longrightarrow>
      config_Save (t_secrets t) f (renewed_config enrolled fp c) s = (None, c', s') \<Longrightarrow> P c' s'"
begin

abbreviation holds :: "Client \<Rightarrow> 'w world \<Rightarrow> bool" where
  "holds cl w \<equiv> P (cfg cl) (config_file w)"

lemma keeps_refresh:
  assumes "refreshCodexHome t cl w = (e, cl', w')" and "holds cl w" and "ok t"
  shows "holds cl' w'"
  using assms(1,2) kept_save[OF assms(2,3) moves_on_updates(1)] kept_save[OF assms(2,3) moves_on_updates(2)]
  by (auto simp: refreshCodexHome_def Let_def split: if_splits prod.splits)

lemma keeps_enqueue:
  assumes "enqueue t endpoint payload cl w = (e, cl', w')" and "holds cl w" and "ok t"
  shows "holds cl' w'"
proof -
  have n: "moves_on (cfg cl) (next_config cl)" by (simp add: next_config_def moves_on_updates(3))
  from assms(1) show ?thesis
    by (cases rule: enqueue_cases) (use assms(2) kept_save[OF assms(2,3) n] in auto)
qed

lemma keeps_reEnroll:
  assumes "reEnrollIfCurrent t d cl w = (e, cl', w')" and "holds cl w" and "ok t"
  shows "holds cl' w'"
  using assms(1)
proof (cases rule: reEnroll_cases)
  case kept
  then show ?thesis using kept_file[OF assms(2)] by simp
next
  case (renewed enrolled fp c')
  obtain x where "t_enrolled t x = Some enrolled" using register_enrolled[OF renewed(4)] by blast
  from kept_enroll[OF assms(2,3) this renewed(5)[folded renewed_config_def]] renewed(3) show ?thesis by simp
qed (use assms(2) in simp)

lemma keeps_flush_run: "flush_run t cl w sent e cl' w' \<Longrightarrow> holds cl w \<Longrightarrow> ok t \<Longrightarrow> holds cl' w'"
  by (induction rule: flush_run.induct) (auto dest: keeps_reEnroll)

lemma keeps_send:
  assumes "send t endpoint payload cl w = (e, cl', w')" and "holds cl w" and "ok t"
  shows "holds cl' w'"
proof -
  obtain er cl1 w1 where q: "enqueue t endpoint payload cl w = (er, cl1, w1)" by (metis prod.collapse)
  note i = keeps_enqueue[OF q assms(2,3)]
  show ?thesis
  proof (cases er)
    case None
    obtain fe cl2 w2 where f: "Flush t cl1 w1 = (fe, cl2, w2)" by (metis prod.collapse)
    then obtain sent where "flush_run t cl1 w1 sent fe cl2 w2" using Flush_run by blast
    from keeps_flush_run[OF this i assms(3)] assms(1) q None f show ?thesis by (simp add: send_def report_def)
  next
    case (Some x)
    with assms(1) q i show ?thesis by (simp add: send_def report_def)
  qed
qed

lemma keeps_after_refresh:
  assumes "after_refresh t body cl w = (e, cl', w')" and "holds cl w" and "ok t"
    and "\<And>cl w e cl' w'. body cl w = (e, cl', w') \<Longrightarrow> holds cl w \<Longrightarrow> holds cl' w'"
  shows "holds cl' w'"
proof -
  obtain er cl1 w1 where r: "refreshCodexHome t cl w = (er, cl1, w1)" by (metis prod.collapse)
  note i = keeps_refresh[OF r assms(2,3)]
  from assms(1) r i assms(4)[OF _ i] show ?thesis by (auto simp: after_refresh_def split: option.splits)
qed

lemma keeps_operations:
  assumes "holds cl w" and "ok t"
  shows "OTelUsage t cl w = (e, cl', w') \<Longrightarrow> holds cl' w'"
    and "Usage t cl w = (e, cl', w') \<Longrightarrow> holds cl' w'"
    and "Integrity t configPath cl w = (e, cl', w') \<Longrightarrow> holds cl' w'"
    and "Heartbeat t cl w = (e, cl', w') \<Longrightarrow> holds cl' w'"
proof -
  have send: "holds cl' w'" if "send t endpoint payload cl w = (e, cl', w')" "P (cfg cl) s" "s = config_file w"
    for endpoint payload cl w e cl' w' s using keeps_send[OF that(1)] that(2,3) assms(2) by simp
  show "holds cl' w'" if "OTelUsage t cl w = (e, cl', w')"
    using that assms(1) by (auto simp: OTelUsage_def dest: send split: option.splits)
  show "holds cl' w'" if "Usage t cl w = (e, cl', w')"
    using that unfolding Usage_def by (rule keeps_after_refresh[OF _ assms]) (auto dest: send split: sum.splits)
  show "holds cl' w'" if "Integrity t configPath cl w = (e, cl', w')"
    using that unfolding Integrity_def
    by (rule keeps_after_refresh[OF _ assms]) (auto dest: send split: sum.splits prod.splits)
  show "holds cl' w'" if "Heartbeat t cl w = (e, cl', w')"
    using that unfolding Heartbeat_def Let_def
    by (rule keeps_after_refresh[OF _ assms]) (auto dest!: send cachedQuota_cfg split: prod.splits)
qed

lemma keeps_collect: "holds cl w \<Longrightarrow> holds cl (fold (collect_one cl) ks w)"
proof (induction ks arbitrary: w)
  case (Cons k ks)
  have "config_file (collect_one cl k w) = config_file w" by (simp add: collect_one_def)
  with Cons show ?case by simp
qed simp

end

section \<open>The intervals stay those of the server\<close>

definition intervals :: "Config \<Rightarrow> int \<times> int" where
  "intervals c = (UsageSeconds c, IntegritySeconds c)"

text \<open>A turn in which the server hands out the intervals \<open>p\<close>, if it enrolls at all.\<close>

definition steady :: "int \<times> int \<Rightarrow> ('w, 'x) turn_scheme \<Rightarrow> bool" where
  "steady p t = (0 < fst p \<and> 300 \<le> snd p \<and>
     (\<forall>x e. t_enrolled t x = Some e \<longrightarrow> (enr_UsageSeconds e, enr_IntegritySeconds e) = p))"

lemma intervals_Save:
  assumes "config_Save S f c s = (e, c', s')" and "intervals c = p" and "steady p t"
  shows "intervals c' = p"
proof -
  obtain x where "c' = (Defaults c)\<lparr>KeyProtection := x\<rparr>" using config_Save_memory[OF assms(1)] by blast
  with assms(2,3) show ?thesis by (auto simp: intervals_def Defaults_def steady_def)
qed

interpretation steady_intervals: config_invariant "\<lambda>c s. intervals c = p" "steady p" for p
proof (unfold_locales, goal_cases)
  case (2 c s t d f e c' s')
  then have "intervals d = p" by (auto simp: moves_on_def intervals_def)
  then show ?case using intervals_Save 2(2,4) by blast
next
  case (3 c s t x enrolled f fp c' s')
  then have "intervals (renewed_config enrolled fp c) = p"
    by (auto simp: renewed_config_def steady_def intervals_def enrolled_config_def Defaults_def)
  then show ?case using intervals_Save 3(2,4) by blast
qed simp

section \<open>One round\<close>

abbreviation once_if :: "bool \<Rightarrow> 'a \<Rightarrow> 'a list" where
  "once_if b x \<equiv> (if b then [x] else [])"

definition steady_round :: "int \<times> int \<Rightarrow> 'w round \<Rightarrow> bool" where
  "steady_round p r = (steady p (r_otel r) \<and> steady p (r_usage r) \<and> steady p (r_integrity r) \<and> steady p (r_heartbeat r))"

lemma attempt_ifE:
  assumes "attempt_if b k now operation (evs, cl, w) = (evs', cl', w')"
  shows "\<exists>e. evs' = evs @ once_if b (Attempted k now e) \<and> (b \<longrightarrow> operation cl w = (e, cl', w')) \<and>
    (\<not> b \<longrightarrow> cl' = cl \<and> w' = w)"
  using assms by (auto simp: attempt_if_def split: if_splits prod.splits)

lemma round_shape:
  assumes "run_round configPath r st cl w = (evs, st', cl', w')"
  obtains e1 cl1 w1 u e2 cl2 w2 i e3 cl3 w3 e4 where
    "OTelUsage (r_otel r) cl (fold (collect_one cl) (r_calls r) w) = (e1, cl1, w1)"
    "u = due (r_now r) (lastUsage st) (UsageSeconds (cfg cl1))"
    "u \<longrightarrow> Usage (r_usage r) cl1 w1 = (e2, cl2, w2)" "\<not> u \<longrightarrow> cl2 = cl1 \<and> w2 = w1"
    "i = due (r_now r) (lastIntegrity st) (IntegritySeconds (cfg cl2))"
    "i \<longrightarrow> Integrity (r_integrity r) configPath cl2 w2 = (e3, cl3, w3)" "\<not> i \<longrightarrow> cl3 = cl2 \<and> w3 = w2"
    "Heartbeat (r_heartbeat r) cl3 w3 = (e4, cl', w')"
    "evs = Attempted OTel_task (r_now r) e1 # once_if u (Attempted Usage_task (r_now r) e2) @
       once_if i (Attempted Integrity_task (r_now r) e3) @ Attempted Heartbeat_task (r_now r) e4 #
       (if e4 = None then [] else [Slept (backoff st)])"
    "st' = \<lparr>backoff = next_backoff e4 (backoff st), lastUsage = (if u then r_now r else lastUsage st),
       lastIntegrity = (if i then r_now r else lastIntegrity st)\<rparr>"
proof -
  obtain evs1 cl1 w1 where 1: "attempt_if True OTel_task (r_now r) (OTelUsage (r_otel r))
      ([], cl, fold (collect_one cl) (r_calls r) w) = (evs1, cl1, w1)" by (metis prod.collapse)
  define u where "u = due (r_now r) (lastUsage st) (UsageSeconds (cfg cl1))"
  obtain evs2 cl2 w2 where 2: "attempt_if u Usage_task (r_now r) (Usage (r_usage r)) (evs1, cl1, w1) = (evs2, cl2, w2)"
    by (metis prod.collapse)
  define i where "i = due (r_now r) (lastIntegrity st) (IntegritySeconds (cfg cl2))"
  obtain evs3 cl3 w3 where 3: "attempt_if i Integrity_task (r_now r) (Integrity (r_integrity r) configPath) (evs2, cl2, w2) =
      (evs3, cl3, w3)" by (metis prod.collapse)
  obtain e4 cl4 w4 where 4: "Heartbeat (r_heartbeat r) cl3 w3 = (e4, cl4, w4)" by (metis prod.collapse)
  from assms have run: "evs = evs3 @ Attempted Heartbeat_task (r_now r) e4 # (if e4 = None then [] else [Slept (backoff st)])"
    "st' = \<lparr>backoff = next_backoff e4 (backoff st), lastUsage = (if u then r_now r else lastUsage st),
       lastIntegrity = (if i then r_now r else lastIntegrity st)\<rparr>" "cl' = cl4" "w' = w4"
    by (simp_all add: run_round_def Let_def 1 2 3 4 u_def[symmetric] i_def[symmetric])
  obtain e1 where 1: "evs1 = [Attempted OTel_task (r_now r) e1]"
    "OTelUsage (r_otel r) cl (fold (collect_one cl) (r_calls r) w) = (e1, cl1, w1)"
    using attempt_ifE[OF 1] by auto
  obtain e2 where 2: "evs2 = evs1 @ once_if u (Attempted Usage_task (r_now r) e2)"
    "u \<longrightarrow> Usage (r_usage r) cl1 w1 = (e2, cl2, w2)" "\<not> u \<longrightarrow> cl2 = cl1 \<and> w2 = w1"
    using attempt_ifE[OF 2] by blast
  obtain e3 where 3: "evs3 = evs2 @ once_if i (Attempted Integrity_task (r_now r) e3)"
    "i \<longrightarrow> Integrity (r_integrity r) configPath cl2 w2 = (e3, cl3, w3)" "\<not> i \<longrightarrow> cl3 = cl2 \<and> w3 = w2"
    using attempt_ifE[OF 3] by blast
  show ?thesis by (rule that[OF 1(2) u_def 2(2,3) i_def 3(2,3) 4[folded run(3,4)]])
    (simp_all add: run 1(1) 2(1) 3(1))
qed

context config_invariant
begin

definition ok_round :: "'w round \<Rightarrow> bool" where
  "ok_round r = (ok (r_otel r) \<and> ok (r_usage r) \<and> ok (r_integrity r) \<and> ok (r_heartbeat r))"

lemma keeps_round:
  assumes "run_round configPath r st cl w = (evs, st', cl', w')" and "holds cl w" and "ok_round r"
  shows "holds cl' w'"
  using assms(1)
proof (cases rule: round_shape)
  case (1 e1 cl1 w1 u e2 cl2 w2 i e3 cl3 w3 e4)
  note s = assms(3)[unfolded ok_round_def]
  have i1: "holds cl1 w1" using keeps_operations(1)[OF keeps_collect[OF assms(2)] _ 1(1)] s by blast
  have i2: "holds cl2 w2" using keeps_operations(2)[OF i1, of "r_usage r" e2 cl2 w2] s i1 1(3,4) by (cases u) auto
  have i3: "holds cl3 w3" using keeps_operations(3)[OF i2, of "r_integrity r" configPath e3 cl3 w3] s i2 1(6,7)
    by (cases i) auto
  show ?thesis using keeps_operations(4)[OF i3 _ 1(8)] s by blast
qed

lemma keeps_rounds:
  "run_rounds configPath rs st cl w = (evs, b, cl', w') \<Longrightarrow> holds cl w \<Longrightarrow> \<forall>r \<in> set rs. ok_round r \<Longrightarrow> holds cl' w'"
proof (induction rs arbitrary: st cl w evs)
  case (Cons r rs)
  obtain evs1 st1 cl1 w1 where r: "run_round configPath r st cl w = (evs1, st1, cl1, w1)" by (metis prod.collapse)
  have "holds cl1 w1" using keeps_round[OF r Cons.prems(2)] Cons.prems(3) by simp
  with Cons r show ?case by (auto split: if_splits prod.splits)
qed simp

end

lemma round_trace:
  assumes "run_round configPath r st cl w = (evs, st', cl', w')" and "intervals (cfg cl) = p" and "steady_round p r"
  shows "intervals (cfg cl') = p"
    and "attempts Usage_task evs = once_if (due (r_now r) (lastUsage st) (fst p)) (r_now r)"
    and "attempts Integrity_task evs = once_if (due (r_now r) (lastIntegrity st) (snd p)) (r_now r)"
    and "lastUsage st' = (if due (r_now r) (lastUsage st) (fst p) then r_now r else lastUsage st)"
    and "lastIntegrity st' = (if due (r_now r) (lastIntegrity st) (snd p) then r_now r else lastIntegrity st)"
proof -
  note s = assms(3)[unfolded steady_round_def]
  have "intervals (cfg cl') = p \<and>
        attempts Usage_task evs = once_if (due (r_now r) (lastUsage st) (fst p)) (r_now r) \<and>
        attempts Integrity_task evs = once_if (due (r_now r) (lastIntegrity st) (snd p)) (r_now r) \<and>
        lastUsage st' = (if due (r_now r) (lastUsage st) (fst p) then r_now r else lastUsage st) \<and>
        lastIntegrity st' = (if due (r_now r) (lastIntegrity st) (snd p) then r_now r else lastIntegrity st)"
    using assms(1)
  proof (cases rule: round_shape)
    case (1 e1 cl1 w1 u e2 cl2 w2 i e3 cl3 w3 e4)
    have i1: "intervals (cfg cl1) = p" using steady_intervals.keeps_operations(1)[OF assms(2) _ 1(1)] s by blast
    have i2: "intervals (cfg cl2) = p" using steady_intervals.keeps_operations(2)[OF i1, of "r_usage r" w1 e2 cl2 w2] s i1 1(3,4) by (cases u) auto
    have i3: "intervals (cfg cl3) = p" using steady_intervals.keeps_operations(3)[OF i2, of "r_integrity r" configPath w2 e3 cl3 w3] s i2 1(6,7)
      by (cases i) auto
    have i4: "intervals (cfg cl') = p" using steady_intervals.keeps_operations(4)[OF i3 _ 1(8)] s by blast
    have "UsageSeconds (cfg cl1) = fst p" "IntegritySeconds (cfg cl2) = snd p" using i1 i2 by (auto simp: intervals_def)
    with 1(2,5,9,10) i4 show ?thesis by (simp add: trace_simps)
  qed
  then show "intervals (cfg cl') = p"
    "attempts Usage_task evs = once_if (due (r_now r) (lastUsage st) (fst p)) (r_now r)"
    "attempts Integrity_task evs = once_if (due (r_now r) (lastIntegrity st) (snd p)) (r_now r)"
    "lastUsage st' = (if due (r_now r) (lastUsage st) (fst p) then r_now r else lastUsage st)"
    "lastIntegrity st' = (if due (r_now r) (lastIntegrity st) (snd p) then r_now r else lastIntegrity st)"
    by blast+
qed

section \<open>The configuration stays loadable\<close>

text \<open>Platforms that can open what they have sealed.\<close>

definition reversible :: "secrets \<Rightarrow> bool" where
  "reversible S = (S = secrets_other \<or> (\<exists>pr un. S = secrets_windows pr un \<and> (\<forall>v b. pr v = Some b \<longrightarrow> un b = Some v \<and> b \<noteq> [])))"

text \<open>A server that enrolls only with a device id and a collector token.\<close>

definition trusted :: "secrets \<Rightarrow> 'w cycle \<Rightarrow> bool" where
  "trusted S t = (reversible S \<and> t_secrets t = S \<and>
     (\<forall>x e. t_enrolled t x = Some e \<longrightarrow> enr_DeviceID e \<noteq> [] \<and> enr_OTLPToken e \<noteq> []))"

definition restartable :: "secrets \<Rightarrow> string \<Rightarrow> Config \<Rightarrow> Config slot \<Rightarrow> bool" where
  "restartable S key c s = (complete c \<and> OTLPToken c \<noteq> [] \<and> PrivateKey c = key \<and>
     (\<exists>l. config_Load S s = Inr l \<and> Config_DeviceID l = Config_DeviceID c \<and> PrivateKey l = key))"

lemma saved_restartable:
  assumes "config_Save S f d s = (None, c', s')" and "reversible S" and "complete d" and "OTLPToken d \<noteq> []"
  shows "restartable S (PrivateKey d) c' s'"
proof -
  obtain x where c': "c' = (Defaults d)\<lparr>KeyProtection := x\<rparr>" using config_Save_memory[OF assms(1)] by blast
  have "\<exists>l. config_Load S s' = Inr l \<and> complete l \<and> l\<lparr>ProtectedPrivateKey := [], ProtectedOTLPToken := []\<rparr> =
      (Defaults d)\<lparr>ProtectedPrivateKey := [], ProtectedOTLPToken := [], KeyProtection := protectionName S\<rparr>"
    using assms(2) unfolding reversible_def
  proof (elim disjE exE conjE)
    assume "S = secrets_other"
    then show ?thesis
      by (intro config_saved_loads[of S Map.empty Map.empty d, OF _ _ _ _ _ assms(1)]) (use assms in auto)
  next
    fix pr un
    assume "S = secrets_windows pr un" "\<forall>v b. pr v = Some b \<longrightarrow> un b = Some v \<and> b \<noteq> []"
    then show ?thesis
      by (intro config_saved_loads[of S pr un d, OF _ _ _ _ _ assms(1)]) (use assms in auto)
  qed
  then obtain l where l: "config_Load S s' = Inr l" "l\<lparr>ProtectedPrivateKey := [], ProtectedOTLPToken := []\<rparr> =
      (Defaults d)\<lparr>ProtectedPrivateKey := [], ProtectedOTLPToken := [], KeyProtection := protectionName S\<rparr>" by blast
  have "Config_DeviceID l = Config_DeviceID d" "PrivateKey l = PrivateKey d"
    using arg_cong[OF l(2), of Config_DeviceID] arg_cong[OF l(2), of PrivateKey] by simp_all
  with l(1) c' assms(3,4) show ?thesis by (simp add: restartable_def complete_def)
qed

interpretation restarts: config_invariant "restartable S key" "trusted S" for S key
proof (unfold_locales, goal_cases)
  case (1 c s s')
  then show ?case by (simp add: restartable_def config_Load_def)
next
  case (2 c s t d f e c' s')
  then have d: "complete d" "OTLPToken d \<noteq> []" "PrivateKey d = key" "Config_DeviceID d = Config_DeviceID c"
    by (auto simp: restartable_def moves_on_def complete_def)
  show ?case
  proof (cases e)
    case None
    then show ?thesis using saved_restartable[of S f d s c' s'] 2(2,4) d by (simp add: trusted_def)
  next
    case (Some er)
    obtain x where "c' = (Defaults d)\<lparr>KeyProtection := x\<rparr>" using config_Save_memory[OF 2(4)] by blast
    moreover have "dest s' = dest s" using config_Save_error 2(4) Some by blast
    ultimately show ?thesis using 2(1) d by (auto simp: restartable_def complete_def config_Load_def)
  qed
next
  case (3 c s t x enrolled f fp c' s')
  then have "complete (renewed_config enrolled fp c)" "OTLPToken (renewed_config enrolled fp c) \<noteq> []"
    "PrivateKey (renewed_config enrolled fp c) = key"
    by (auto simp: restartable_def trusted_def complete_def renewed_config_def enrolled_config_def)
  then show ?case using saved_restartable[of S f "renewed_config enrolled fp c" s c' s'] 3(2,4)
    by (simp add: trusted_def)
qed

section \<open>When the tasks are attempted\<close>

text \<open>The reference: the clock readings at which a task with the interval of \<open>s\<close> seconds is due.\<close>

fun due_times :: "int \<Rightarrow> go_time \<Rightarrow> go_time list \<Rightarrow> go_time list" where
  "due_times s prev [] = []"
| "due_times s prev (n # ns) = (if due n prev s then n # due_times s n ns else due_times s prev ns)"

lemma rounds_trace:
  assumes "run_rounds configPath rs st cl w = (evs, s)" and "\<forall>r \<in> set (butlast rs). \<not> r_cancelled r"
    and "intervals (cfg cl) = p" and "\<forall>r \<in> set rs. steady_round p r"
  shows "attempts Usage_task evs = due_times (fst p) (lastUsage st) (map r_now rs) \<and>
    attempts Integrity_task evs = due_times (snd p) (lastIntegrity st) (map r_now rs)"
  using assms
proof (induction rs arbitrary: st cl w evs s)
  case Nil
  then show ?case by (simp add: trace_simps)
next
  case (Cons r rs)
  obtain evs1 st' cl' w' where r: "run_round configPath r st cl w = (evs1, st', cl', w')" by (metis prod.collapse)
  have "steady_round p r" using Cons.prems(4) by simp
  note t = round_trace[OF r Cons.prems(3) this]
  show ?case
  proof (cases "r_cancelled r")
    case True
    with Cons.prems(2) have "rs = []" by (cases rs) auto
    with True Cons.prems(1) r t(2,3) show ?thesis by (simp add: trace_simps)
  next
    case False
    obtain evs2 s2 where rest: "run_rounds configPath rs st' cl' w' = (evs2, s2)" by (metis prod.collapse)
    have "\<forall>r \<in> set (butlast rs). \<not> r_cancelled r" "\<forall>r \<in> set rs. steady_round p r" using Cons.prems(2,4) by (auto split: if_splits)
    from Cons.IH[OF rest this(1) t(1) this(2)] False Cons.prems(1) r rest t(2-5) show ?thesis
      by (auto simp: trace_simps)
  qed
qed

text \<open>
  Attempts at least \<open>d\<close> and less than \<open>d + g\<close> apart, the last one less than \<open>d\<close> before \<open>stop\<close>; clock
  readings that do not go back and are at most \<open>g\<close> apart.
\<close>

fun spaced :: "duration \<Rightarrow> duration \<Rightarrow> go_time list \<Rightarrow> go_time \<Rightarrow> bool" where
  "spaced d g [] stop = False"
| "spaced d g [t] stop = (nanos stop - nanos t < d)"
| "spaced d g (t # u # ts) stop = (d \<le> nanos u - nanos t \<and> nanos u - nanos t < d + g \<and> spaced d g (u # ts) stop)"

fun paced :: "duration \<Rightarrow> go_time list \<Rightarrow> bool" where
  "paced g (t # u # ts) = (t \<le> u \<and> nanos u - nanos t \<le> g \<and> paced g (u # ts))"
| "paced g _ = True"

lemma due_iff:
  assumes "0 < s" and "s * second \<le> max_int64" and "t \<le> now"
  shows "due now t s \<longleftrightarrow> s * second \<le> nanos now - nanos t"
proof -
  have "0 \<le> nanos now - nanos t" using assms(3) by (simp add: less_eq_go_time_def)
  moreover have "0 \<le> s * second" using assms(1) by (simp add: second_def)
  moreover have "wrap64 (s * second) = s * second"
    using assms(2) \<open>0 \<le> s * second\<close> by (simp add: wrap64_id min_int64_def)
  ultimately show ?thesis using assms(2) by (simp add: due_def time_Sub_def sat64_def min_int64_def)
qed

lemma due_first: "max_int64 \<le> nanos now \<Longrightarrow> due now zero_time s"
  using wrap64_range[of "s * second"]
  by (simp add: due_def time_Sub_def sat64_def zero_time_def min_int64_def max_int64_def)

lemma due_times_spaced:
  assumes "0 < s" and "s * second \<le> max_int64" and "t \<le> prev" and "nanos prev - nanos t < s * second"
    and "paced g (prev # ns)"
  shows "spaced (s * second) g (t # due_times s t ns) (last (prev # ns))"
  using assms(3-5)
proof (induction ns arbitrary: t prev)
  case Nil
  then show ?case by simp
next
  case (Cons n ns)
  have n: "prev \<le> n" "nanos n - nanos prev \<le> g" "paced g (n # ns)" using Cons.prems(3) by simp_all
  then have "t \<le> n" using Cons.prems(1) by simp
  note due = due_iff[OF assms(1,2) this]
  show ?case
  proof (cases "due n t s")
    case True
    have "nanos n - nanos n < s * second" using assms(1) by (simp add: second_def)
    from Cons.IH[OF order_refl this n(3)] True due Cons.prems(2) n(2) show ?thesis by simp
  next
    case False
    with due have "nanos n - nanos t < s * second" by simp
    from Cons.IH[OF \<open>t \<le> n\<close> this n(3)] False show ?thesis by simp
  qed
qed

lemma due_times_start:
  assumes "0 < s" and "s * second \<le> max_int64" and "paced g ns" and "ns \<noteq> []" and "max_int64 \<le> nanos (hd ns)"
  shows "spaced (s * second) g (due_times s zero_time ns) (last ns) \<and> hd (due_times s zero_time ns) = hd ns"
proof -
  obtain n ms where ns: "ns = n # ms" using assms(4) by (cases ns) auto
  have "nanos n - nanos n < s * second" using assms(1) by (simp add: second_def)
  from due_times_spaced[OF assms(1,2) order_refl this] assms(3,5) ns due_first[of n s] show ?thesis by simp
qed

section \<open>The back-off\<close>

text \<open>The reference: the n-th failure in a row is followed by a pause of \<open>2 ^ n\<close> seconds, 32 at most.\<close>

definition pause :: "nat \<Rightarrow> duration" where
  "pause n = min (2 ^ n) 32 * second"

fun pauses :: "nat \<Rightarrow> bool list \<Rightarrow> duration list" where
  "pauses n [] = []"
| "pauses n (ok # oks) = (if ok then pauses 0 oks else pause n # pauses (Suc n) oks)"

lemma pause_Suc: "(if pause n < 30 * second then pause n * 2 else pause n) = pause (Suc n)"
proof (cases "n < 5")
  case True
  then have "n \<in> {0, 1, 2, 3, 4}" by auto
  then show ?thesis by (auto simp: pause_def second_def)
next
  case False
  then have "(2 :: int) ^ 5 \<le> 2 ^ n" by (intro power_increasing) auto
  then show ?thesis by (simp add: pause_def second_def)
qed

lemma pause_range: "range pause \<subseteq> {second, 2 * second, 4 * second, 8 * second, 16 * second, 32 * second}"
proof -
  have "pause n \<in> {second, 2 * second, 4 * second, 8 * second, 16 * second, 32 * second}" for n
  proof (cases "n < 5")
    case True
    then have "n \<in> {0, 1, 2, 3, 4}" by auto
    then show ?thesis by (auto simp: pause_def)
  next
    case False
    then have "(2 :: int) ^ 5 \<le> 2 ^ n" by (intro power_increasing) auto
    then show ?thesis by (simp add: pause_def)
  qed
  then show ?thesis by blast
qed

lemma rounds_pauses:
  "run_rounds configPath rs st cl w = (evs, s) \<Longrightarrow> backoff st = pause n \<Longrightarrow> sleeps evs = pauses n (beats evs)"
proof (induction rs arbitrary: st cl w evs s n)
  case Nil
  then show ?case by (simp add: trace_simps)
next
  case (Cons r rs)
  obtain evs1 st' cl' w' where r: "run_round configPath r st cl w = (evs1, st', cl', w')" by (metis prod.collapse)
  obtain e where e: "beats evs1 = [e = None]" "sleeps evs1 = (if e = None then [] else [backoff st])"
    "backoff st' = next_backoff e (backoff st)"
  proof -
    have "\<exists>e. beats evs1 = [e = None] \<and> sleeps evs1 = (if e = None then [] else [backoff st]) \<and>
        backoff st' = next_backoff e (backoff st)"
      using r
    proof (cases rule: round_shape)
      case (1 e1 cl1 w1 u e2 cl2 w2 i e3 cl3 w3 e4)
      then show ?thesis by (intro exI[of _ e4]) (simp add: trace_simps)
    qed
    then show thesis using that by blast
  qed
  have b: "backoff st' = pause (if e = None then 0 else Suc n)"
    using e(3) Cons.prems(2) pause_Suc[of n] by (auto simp: next_backoff_def pause_def split: option.split)
  obtain evs2 s2 where rest: "run_rounds configPath rs st' cl' w' = (evs2, s2)" by (metis prod.collapse)
  from Cons.IH[OF rest b] Cons.prems r rest e show ?case
    by (auto simp: trace_simps split: if_splits)
qed

section \<open>Delivering a backlog\<close>

text \<open>A turn in which nothing of the agent's own machine fails, and one whose server accepts everything.\<close>

definition working :: "('w, 'x) turn_scheme \<Rightarrow> Client \<Rightarrow> bool" where
  "working t cl = ((\<exists>key. b64_decode (PrivateKey (cfg cl)) = Some key \<and> length key = 64) \<and> t_random t \<noteq> None \<and>
     save_fault_of t = None \<and> push_fault t = None \<and> (\<forall>i. pop_fault t i = None) \<and>
     (\<exists>d. seal (t_secrets t) (Defaults (next_config cl)) = Inr d))"

definition accepting :: "('w, 'x) turn_scheme \<Rightarrow> bool" where
  "accepting t = (\<forall>url body n. accepted_answer (fst (t_post t url body n)))"

lemma accepting_flush:
  assumes "accepting t" and "\<forall>i. pop_fault t i = None" and "pending_items (queue_file w) = Some items"
  shows "\<exists>w' answers. Flush_loop t i cl w = (None, cl, w') \<and> pending_items (queue_file w') = Some [] \<and>
    posted t cl items (net w) = (answers, net w')"
  using assms(3)
proof (induction items arbitrary: w i)
  case Nil
  have "Peek (queue_file w) = (None, None)" using file_queue.peek_pending[OF Nil] by simp
  with Nil show ?case by (subst Flush_loop_unfold) simp
next
  case (Cons x xs)
  have peek: "Peek (queue_file w) = (Some x, None)" using file_queue.peek_pending[OF Cons.prems] by simp
  obtain a n where a: "t_post t (ServerURL (cfg cl) @ Endpoint x) (Envelope_data x) (net w) = (a, n)"
    by (metis prod.collapse)
  then have "accepted_answer a" using assms(1) unfolding accepting_def by (metis fst_conv)
  then obtain code body where c: "a = Answer code body" "\<not> (code < 200 \<or> 300 \<le> code)"
    by (cases a) (auto simp: accepted_answer_def)
  obtain q where q: "Pop None (queue_file w) = (None, q)"
    using file_queue.pop_None[OF Cons.prems] by (metis fst_conv prod.collapse)
  have "pending_items (queue_file (w\<lparr>net := n, queue_file := q\<rparr>)) = Some xs"
    using file_queue.pop_ok[OF Cons.prems q] by simp
  from Cons.IH[OF this, of "i + 1"] obtain w' answers where
    "Flush_loop t (i + 1) cl (w\<lparr>net := n, queue_file := q\<rparr>) = (None, cl, w')"
    "pending_items (queue_file w') = Some []" "posted t cl xs n = (answers, net w')" by auto
  then show ?case using peek a c q assms(2)
    by (subst Flush_loop_unfold) (simp add: post_item_def)
qed

lemma posted_url: "ServerURL (cfg cl) = ServerURL (cfg cl') \<Longrightarrow> posted t cl items n = posted t cl' items n"
  by (induction items arbitrary: n) (auto simp: post_item_def split: prod.splits)

lemma supported_quota: "supported (quota_json q)"
  by (auto simp: quota_json_def window_json_def split: option.splits)

lemma supported_heartbeat: "supported (heartbeat_payload t cl text q)"
  by (auto simp: heartbeat_payload_def Let_def supported_quota split: prod.splits option.splits)

lemma working_send:
  assumes "working t cl" and "accepting t" and "supported payload" and "pending_items (queue_file w) = Some items"
  shows "\<exists>item answers cl' w'. send t endpoint payload cl w = (None, cl', w') \<and> Endpoint item = endpoint \<and>
    posted t cl (filter (live (cl_Queue cl) (t_clock t 4)) items @ [item]) (net w) = (answers, net w') \<and>
    pending_items (queue_file w') = Some []"
proof -
  obtain key d rnd where k: "b64_decode (PrivateKey (cfg cl)) = Some key" "length key = 64"
    "seal (t_secrets t) (Defaults (next_config cl)) = Inr d" "t_random t = Some rnd"
    using assms(1) unfolding working_def by blast
  have f: "save_fault_of t = None" "push_fault t = None" "\<forall>i. pop_fault t i = None"
    using assms(1) by (simp_all add: working_def)
  obtain cl1 w1 where e: "enqueue t endpoint payload cl w = (None, cl1, w1)"
    using enqueue_succeeds[OF k(1,2,4) assms(3) f(1,2) k(3) assms(4)] by blast
  obtain env where q: "pending_items (queue_file w1) =
      Some (filter (live (cl_Queue cl) (t_clock t 4)) items @ [report_item t endpoint env])"
    using enqueued[OF e assms(4)] by blast
  obtain w' answers where "Flush t cl1 w1 = (None, cl1, w')" "pending_items (queue_file w') = Some []"
    "posted t cl1 (filter (live (cl_Queue cl) (t_clock t 4)) items @ [report_item t endpoint env]) (net w1) = (answers, net w')"
    using accepting_flush[OF assms(2) f(3) q, of 0 cl1] unfolding Flush_def by blast
  then have "send t endpoint payload cl w = (None, cl1, w')" "posted t cl (filter (live (cl_Queue cl) (t_clock t 4)) items @
      [report_item t endpoint env]) (net w) = (answers, net w')" "pending_items (queue_file w') = Some []"
    using e enqueue_keeps(2,4)[OF e] posted_url[of cl1 cl t] by (simp_all add: send_def report_def)
  moreover have "Endpoint (report_item t endpoint env) = endpoint" by (simp add: report_item_def)
  ultimately show ?thesis by blast
qed

section \<open>Properties\<close>

text \<open>
  C20: neither usage nor integrity reports starve, and neither is sent too often. In any run of the loop in
  which the rounds start at most \<open>g\<close> apart and the server always hands out the same intervals, both are
  attempted in the first round, and from then on at least their interval and less than their interval
  plus \<open>g\<close> apart, whatever fails in between; the last attempt is never a full interval old.
\<close>

theorem reports_spaced:
  assumes "Run configPath True rs cl w = (evs, res, cl', w')" and "\<forall>r \<in> set (butlast rs). \<not> r_cancelled r"
    and "intervals (cfg cl) = p" and "\<forall>r \<in> set rs. steady_round p r" and "rs \<noteq> []"
    and "paced g (map r_now rs)" and "max_int64 \<le> nanos (r_now (hd rs))"
    and "fst p * second \<le> max_int64" and "snd p * second \<le> max_int64"
  shows "spaced (fst p * second) g (attempts Usage_task evs) (r_now (last rs)) \<and>
    spaced (snd p * second) g (attempts Integrity_task evs) (r_now (last rs)) \<and>
    hd (attempts Usage_task evs) = r_now (hd rs) \<and> hd (attempts Integrity_task evs) = r_now (hd rs)"
proof -
  obtain s where "run_rounds configPath rs run_start cl w = (evs, s)"
    using assms(1) by (auto simp: Run_eq split: prod.splits)
  from rounds_trace[OF this assms(2-4)]
  have t: "attempts Usage_task evs = due_times (fst p) zero_time (map r_now rs)"
    "attempts Integrity_task evs = due_times (snd p) zero_time (map r_now rs)" by (simp_all add: run_start_def)
  have "hd rs \<in> set rs" using assms(5) by simp
  then have "0 < fst p" "0 < snd p" using assms(4) by (auto simp: steady_round_def steady_def)
  moreover have "map r_now rs \<noteq> []" "max_int64 \<le> nanos (hd (map r_now rs))" using assms(5,7) by (simp_all add: hd_map)
  ultimately show ?thesis
    using due_times_start[OF _ assms(8,6)] due_times_start[OF _ assms(9,6)] assms(5) t by (simp add: last_map hd_map)
qed

definition sample_round :: "go_time \<Rightarrow> json list round" where
  "sample_round now =
     \<lparr>r_now = now, r_calls = [], r_otel = sample_cycle None, r_usage = sample_cycle None,
      r_integrity = sample_cycle None, r_heartbeat = sample_cycle None, r_cancelled = False\<rparr>"

lemma sample_steady: "steady (300, 300) (sample_cycle rnd)"
  by (simp add: steady_def sample_cycle_def turn.defs client_turn_def)

theorem reports_spaced_witness:
  "\<exists>evs res cl' w'. let t = max_int64 in
     Run ''/c'' True [sample_round (Time t), sample_round (Time (t + 60 * second))] settled_client (client_world []) =
       (evs, res, cl', w') \<and>
     spaced (300 * second) (60 * second) (attempts Usage_task evs) (Time (t + 60 * second))"
proof -
  let ?rs = "[sample_round (Time max_int64), sample_round (Time (max_int64 + 60 * second))]"
  obtain evs res cl' w' where run: "Run ''/c'' True ?rs settled_client (client_world []) = (evs, res, cl', w')"
    by (metis prod.collapse)
  have "\<forall>r \<in> set (butlast ?rs). \<not> r_cancelled r" "\<forall>r \<in> set ?rs. steady_round (300, 300) r"
    by (simp_all add: sample_round_def steady_round_def sample_steady)
  moreover have "intervals (cfg settled_client) = (300, 300)"
    by (simp add: settled_client_def sample_client_def client_config_def intervals_def Defaults_def zero_config_def)
  moreover have "paced (60 * second) (map r_now ?rs)"
    by (simp add: sample_round_def less_eq_go_time_def second_def)
  moreover have "max_int64 \<le> nanos (r_now (hd ?rs))" by (simp add: sample_round_def)
  moreover have "fst (300, 300 :: int) * second \<le> max_int64" "snd (300 :: int, 300) * second \<le> max_int64"
    by (simp_all add: second_def max_int64_def)
  ultimately have "spaced (fst (300, 300 :: int) * second) (60 * second) (attempts Usage_task evs) (r_now (last ?rs))"
    using reports_spaced[OF run] by blast
  with run show ?thesis by (auto simp: sample_round_def)
qed

text \<open>
  The pauses after failed heartbeats double from one second to 32 seconds, and a heartbeat that goes
  through resets them: the pauses of any run are the reference sequence of its heartbeat results. A run
  that has returned without a failed listener returns no error.
\<close>

theorem backoff_reference:
  "case Run configPath listens rs cl w of (evs, res, _) \<Rightarrow>
     sleeps evs = pauses 0 (beats evs) \<and>
     set (sleeps evs) \<subseteq> {second, 2 * second, 4 * second, 8 * second, 16 * second, 32 * second} \<and>
     (res = Some (Some ListenFailed) \<longleftrightarrow> \<not> listens)"
proof -
  obtain evs res s where run: "Run configPath listens rs cl w = (evs, res, s)" by (metis prod.collapse)
  have s: "sleeps evs = pauses 0 (beats evs)"
    using run rounds_pauses[of configPath rs run_start cl w evs _ 0]
    by (auto simp: Run_eq trace_simps run_start_def pause_def split: if_splits prod.splits)
  have "set (pauses n bs) \<subseteq> range pause" for n bs
    by (induction bs arbitrary: n) auto
  then have "set (sleeps evs) \<subseteq> {second, 2 * second, 4 * second, 8 * second, 16 * second, 32 * second}"
    using pause_range unfolding s by (rule order_trans)
  moreover have "res = Some (Some ListenFailed) \<longleftrightarrow> \<not> listens"
    using run by (auto simp: Run_eq split: if_splits prod.splits)
  ultimately show ?thesis using run s by simp
qed

text \<open>
  C19: a backlog is delivered as soon as the server is back. When the agent's own machine works and the
  server accepts what it gets, one heartbeat posts every queued report that has not expired, in order,
  then itself, and leaves the queue empty.
\<close>

theorem backlog_delivered:
  assumes "refreshCodexHome t cl w = (None, cl0, w0)" and "working t cl0" and "accepting t"
    and "pending_items (queue_file w0) = Some items"
  shows "\<exists>item answers cl' w'. Heartbeat t cl w = (None, cl', w') \<and> Endpoint item = ''/api/v1/heartbeat'' \<and>
    posted t cl0 (filter (live (cl_Queue cl0) (t_clock t 4)) items @ [item]) (net w0) = (answers, net w') \<and>
    pending_items (queue_file w') = Some []"
proof -
  obtain q cl1 where c: "cachedQuota t cl0 = (q, cl1)" by (metis prod.collapse)
  then have k: "cfg cl1 = cfg cl0" "cl_Queue cl1 = cl_Queue cl0" by simp_all
  then have "working t cl1" using assms(2) by (simp add: working_def next_config_def)
  from working_send[OF this assms(3) supported_heartbeat assms(4)] k posted_url[of cl1 cl0 t] show ?thesis
    by (simp add: Heartbeat_def after_refresh_def assms(1) c)
qed
theorem backlog_delivered_witness:
  "\<exists>cl' w'. Heartbeat (sample_cycle (Some (replicate 16 CHR ''r''))) settled_client (client_world [client_item 1]) =
     (None, cl', w') \<and> pending_items (queue_file w') = Some []"
proof -
  let ?t = "sample_cycle (Some (replicate 16 CHR ''r''))"
  have "working ?t settled_client"
    unfolding working_def
    by (simp add: settled_client_def sample_client_def seal_other) (simp add: sample_cycle_def turn.defs client_turn_def)
  moreover have "accepting ?t"
    by (simp add: accepting_def sample_cycle_def turn.defs client_turn_def accepted_answer_def)
  ultimately show ?thesis using backlog_delivered[OF settled_home _ _ client_pending] by blast
qed

text \<open>
  C3: the agent can always be restarted. However long the loop runs, and whatever fails in it, saves and
  enrollments included, the configuration file can be loaded again, and loading it gives the device id
  and the private key the running agent uses. The server is trusted to enroll only with a device id
  and a collector token, and the platform to open what it has sealed.
\<close>

theorem always_restartable:
  assumes "reversible S" and "New S now (config_file w) = Inr cl" and "OTLPToken (cfg cl) \<noteq> []"
    and "\<forall>r \<in> set rs. \<forall>t \<in> {r_otel r, r_usage r, r_integrity r, r_heartbeat r}. t_secrets t = S \<and>
      (\<forall>x e. t_enrolled t x = Some e \<longrightarrow> enr_DeviceID e \<noteq> [] \<and> enr_OTLPToken e \<noteq> [])"
    and "Run configPath listens rs cl w = (evs, res, cl', w')"
  shows "\<exists>cl2. New S later (config_file w') = Inr cl2 \<and> Config_DeviceID (cfg cl2) = Config_DeviceID (cfg cl') \<and>
    PrivateKey (cfg cl2) = PrivateKey (cfg cl') \<and> PrivateKey (cfg cl') = PrivateKey (cfg cl)"
proof -
  have l: "config_Load S (config_file w) = Inr (cfg cl)"
    using assms(2) by (auto simp: New_def split: sum.splits)
  then obtain c where "Defaults c = cfg cl" "complete c"
    by (auto simp: config_Load_def Let_def split: state_file.splits sum.splits if_splits)
  then have "complete (cfg cl)" using complete_Defaults[of c] by simp
  with l assms(3) have i: "restartable S (PrivateKey (cfg cl)) (cfg cl) (config_file w)" by (simp add: restartable_def)
  have "\<forall>r \<in> set rs. restarts.ok_round S r"
    using assms(1,4) by (auto simp: restarts.ok_round_def trusted_def)
  then have "restartable S (PrivateKey (cfg cl)) (cfg cl') (config_file w')"
    using assms(5) i restarts.keeps_rounds by (fastforce simp: Run_eq split: if_splits prod.splits)
  then show ?thesis by (auto simp: restartable_def New_def)
qed

definition token_world :: "json list world" where
  "token_world = (client_world [])\<lparr>config_file := \<lparr>dest = Content (client_config\<lparr>OTLPToken := ''t''\<rparr>), temp = Absent\<rparr>\<rparr>"

lemma client_config_loadable:
  "PrivateKey client_config \<noteq> []" "complete client_config" "ProtectedPrivateKey client_config = []"
  "ProtectedOTLPToken client_config = []"
proof -
  show k: "PrivateKey client_config \<noteq> []"
    using client_config_simps(3) b64_decode_encode[of "[]"]
    by (metis b64_encode.simps(1) option.inject replicate_empty zero_neq_numeral)
  then show "complete client_config" by (simp add: complete_def)
  show "ProtectedPrivateKey client_config = []" "ProtectedOTLPToken client_config = []"
    by (simp_all add: client_config_def zero_config_def Defaults_def)
qed

lemma token_world_loads:
  "\<exists>cl. New secrets_other (Time 0) (config_file token_world) = Inr cl \<and> OTLPToken (cfg cl) = ''t''"
proof -
  have "complete (client_config\<lparr>OTLPToken := ''t''\<rparr>)" using client_config_loadable(1) by (simp add: complete_def)
  with client_config_loadable(3,4) show ?thesis
    by (simp add: New_def config_Load_def token_world_def client_world_def unseal_key_simps unseal_token_simps complete_def)
qed

theorem always_restartable_witness:
  "\<exists>cl evs res cl' w' cl2. New secrets_other (Time 0) (config_file token_world) = Inr cl \<and>
     Run ''/c'' True [sample_round (Time max_int64)] cl token_world = (evs, res, cl', w') \<and>
     New secrets_other (Time 5) (config_file w') = Inr cl2 \<and> PrivateKey (cfg cl2) = PrivateKey (cfg cl)"
proof -
  obtain cl where n: "New secrets_other (Time 0) (config_file token_world) = Inr cl" "OTLPToken (cfg cl) \<noteq> []"
    using token_world_loads by auto
  obtain evs res cl' w' where run: "Run ''/c'' True [sample_round (Time max_int64)] cl token_world = (evs, res, cl', w')"
    by (metis prod.collapse)
  have "reversible secrets_other" by (simp add: reversible_def)
  moreover have "\<forall>r \<in> set [sample_round (Time max_int64)]. \<forall>t \<in> {r_otel r, r_usage r, r_integrity r, r_heartbeat r}.
      t_secrets t = secrets_other \<and> (\<forall>x e. t_enrolled t x = Some e \<longrightarrow> enr_DeviceID e \<noteq> [] \<and> enr_OTLPToken e \<noteq> [])"
    by (simp add: sample_round_def) (simp add: sample_cycle_def turn.defs client_turn_def)
  ultimately show ?thesis using always_restartable[OF _ n _ run, of "Time 5"] n(1) run by fastforce
qed

end
