(* ===== verification/Intake.thy ===== *)
theory Intake
  imports ChainAudit RunLoop
begin

text \<open>
  What the server makes of the agent's reports: the schema \<open>SignedEnvelope\<close> and the payload checks of the handlers
  \<open>/api/v1/heartbeat\<close> and \<open>/api/v1/usage\<close> (\<open>server/app/main.py\<close>, \<open>server/app/schemas.py\<close>), behind \<open>verified\<close> with the
  signature check over the server's own message, on what \<open>enqueue\<close>, \<open>Heartbeat\<close> and \<open>Usage\<close> send. The conversions of
  pydantic are left out, as in \<open>ChainAudit\<close>, and so is the middleware in front of the routes (413 for a body of
  more than one MiB, 429 from the 301st request of a minute on).
\<close>

section \<open>The envelope\<close>

text \<open>Python counts the code points of a text: in UTF-8 the bytes that do not continue one.\<close>

definition code_points :: "string \<Rightarrow> nat" where
  "code_points s = length (filter (\<lambda>c. (of_char c :: nat) < 128 \<or> 192 \<le> (of_char c :: nat)) s)"

definition text_between :: "nat \<Rightarrow> nat \<Rightarrow> json \<Rightarrow> bool" where
  "text_between a b = text_with (\<lambda>s. a \<le> code_points s \<and> code_points s \<le> b)"

definition is_object :: "json \<Rightarrow> bool" where
  "is_object v = (case v of JObj kvs \<Rightarrow> True | _ \<Rightarrow> False)"

definition valid_envelope :: "json \<Rightarrow> bool" where
  "valid_envelope body =
     (is_object body \<and> text_between 36 36 (member ''device_id'' body) \<and> int_from 1 (member ''sequence'' body) \<and>
      text_between 20 40 (member ''timestamp'' body) \<and> text_between 8 128 (member ''event_id'' body) \<and>
      is_object (member ''payload'' body) \<and> text_between 40 256 (member ''signature'' body))"

section \<open>Payloads\<close>

definition int_between :: "int \<Rightarrow> int \<Rightarrow> json \<Rightarrow> bool" where
  "int_between lo hi v = (case as_int v of Some i \<Rightarrow> lo \<le> i \<and> i \<le> hi | None \<Rightarrow> False)"

definition percentage :: "json \<Rightarrow> bool" where
  "percentage v = (case v of JNum n \<Rightarrow> \<not> negative n \<and> \<not> over_100 n | _ \<Rightarrow> False)"

definition accepted_window :: "json \<Rightarrow> bool" where
  "accepted_window v =
     (keys_in [''used_percent'', ''window_minutes'', ''resets_at''] v \<and> percentage (member ''used_percent'' v) \<and>
      int_between 1 525600 (member ''window_minutes'' v) \<and> int_between 0 4102444800 (member ''resets_at'' v))"

definition accepted_quota :: "json \<Rightarrow> bool" where
  "accepted_quota v =
     (keys_in [''plan_type'', ''primary'', ''secondary'', ''observed_at''] v \<and>
      optional (text_between 0 64) (member ''plan_type'' v) \<and> optional accepted_window (member ''primary'' v) \<and>
      optional accepted_window (member ''secondary'' v) \<and> text_between 20 40 (member ''observed_at'' v))"

text \<open>
  \<open>fromisoformat\<close> of Python on times and on dates is a parameter each: the texts that it parses. An
  exception that a handler does not catch is the answer 500. Each answer but 200 rolls the transaction back.
\<close>

record python =
  parses_time :: "string \<Rightarrow> bool"
  parses_date :: "string \<Rightarrow> bool"

datatype intake = Taken | Unprocessable | Crashed

definition required_fields :: "string list" where
  "required_fields = [''agent_version'', ''agent_sha256'', ''ccusage_version'', ''ccusage_sha256'', ''codex_home'', ''uptime_seconds'']"

definition has_key :: "json \<Rightarrow> string \<Rightarrow> bool" where
  "has_key v k = (case v of JObj kvs \<Rightarrow> map_of kvs k \<noteq> None | _ \<Rightarrow> False)"

text \<open>
  The checks of the heartbeat handler behind \<open>verified\<close>; the time of the envelope is parsed when the heartbeat is
  recorded in the history.
\<close>

definition heartbeat_intake :: "python \<Rightarrow> bool \<Rightarrow> json \<Rightarrow> intake" where
  "heartbeat_intake P recorded body =
     (let p = member ''payload'' body; q = member ''quota'' p
      in if \<not> list_all (has_key p) required_fields then Unprocessable
         else if q \<noteq> JNull \<and> \<not> (accepted_quota q \<and> text_with (parses_time P) (member ''observed_at'' q)) then Unprocessable
         else if recorded \<and> \<not> (text_with (parses_time P) (member ''timestamp'' body) \<and> as_int (member ''uptime_seconds'' p) \<noteq> None)
         then Crashed else Taken)"

definition day_fields :: "string list" where
  "day_fields = [''date'', ''input_tokens'', ''cached_input_tokens'', ''output_tokens'', ''reasoning_output_tokens'', ''total_tokens'']"

definition accepted_day :: "json \<Rightarrow> bool" where
  "accepted_day v =
     (keys_in day_fields v \<and> text_with (\<lambda>_. True) (member ''date'' v) \<and> int_from 0 (member ''input_tokens'' v) \<and>
      int_from 0 (member ''cached_input_tokens'' v) \<and> int_from 0 (member ''output_tokens'' v) \<and>
      (has_key v ''reasoning_output_tokens'' \<longrightarrow> int_from 0 (member ''reasoning_output_tokens'' v)) \<and>
      int_from 0 (member ''total_tokens'' v))"

definition accepted_usage :: "json \<Rightarrow> bool" where
  "accepted_usage p =
     (keys_in [''source'', ''days''] p \<and>
      (has_key p ''source'' \<longrightarrow> text_with (\<lambda>s. s \<in> {''local'', ''otel''}) (member ''source'' p)) \<and>
      is_array (member ''days'' p) \<and> length (as_rows (member ''days'' p)) \<le> 400 \<and>
      list_all accepted_day (as_rows (member ''days'' p)))"

text \<open>The five counts go into columns of type \<open>BigInteger\<close> (\<open>server/app/models.py\<close>): a larger one fails when it is stored.\<close>

definition storable_day :: "json \<Rightarrow> bool" where
  "storable_day v =
     list_all (\<lambda>k. case as_int (member k v) of Some i \<Rightarrow> i < 9223372036854775808 | None \<Rightarrow> True) (drop 1 day_fields)"

definition usage_intake :: "python \<Rightarrow> json \<Rightarrow> intake" where
  "usage_intake P body =
     (let p = member ''payload'' body
      in if \<not> accepted_usage p then Unprocessable
         else if text_with (parses_time P) (member ''timestamp'' body) \<and>
           list_all (\<lambda>v. text_with (parses_date P) (member ''date'' v)) (as_rows (member ''days'' p)) \<and>
           list_all storable_day (as_rows (member ''days'' p))
         then Taken else Crashed)"

section \<open>A route\<close>

text \<open>
  \<open>ver key signature message\<close> is \<open>verify_signature\<close>, a parameter. The signature is checked against the message that the
  server makes of the parsed envelope.
\<close>

definition signature_verified :: "(string \<Rightarrow> string \<Rightarrow> bytes \<Rightarrow> bool) \<Rightarrow> crypto \<Rightarrow> string \<Rightarrow> json \<Rightarrow> bool" where
  "signature_verified ver C key body =
     (case (report_id body, as_text (member ''timestamp'' body), as_text (member ''signature'' body)) of
        (Some (d, q, ev), Some ts, Some sg) \<Rightarrow>
          ver key sg (signature_message C d (int q) ts ev (member ''payload'' body))
      | _ \<Rightarrow> False)"

text \<open>
  What becomes of the statements a request sends to the database: they succeed, one of them fails before the
  commit, or something fails after it. An exception is the answer 500.
\<close>

datatype database = Stores | FailsBefore | FailsAfter

definition internal_error :: http where "internal_error = Answer 500 ''Internal Server Error''"

text \<open>
  A route: the schema, \<open>verified\<close>, the handler's own checks, the commit. The sequence number goes into a
  \<open>BigInteger\<close> column.
\<close>

definition signed_route ::
  "(string \<Rightarrow> string \<Rightarrow> bytes \<Rightarrow> bool) \<Rightarrow> crypto \<Rightarrow> (json \<Rightarrow> intake) \<Rightarrow> database \<Rightarrow> json \<Rightarrow> server \<Rightarrow> http \<times> server" where
  "signed_route ver C check db body s =
     (case report_id body of
        None \<Rightarrow> (Answer 422 (detail ''invalid envelope''), s)
      | Some (d, q, ev) \<Rightarrow>
          if \<not> valid_envelope body then (Answer 422 (detail ''invalid envelope''), s)
          else if db = FailsBefore then (internal_error, s)
          else (case map_of (devices s) d of
                  None \<Rightarrow> (Answer 401 (detail ''unknown device''), s)
                | Some dev \<Rightarrow>
                    if \<not> signature_verified ver C (public_key dev) body then (Answer 401 (detail ''invalid signature''), s)
                    else if (d, ev) \<in> set (processed_events s) then (Answer 200 ''duplicate'', s)
                    else if q \<le> last_sequence dev then (Answer 409 (detail ''replayed sequence''), s)
                    else if check body = Unprocessable then (Answer 422 (detail ''invalid payload''), s)
                    else if check body = Crashed \<or> 9223372036854775808 \<le> q then (internal_error, s)
                    else (if db = FailsAfter then internal_error else Answer 200 ''accepted'',
                          s\<lparr>devices := AList.update d (dev\<lparr>last_sequence := q\<rparr>) (devices s),
                            processed_events := (d, ev) # processed_events s\<rparr>)))"

text \<open>
  A route is a receiver in the sense of \<open>Receiver\<close>, with these checks: it answers as \<open>receive\<close>, or with 500, and then the
  client and the server are left as after a lost request or a lost answer.
\<close>

definition route_checks :: "(string \<Rightarrow> string \<Rightarrow> bytes \<Rightarrow> bool) \<Rightarrow> crypto \<Rightarrow> (json \<Rightarrow> intake) \<Rightarrow> server_checks" where
  "route_checks ver C check =
     \<lparr>schema_ok = valid_envelope, signature_ok = signature_verified ver C,
      payload_ok = (\<lambda>body. check body = Taken \<and> (\<exists>d q ev. report_id body = Some (d, q, ev) \<and> q < 9223372036854775808))\<rparr>"

lemma route_delivery:
  assumes "signed_route ver C check db body s = (a, s')"
  shows "delivery (route_checks ver C check) body s a s' \<or>
    a = internal_error \<and> delivery (route_checks ver C check) body s NoAnswer s'"
proof -
  let ?V = "route_checks ver C check"
  have "receive ?V body s = (a, s') \<or> a = internal_error \<and> (s' = s \<or> (\<exists>x. receive ?V body s = (x, s')))"
  proof (cases "check body")
    case Taken
    with assms show ?thesis
      by (auto simp: signed_route_def receive_def route_checks_def not_le split: option.splits prod.splits if_splits)
  next
    case Unprocessable
    with assms show ?thesis
      by (auto simp: signed_route_def receive_def route_checks_def split: option.splits prod.splits if_splits)
  next
    case Crashed
    with assms show ?thesis
      by (auto simp: signed_route_def receive_def route_checks_def split: option.splits prod.splits if_splits)
  qed
  then show ?thesis using delivery.intros by metis
qed

text \<open>
  So the routes together, whichever the report goes to and whatever the database does, behind a network that may lose
  a request or its answer, keep the contract on which the theorems of \<open>Delivery\<close> rest.
\<close>

definition route_answers :: "(string \<Rightarrow> string \<Rightarrow> bytes \<Rightarrow> bool) \<Rightarrow> crypto \<Rightarrow> json \<Rightarrow> server \<Rightarrow> http \<Rightarrow> server \<Rightarrow> bool" where
  "route_answers ver C body s a s' =
     (a = NoAnswer \<and> s' = s \<or>
      (\<exists>check db x. signed_route ver C check db body s = (x, s') \<and> (a = x \<or> a = NoAnswer)))"

lemma route_answers_delivery:
  assumes "route_answers ver C body s a s'"
  shows "\<exists>V. delivery V body s a s' \<or> a = internal_error \<and> delivery V body s NoAnswer s'"
proof -
  have no: "delivery V body s NoAnswer s'" if "delivery V body s x s'" for V x
    using that by (cases rule: delivery.cases) (auto intro: delivery.intros)
  from assms show ?thesis unfolding route_answers_def using route_delivery no delivery.request_lost by metis
qed

interpretation signed_server: report_receiver last_seq_of handled_of "route_answers ver C" "registration issued" wiped issued
  for ver C issued
proof (unfold_locales, goal_cases)
  case (1 body w a w')
  then show ?case using route_answers_delivery class_server.answer_effect by blast
next
  case (2 body w x w')
  then obtain V where "delivery V body w (Answer 409 x) w'" using route_answers_delivery by (fastforce simp: internal_error_def)
  then show ?case by (rule class_server.answer_replay)
next
  case (3 body w code x w')
  then obtain V where "delivery V body w (Answer code x) w'" using route_answers_delivery by (fastforce simp: internal_error_def)
  then show ?case using class_server.answer_accepts 3(2,3) by blast
qed (use class_server.enroll_effect class_server.enroll_issues class_server.reset_effect in blast)+

section \<open>Lengths of the texts in an envelope\<close>

lemma code_points_ascii: "\<forall>c \<in> set s. (of_char c :: nat) < 128 \<Longrightarrow> code_points s = length s"
  by (simp add: code_points_def filter_True)

lemma length_nat_dec: "i < 10 ^ k \<Longrightarrow> 0 < k \<Longrightarrow> length (nat_dec i) \<le> k"
proof (induction i arbitrary: k rule: nat_dec.induct)
  case (1 n)
  show ?case
  proof (cases "n < 10")
    case True
    with 1(3) show ?thesis by (simp add: nat_dec.simps[of n])
  next
    case False
    then obtain j where j: "k = Suc j" "0 < j" using 1(2,3) by (cases k; cases "k - 1") auto
    then have "n div 10 < 10 ^ j" using 1(2) by (simp add: div_less_iff_less_mult mult.commute)
    with 1(1)[OF False this j(2)] False j(1) show ?thesis by (simp add: nat_dec.simps[of n])
  qed
qed

lemma length_pad: "i < 10 ^ w \<Longrightarrow> 0 < w \<Longrightarrow> length (pad w i) = w"
  using length_nat_dec[of "nat i" w] by (simp add: pad_def Let_def nat_less_iff)

lemma length_b64: "length (b64_encode s) = 4 * ((length s + 2) div 3)"
proof (induction s rule: b64_encode.induct)
  case (4 a b c s)
  have "(length (a # b # c # s) + 2) div 3 = (length s + 2) div 3 + 1" by simp
  with 4 show ?case by simp
qed simp_all

text \<open>Instants in a year of four digits, the ones that Python reads too.\<close>

definition four_digits :: "go_time \<Rightarrow> bool" where
  "four_digits t = (case civil (nanos t div 86400000000000) of (y, m, d) \<Rightarrow> 1 \<le> y \<and> y \<le> 9999)"

lemma civil_bounds:
  assumes "civil n = (y, m, d)"
  shows "m < 100 \<and> d < 100"
proof -
  define z doe where "z = n + 306" and "doe = z mod 146097"
  define yoe where "yoe = (doe - doe div 1460 + doe div 36524 - doe div 146096) div 365"
  define doy where "doy = doe - (365 * yoe + yoe div 4 - yoe div 100)"
  define mp where "mp = (5 * doy + 2) div 153"
  have r: "0 \<le> doe" "doe < 146097" by (simp_all add: doe_def)
  define x where "x = doe - doe div 1460 + doe div 36524 - doe div 146096"
  have "doe div 1460 \<le> 101" "0 \<le> doe div 36524" "doe div 146096 \<le> 1" using r by simp_all
  then have "doe - 102 \<le> x" by (simp add: x_def)
  moreover have "x - 364 \<le> 365 * yoe" unfolding yoe_def x_def[symmetric] by presburger
  moreover have "- 2 \<le> yoe" using calculation r by linarith
  then consider "0 \<le> yoe" | "yoe = - 1" | "yoe = - 2" by linarith
  then have "yoe div 100 \<le> yoe div 4" by cases (simp_all add: zdiv_mono2)
  ultimately have "doy \<le> 1000" using r unfolding doy_def by linarith
  then have "mp < 90" unfolding mp_def by simp
  moreover have "5 * doy + 2 = 153 * mp + (5 * doy + 2) mod 153" "(5 * doy + 2) mod 153 < 153"
    "153 * mp + 2 = 5 * ((153 * mp + 2) div 5) + (153 * mp + 2) mod 5" "(153 * mp + 2) mod 5 < 5"
    unfolding mp_def by simp_all
  then have "doy - (153 * mp + 2) div 5 + 1 < 100" by linarith
  moreover have "m = (if mp < 10 then mp + 3 else mp - 9)" "d = doy - (153 * mp + 2) div 5 + 1"
    using assms unfolding civil_def Let_def z_def[symmetric] doe_def[symmetric] yoe_def[symmetric] doy_def[symmetric]
      mp_def[symmetric] by simp_all
  ultimately show ?thesis by simp
qed

lemma date_length:
  assumes "four_digits t"
  shows "length (format_date t) = 10"
proof -
  obtain y m d where c: "civil (nanos t div 86400000000000) = (y, m, d)" by (metis prod.collapse)
  with assms have "y < 10 ^ 4" by (simp add: four_digits_def)
  with civil_bounds[OF c] c show ?thesis
    using length_pad[of y 4] length_pad[of m 2] length_pad[of d 2] by (simp add: format_date_def)
qed

lemma clock_length: "length (format_clock t) = 8"
proof -
  define s where "s = (nanos t div 1000000000) mod 86400"
  have "0 \<le> s" "s < 86400" by (simp_all add: s_def)
  then have "s div 3600 < 10 ^ 2" "s div 60 mod 60 < 10 ^ 2" "s mod 60 < 10 ^ 2" by simp_all
  then show ?thesis
    using length_pad[of "s div 3600" 2] length_pad[of "s div 60 mod 60" 2] length_pad[of "s mod 60" 2]
    by (simp add: format_clock_def Let_def s_def[symmetric])
qed

lemma fraction_length: "length (format_fraction t) \<le> 10"
proof -
  have "length (pad 9 (nanos t mod 1000000000)) = 9" by (rule length_pad) simp_all
  then show ?thesis
    using length_dropWhile_le[of "\<lambda>c. c = CHR ''0''" "rev (pad 9 (nanos t mod 1000000000))"]
    by (simp add: format_fraction_def Let_def)
qed

lemma digit_ascii: "is_digit c \<Longrightarrow> (of_char c :: nat) < 128"
  by (simp add: is_digit_def)

lemma time_ascii:
  "\<forall>c \<in> set (format_RFC3339Nano t). (of_char c :: nat) < 128" "\<forall>c \<in> set (format_RFC3339 t). (of_char c :: nat) < 128"
proof -
  have p: "(of_char c :: nat) < 128" if "c \<in> set (pad w i)" for c w i using pad_digits[OF that] by (rule digit_ascii)
  then have f: "\<forall>c \<in> set (format_fraction t). (of_char c :: nat) < 128"
    by (auto simp: format_fraction_def Let_def dest!: set_dropWhileD)
  show "\<forall>c \<in> set (format_RFC3339Nano t). (of_char c :: nat) < 128" "\<forall>c \<in> set (format_RFC3339 t). (of_char c :: nat) < 128"
    using p f by (auto simp: format_RFC3339Nano_def format_RFC3339_def format_date_def format_clock_def Let_def split: prod.splits)
qed

lemma time_length:
  assumes "four_digits t"
  shows "20 \<le> code_points (format_RFC3339Nano t)" "code_points (format_RFC3339Nano t) \<le> 30"
    "code_points (format_RFC3339 t) = 20"
  using date_length[OF assms] clock_length[of t] fraction_length[of t]
  by (simp_all only: code_points_ascii[OF time_ascii(1)] code_points_ascii[OF time_ascii(2)])
    (simp_all add: format_RFC3339Nano_def format_RFC3339_def)

section \<open>What the server reads in the agent's reports\<close>

lemma member_envelope:
  "member ''device_id'' (envelope_json e) = JStr (DeviceID e)" "member ''timestamp'' (envelope_json e) = JStr (Timestamp e)"
  "member ''sequence'' (envelope_json e) = JNum (IntNum (uint (Sequence e)))"
  "member ''event_id'' (envelope_json e) = JStr (EventID e)" "member ''payload'' (envelope_json e) = Payload e"
  "member ''signature'' (envelope_json e) = JStr (Signature e)" "is_object (envelope_json e)"
  by (simp_all add: member_def envelope_json_def is_object_def)

lemma b64_ascii: "c \<in> set (b64_encode s) \<Longrightarrow> (of_char c :: nat) < 128"
proof -
  have b: "(of_char (b64_char n) :: nat) < 128" for n by (auto simp: b64_char_def of_char_eq_iff split: if_splits)
  show "c \<in> set (b64_encode s) \<Longrightarrow> (of_char c :: nat) < 128" using b by (induction s rule: b64_encode.induct) auto
qed

lemma hex_ascii: "c \<in> set (hex_encode s) \<Longrightarrow> (of_char c :: nat) < 128"
  using hex_encode_chars[of c s] by (auto simp: is_hex_def is_digit_def)

text \<open>Every envelope that \<open>Sign\<close> makes of an object for an enrolled device passes the schema.\<close>

lemma signed_valid:
  assumes "Sign C d q (hex_encode rnd) payload key now = Inr e" and "code_points d = 36" and "q \<noteq> 0" and "length rnd = 16"
    and "four_digits now" and "\<And>k m. length (ed25519_sign C k m) = 64" and "is_object payload"
  shows "valid_envelope (envelope_json e) \<and> member ''payload'' (envelope_json e) = payload \<and>
    member ''timestamp'' (envelope_json e) = JStr (format_RFC3339Nano now)"
proof -
  have f: "DeviceID e = d" "Sequence e = q" "EventID e = hex_encode rnd" "Payload e = payload"
    "Timestamp e = format_RFC3339Nano now" using Sign_fields[OF assms(1)] by simp_all
  have "length (Signature e) = 88"
    using assms(1,6) by (auto simp: Sign_def Let_def length_b64 split: sum.splits if_splits)
  moreover have "\<forall>c \<in> set (Signature e). (of_char c :: nat) < 128"
    using assms(1) b64_ascii by (auto simp: Sign_def Let_def split: sum.splits if_splits)
  ultimately have s: "code_points (Signature e) = 88" by (simp add: code_points_ascii)
  have "code_points (hex_encode rnd) = 32" using hex_ascii assms(4) by (subst code_points_ascii) auto
  moreover have "1 \<le> uint q" using assms(3) uint_0_iff[of q] uint_ge_0[of q] by linarith
  ultimately show ?thesis using assms(2,7) s time_length[OF assms(5)]
    by (simp add: valid_envelope_def member_envelope f text_between_def text_with_def int_from_def as_int_def)
qed

lemma intake_quota:
  "member ''payload'' body = heartbeat_payload t cl text q \<Longrightarrow>
   list_all (has_key (member ''payload'' body)) required_fields \<and>
   member ''quota'' (member ''payload'' body) = (case q of None \<Rightarrow> JNull | Some s \<Rightarrow> quota_json s) \<and>
   as_int (member ''uptime_seconds'' (member ''payload'' body)) \<noteq> None"
  by (cases "TelemetryStatus (t_crypto t) (t_toml t) text (OTLPToken (cfg cl))")
    (simp add: heartbeat_payload_def Let_def required_fields_def has_key_def member_def as_int_def split: option.splits)

definition fits :: "RateLimitWindow option \<Rightarrow> bool" where
  "fits w = (\<forall>r. w = Some r \<longrightarrow> WindowMinutes r \<le> 525600 \<and> 0 \<le> ResetsAt r \<and> ResetsAt r \<le> 4102444800)"

definition within_bounds :: "QuotaSnapshot \<Rightarrow> bool" where
  "within_bounds s = (code_points (PlanType s) \<le> 64 \<and> fits (Primary s) \<and> fits (Secondary s))"

lemma window_accepted:
  "accepted_window (window_json r) = (sane_window (Some r) \<and> fits (Some r))"
  by (auto simp: accepted_window_def window_json_def member_def keys_in_def percentage_def int_between_def as_int_def
      sane_window_def fits_def)

lemma member_quota:
  "member ''plan_type'' (quota_json s) = (if PlanType s = [] then JNull else JStr (PlanType s))"
  "member ''primary'' (quota_json s) = (case Primary s of None \<Rightarrow> JNull | Some r \<Rightarrow> window_json r)"
  "member ''secondary'' (quota_json s) = (case Secondary s of None \<Rightarrow> JNull | Some r \<Rightarrow> window_json r)"
  "member ''observed_at'' (quota_json s) = JStr (ObservedAt s)"
  "keys_in [''plan_type'', ''primary'', ''secondary'', ''observed_at''] (quota_json s)"
  by (simp_all add: member_def quota_json_def keys_in_def split: option.split)

lemma quota_accepted:
  assumes "sane_window (Primary s)" and "sane_window (Secondary s)" and "ObservedAt s = format_RFC3339 t" and "four_digits t"
  shows "accepted_quota (quota_json s) = within_bounds s"
proof -
  have w: "optional accepted_window (case w of None \<Rightarrow> JNull | Some r \<Rightarrow> window_json r) = fits w" if "sane_window w" for w
  proof (cases w)
    case (Some r)
    have "window_json r \<noteq> JNull" by (simp add: window_json_def)
    with Some that show ?thesis by (simp add: optional_def window_accepted)
  qed (simp add: optional_def fits_def)
  have p: "optional (text_between 0 64) (if PlanType s = [] then JNull else JStr (PlanType s)) = (code_points (PlanType s) \<le> 64)"
    by (simp add: optional_def text_between_def text_with_def code_points_def)
  have o: "text_between 20 40 (JStr (ObservedAt s))"
    using time_length(3)[OF assms(4)] assms(3) by (simp add: text_between_def text_with_def)
  show ?thesis by (simp add: accepted_quota_def member_quota w[OF assms(1)] w[OF assms(2)] p o within_bounds_def)
qed

lemma quota_json_not_null: "quota_json s \<noteq> JNull"
  by (simp add: quota_json_def)

lemma day_accepted: "accepted_day (usage_json u)"
  by (simp add: accepted_day_def usage_json_def keys_in_def day_fields_def member_def text_with_def int_from_def as_int_def)

lemma member_day: "member ''date'' (usage_json u) = JStr (usage_Date u)"
  by (simp add: member_def usage_json_def)

text \<open>Counts of a day that a column of type \<open>BigInteger\<close> holds.\<close>

definition counts_fit :: "normalizedUsage \<Rightarrow> bool" where
  "counts_fit u =
     (InputTokens u < 9223372036854775808 \<and> CachedInputTokens u < 9223372036854775808 \<and>
      OutputTokens u < 9223372036854775808 \<and> ReasoningOutputTokens u < 9223372036854775808 \<and>
      TotalTokens u < 9223372036854775808)"

lemma uint_bound: "uint (x :: uint64) < 9223372036854775808 \<longleftrightarrow> x < 9223372036854775808"
  by (simp add: word_less_def)

lemma storable_usage: "storable_day (usage_json u) = counts_fit u"
  by (simp add: storable_day_def day_fields_def member_def usage_json_def as_int_def uint_bound counts_fit_def)

lemma usage_intake_days:
  assumes "member ''payload'' body = p" and "p = JObj [(''days'', d), (''source'', src)] \<or> p = JObj [(''source'', src), (''days'', d)]"
    and "d = JArr (map usage_json days)" and "src = JStr ''local'' \<or> src = JStr ''otel''"
    and "text_with (parses_time P) (member ''timestamp'' body)"
  shows "usage_intake P body =
    (if length days > 400 then Unprocessable
     else if \<forall>u \<in> set days. parses_date P (usage_Date u) \<and> counts_fit u then Taken else Crashed)"
proof -
  have m: "member ''days'' p = d" "member ''source'' p = src" "keys_in [''source'', ''days''] p"
    using assms(2) by (auto simp: member_def keys_in_def)
  have "accepted_usage p = (length days \<le> 400)"
    using assms(3,4) by (auto simp: accepted_usage_def m is_array_def as_rows_def list_all_iff day_accepted text_with_def)
  then show ?thesis using assms(3,5)
    by (simp add: usage_intake_def Let_def assms(1) m as_rows_def list_all_iff member_day text_with_def
        storable_usage ball_conj_distrib)
qed

section \<open>Properties\<close>

text \<open>A client whose device id is a UUID, with identifiers of 16 and signatures of 64 bytes.\<close>

definition sound_sender :: "('w, 'x) turn_scheme \<Rightarrow> Client \<Rightarrow> bool" where
  "sound_sender t cl =
     (code_points (Config_DeviceID (cfg cl)) = 36 \<and> NextSequence (cfg cl) \<noteq> 0 \<and> four_digits (t_clock t 2) \<and>
      (\<forall>rnd. t_random t = Some rnd \<longrightarrow> length rnd = 16) \<and> (\<forall>k m. length (ed25519_sign (t_crypto t) k m) = 64))"

text \<open>\<open>fromisoformat\<close> reads the two formats of the agent.\<close>

definition reads_times :: "python \<Rightarrow> bool" where
  "reads_times P = (\<forall>x. four_digits x \<longrightarrow> parses_time P (format_RFC3339Nano x) \<and> parses_time P (format_RFC3339 x))"

text \<open>
  The server knows the device under a key that verifies what the client signs, has taken no number from it that is not
  below the next one (the invariant of \<open>Delivery\<close>), and the number fits its column.
\<close>

definition registered :: "(string \<Rightarrow> string \<Rightarrow> bytes \<Rightarrow> bool) \<Rightarrow> ('w, 'x) turn_scheme \<Rightarrow> Client \<Rightarrow> server \<Rightarrow> device \<Rightarrow> bool" where
  "registered ver t cl srv dev =
     (map_of (devices srv) (Config_DeviceID (cfg cl)) = Some dev \<and>
      last_sequence dev < unat (NextSequence (cfg cl)) \<and> unat (NextSequence (cfg cl)) < 9223372036854775808 \<and>
      (\<forall>rnd. t_random t = Some rnd \<longrightarrow> (Config_DeviceID (cfg cl), hex_encode rnd) \<notin> set (processed_events srv)) \<and>
      (\<forall>key m. b64_decode (PrivateKey (cfg cl)) = Some key \<longrightarrow>
         ver (public_key dev) (b64_encode (ed25519_sign (t_crypto t) key m)) m))"

fun answer_code :: "http \<Rightarrow> nat" where
  "answer_code (Answer code text) = code"
| "answer_code NoAnswer = 0"

lemma enqueued_item:
  assumes "enqueue t endpoint payload cl w = (None, cl', w')" and "pending_items (queue_file w) = Some items"
    and "sound_sender t cl" and "is_object payload"
  obtains xs envelope key rnd where "pending_items (queue_file w') = Some (xs @ [report_item t endpoint envelope])"
    "valid_envelope (envelope_json envelope)" "t_random t = Some rnd" "b64_decode (PrivateKey (cfg cl)) = Some key"
    "Sign (t_crypto t) (Config_DeviceID (cfg cl)) (NextSequence (cfg cl)) (hex_encode rnd) payload key (t_clock t 2) =
       Inr envelope"
  using assms(1)
proof (cases rule: enqueue_cases)
  case (saved key rnd envelope c' s' er q)
  have "valid_envelope (envelope_json envelope)"
    using signed_valid[OF saved(3)] assms(3,4) saved(2) by (auto simp: sound_sender_def)
  moreover have "pending_items (queue_file w') =
      Some (filter (live (cl_Queue cl) (t_clock t 4)) items @ [report_item t endpoint envelope])"
    using file_queue.push_ok[OF assms(2)] saved(5,6,8) by auto
  ultimately show ?thesis using that saved(1-3) by blast
qed simp_all

text \<open>What a route answers to a report that \<open>enqueue\<close> has queued.\<close>

lemma route_enqueued:
  assumes "enqueue t endpoint payload cl w = (None, cl', w')" and "pending_items (queue_file w) = Some items"
    and "sound_sender t cl" and "is_object payload" and "registered ver t cl srv dev"
  obtains xs item where "pending_items (queue_file w') = Some (xs @ [item])" "valid_envelope (Envelope_data item)"
    "member ''payload'' (Envelope_data item) = payload"
    "member ''timestamp'' (Envelope_data item) = JStr (format_RFC3339Nano (t_clock t 2))"
    "signed_alike payload \<Longrightarrow> signature_verified ver (t_crypto t) (public_key dev) (Envelope_data item)"
    "\<And>check. \<exists>a srv'. signed_route ver (t_crypto t) check Stores (Envelope_data item) srv = (a, srv') \<and>
       answer_code a = (if \<not> signature_verified ver (t_crypto t) (public_key dev) (Envelope_data item) then 401
                   else case check (Envelope_data item) of Taken \<Rightarrow> 200 | Unprocessable \<Rightarrow> 422 | Crashed \<Rightarrow> 500) \<and>
       (if answer_code a = 200 then last_seq_of srv' =
          (last_seq_of srv)(Config_DeviceID (cfg cl) \<mapsto> unat (NextSequence (cfg cl))) else srv' = srv)"
proof -
  obtain xs envelope key rnd where q: "pending_items (queue_file w') = Some (xs @ [report_item t endpoint envelope])"
    and v: "valid_envelope (envelope_json envelope)" and k: "t_random t = Some rnd" "b64_decode (PrivateKey (cfg cl)) = Some key"
    and sg: "Sign (t_crypto t) (Config_DeviceID (cfg cl)) (NextSequence (cfg cl)) (hex_encode rnd) payload key (t_clock t 2) =
       Inr envelope"
    by (rule enqueued_item[OF assms(1-4)])
  let ?b = "envelope_json envelope"
  have f: "DeviceID envelope = Config_DeviceID (cfg cl)" "Sequence envelope = NextSequence (cfg cl)"
    "EventID envelope = hex_encode rnd" "Payload envelope = payload" "Timestamp envelope = format_RFC3339Nano (t_clock t 2)"
    using Sign_fields[OF sg] by simp_all
  have alike: "signature_verified ver (t_crypto t) (public_key dev) ?b" if al: "signed_alike payload"
  proof -
    obtain m where m: "envelope_message (t_crypto t) envelope = Some m"
      "Signature envelope = b64_encode (ed25519_sign (t_crypto t) key m)" using Sign_message[OF sg] by blast
    have "m = signature_message (t_crypto t) (DeviceID envelope) (int (unat (Sequence envelope))) (Timestamp envelope)
        (EventID envelope) (Payload envelope)"
      using signed_alike_message[OF m(1)] al f(4) by simp
    with m(2) k(2) assms(5) show ?thesis
      by (simp add: signature_verified_def report_id_envelope member_envelope as_text_def registered_def)
  qed
  have r: "report_id ?b = Some (Config_DeviceID (cfg cl), unat (NextSequence (cfg cl)), hex_encode rnd)"
    by (simp add: report_id_envelope f)
  have s: "map_of (devices srv) (Config_DeviceID (cfg cl)) = Some dev" "last_sequence dev < unat (NextSequence (cfg cl))"
    "unat (NextSequence (cfg cl)) < 9223372036854775808"
    "(Config_DeviceID (cfg cl), hex_encode rnd) \<notin> set (processed_events srv)"
    using assms(5) k(1) by (auto simp: registered_def)
  have route: "\<exists>a srv'. signed_route ver (t_crypto t) check Stores ?b srv = (a, srv') \<and>
       answer_code a = (if \<not> signature_verified ver (t_crypto t) (public_key dev) ?b then 401
                   else case check ?b of Taken \<Rightarrow> 200 | Unprocessable \<Rightarrow> 422 | Crashed \<Rightarrow> 500) \<and>
       (if answer_code a = 200 then last_seq_of srv' =
          (last_seq_of srv)(Config_DeviceID (cfg cl) \<mapsto> unat (NextSequence (cfg cl))) else srv' = srv)" for check
    using s v by (cases "check ?b")
      (auto simp: signed_route_def r internal_error_def last_seq_of_def fun_eq_iff update_conv' not_le)
  have e: "Envelope_data (report_item t endpoint envelope) = ?b" by (simp add: report_item_def)
  note that = that[OF q, unfolded e]
  show ?thesis
    by (rule that) (rule v, simp add: member_envelope f, simp add: member_envelope f, erule alike, rule route)
qed

lemma heartbeat_intake_quota:
  assumes "member ''payload'' body = heartbeat_payload t cl text q"
    and t: "text_with (parses_time P) (member ''timestamp'' body)" and "reads_times P"
    and "\<forall>s. q = Some s \<longrightarrow> sane_window (Primary s) \<and> sane_window (Secondary s) \<and>
      (\<exists>x. four_digits x \<and> ObservedAt s = format_RFC3339 x)"
  shows "heartbeat_intake P recorded body = (if \<forall>s. q = Some s \<longrightarrow> within_bounds s then Taken else Unprocessable)"
proof -
  note p = intake_quota[OF assms(1)]
  show ?thesis
  proof (cases q)
    case None
    with p t show ?thesis by (simp add: heartbeat_intake_def Let_def)
  next
    case (Some s)
    with assms(4) obtain x where s: "sane_window (Primary s)" "sane_window (Secondary s)"
      "ObservedAt s = format_RFC3339 x" "four_digits x" by blast
    then have "text_with (parses_time P) (member ''observed_at'' (quota_json s))"
      using assms(3) by (simp add: member_quota text_with_def reads_times_def)
    with p t Some quota_accepted[OF s] quota_json_not_null show ?thesis by (simp add: heartbeat_intake_def Let_def)
  qed
qed

text \<open>
  C27: what the server answers to a heartbeat of an enrolled agent, through the whole route. The agent's item passes
  the schema of the envelope. When the payload consists of web-safe texts and plain numbers, the signature is verified
  over the message that the server recomputes; for other payloads it need not be, and then the answer is 401. A verified
  heartbeat is answered with 422 if and only if it carries a quota reading whose plan name is longer than 64 characters,
  or one of whose windows is longer than a year or resets before 1970 or after 2099, and with 200 otherwise. The server
  has taken the number of the report exactly when it answers with 200. The agent itself checks none of the three bounds,
  so one such log line blocks the queue. The assumptions are that the server has registered the device with the key of
  the client and has taken smaller numbers only, a fresh event id, clocks within years of four digits, a quota reading
  as \<open>LatestQuota\<close> returns it (C30), and a database that carries out its statements.
\<close>

theorem heartbeat_taken:
  assumes "enqueue t ''/api/v1/heartbeat'' (heartbeat_payload t cl text q) cl w = (None, cl', w')"
    and "pending_items (queue_file w) = Some items" and "sound_sender t cl" and "reads_times P"
    and "registered ver t cl srv dev"
    and "\<forall>s. q = Some s \<longrightarrow> sane_window (Primary s) \<and> sane_window (Secondary s) \<and>
      (\<exists>x. four_digits x \<and> ObservedAt s = format_RFC3339 x)"
  shows "\<exists>xs item a srv'. pending_items (queue_file w') = Some (xs @ [item]) \<and> valid_envelope (Envelope_data item) \<and>
    (signed_alike (heartbeat_payload t cl text q) \<longrightarrow>
       signature_verified ver (t_crypto t) (public_key dev) (Envelope_data item)) \<and>
    signed_route ver (t_crypto t) (heartbeat_intake P recorded) Stores (Envelope_data item) srv = (a, srv') \<and>
    answer_code a = (if \<not> signature_verified ver (t_crypto t) (public_key dev) (Envelope_data item) then 401
                else if \<forall>s. q = Some s \<longrightarrow> within_bounds s then 200 else 422) \<and>
    (if answer_code a = 200 then last_seq_of srv' =
       (last_seq_of srv)(Config_DeviceID (cfg cl) \<mapsto> unat (NextSequence (cfg cl))) else srv' = srv)"
proof -
  have "is_object (heartbeat_payload t cl text q)"
    by (simp add: heartbeat_payload_def Let_def is_object_def split: prod.splits)
  from route_enqueued[OF assms(1-3) this assms(5)] obtain xs item
    where i: "pending_items (queue_file w') = Some (xs @ [item])"
    "valid_envelope (Envelope_data item)" "member ''payload'' (Envelope_data item) = heartbeat_payload t cl text q"
    "member ''timestamp'' (Envelope_data item) = JStr (format_RFC3339Nano (t_clock t 2))"
    "signed_alike (heartbeat_payload t cl text q) \<Longrightarrow>
       signature_verified ver (t_crypto t) (public_key dev) (Envelope_data item)"
    and route: "\<And>check. \<exists>a srv'. signed_route ver (t_crypto t) check Stores (Envelope_data item) srv = (a, srv') \<and>
       answer_code a = (if \<not> signature_verified ver (t_crypto t) (public_key dev) (Envelope_data item) then 401
                   else case check (Envelope_data item) of Taken \<Rightarrow> 200 | Unprocessable \<Rightarrow> 422 | Crashed \<Rightarrow> 500) \<and>
       (if answer_code a = 200 then last_seq_of srv' =
          (last_seq_of srv)(Config_DeviceID (cfg cl) \<mapsto> unat (NextSequence (cfg cl))) else srv' = srv)" by blast
  have t: "text_with (parses_time P) (member ''timestamp'' (Envelope_data item))"
    using assms(3,4) i(4) by (simp add: sound_sender_def reads_times_def text_with_def)
  have h: "heartbeat_intake P recorded (Envelope_data item) =
      (if \<forall>s. q = Some s \<longrightarrow> within_bounds s then Taken else Unprocessable)"
    by (rule heartbeat_intake_quota[OF i(3) t assms(4,6)])
  have c: "(case (if b then Taken else Unprocessable) of Taken \<Rightarrow> 200 | Unprocessable \<Rightarrow> 422 | Crashed \<Rightarrow> 500) =
      (if b then 200 else 422 :: nat)" for b by simp
  from route[of "heartbeat_intake P recorded", unfolded h c] i(1,2,5) show ?thesis by blast
qed

text \<open>
  C28: what the server answers to a usage report of an enrolled agent, from \<open>ccusage\<close> or from the local collector,
  through the whole route. The item passes the schema of the envelope; its signature is verified when the payload
  consists of web-safe texts and counts below \<open>2^53\<close>, and need not be otherwise (401). A verified report is answered with
  422 if and only if it has more than 400 days, else with 500 if and only if Python does not read one of its dates or
  one of its counts is \<open>2^63\<close> or more, which no column of the database holds, and else with 200; only then has the
  server taken its number. The days of the collector are never pruned, so its reports are refused for good once it has
  seen more than 400 days. The assumptions are those of C27, without the ones on the quota.
\<close>

theorem usage_taken:
  assumes "enqueue t ''/api/v1/usage'' p cl w = (None, cl', w')" and "pending_items (queue_file w) = Some items"
    and "sound_sender t cl" and "reads_times P" and "registered ver t cl srv dev"
    and "p = usage_payload ''local'' days \<or>
      (otel_payload order s = Some p \<and> days = map snd (order (Days (loadOTelStore s))))"
  shows "\<exists>xs item a srv'. pending_items (queue_file w') = Some (xs @ [item]) \<and> valid_envelope (Envelope_data item) \<and>
    (signed_alike p \<longrightarrow> signature_verified ver (t_crypto t) (public_key dev) (Envelope_data item)) \<and>
    signed_route ver (t_crypto t) (usage_intake P) Stores (Envelope_data item) srv = (a, srv') \<and>
    answer_code a = (if \<not> signature_verified ver (t_crypto t) (public_key dev) (Envelope_data item) then 401
                else if length days > 400 then 422
                else if \<forall>u \<in> set days. parses_date P (usage_Date u) \<and> counts_fit u then 200 else 500) \<and>
    (if answer_code a = 200 then last_seq_of srv' =
       (last_seq_of srv)(Config_DeviceID (cfg cl) \<mapsto> unat (NextSequence (cfg cl))) else srv' = srv)"
proof -
  define d where "d = JArr (map usage_json days)"
  have shape: "p = JObj [(''days'', d), (''source'', JStr ''local'')] \<or> p = JObj [(''source'', JStr ''otel''), (''days'', d)]"
    using assms(6) by (auto simp: usage_payload_def otel_payload_def Let_def d_def case_prod_beta comp_def split: if_splits)
  then have "is_object p" by (auto simp: is_object_def)
  from route_enqueued[OF assms(1-3) this assms(5)] obtain xs item
    where i: "pending_items (queue_file w') = Some (xs @ [item])"
    "valid_envelope (Envelope_data item)" "member ''payload'' (Envelope_data item) = p"
    "member ''timestamp'' (Envelope_data item) = JStr (format_RFC3339Nano (t_clock t 2))"
    "signed_alike p \<Longrightarrow> signature_verified ver (t_crypto t) (public_key dev) (Envelope_data item)"
    and route: "\<And>check. \<exists>a srv'. signed_route ver (t_crypto t) check Stores (Envelope_data item) srv = (a, srv') \<and>
       answer_code a = (if \<not> signature_verified ver (t_crypto t) (public_key dev) (Envelope_data item) then 401
                   else case check (Envelope_data item) of Taken \<Rightarrow> 200 | Unprocessable \<Rightarrow> 422 | Crashed \<Rightarrow> 500) \<and>
       (if answer_code a = 200 then last_seq_of srv' =
          (last_seq_of srv)(Config_DeviceID (cfg cl) \<mapsto> unat (NextSequence (cfg cl))) else srv' = srv)" by blast
  have t: "text_with (parses_time P) (member ''timestamp'' (Envelope_data item))"
    using assms(3,4) i(4) by (simp add: sound_sender_def reads_times_def text_with_def)
  from shape have h: "usage_intake P (Envelope_data item) =
      (if length days > 400 then Unprocessable
       else if \<forall>u \<in> set days. parses_date P (usage_Date u) \<and> counts_fit u then Taken else Crashed)"
    using usage_intake_days[OF i(3) _ d_def _ t] by blast
  have c: "(case (if l then Unprocessable else if b then Taken else Crashed) of Taken \<Rightarrow> 200 | Unprocessable \<Rightarrow> 422
      | Crashed \<Rightarrow> 500) = (if l then 422 else if b then 200 else 500 :: nat)" for l b by simp
  from route[of "usage_intake P", unfolded h c] i(1,2,5) show ?thesis by blast
qed

section \<open>A sample sender\<close>

definition sound_cycle :: "json list cycle" where
  "sound_cycle = (sample_cycle (Some (replicate 16 CHR ''r'')))
     \<lparr>t_crypto := \<lparr>sha256 = (\<lambda>b. b), ed25519_sign = (\<lambda>k m. replicate 64 CHR ''s'')\<rparr>\<rparr>"

definition sound_client :: Client where
  "sound_client = sample_client\<lparr>cfg := client_config\<lparr>Config_DeviceID := replicate 36 CHR ''d''\<rparr>\<rparr>"

definition all_times :: python where "all_times = \<lparr>parses_time = (\<lambda>_. True), parses_date = (\<lambda>_. True)\<rparr>"

definition sample_day :: normalizedUsage where
  "sample_day = \<lparr>usage_Date = ''2026-01-01'', InputTokens = 1, CachedInputTokens = 0, OutputTokens = 1, ReasoningOutputTokens = 0,
     TotalTokens = 2\<rparr>"

lemma civil_start: "civil 0 = (1, 1, 1)"
  by code_simp

lemma early_times: "four_digits (Time 2)" "four_digits (Time 9)"
  by (simp_all add: four_digits_def civil_start)

lemma sample_sound: "sound_sender sound_cycle sound_client" "reads_times all_times"
  using early_times(1)
  by (simp_all add: sound_sender_def sound_cycle_def sound_client_def code_points_def reads_times_def all_times_def
      client_config_simps filter_True)

lemma sound_enqueue:
  assumes "supported payload"
  shows "\<exists>cl' w'. enqueue sound_cycle endpoint payload sound_client (client_world []) = (None, cl', w')"
proof (rule enqueue_succeeds[where key = "replicate 64 CHR ''k''" and rnd = "replicate 16 CHR ''r''" and items = "[]"])
  show "seal (t_secrets sound_cycle) (Defaults (next_config sound_client)) =
      Inr ((Defaults (next_config sound_client))\<lparr>ProtectedPrivateKey := [], ProtectedOTLPToken := [],
        KeyProtection := ''root-owned-file''\<rparr>)"
    by (simp add: sound_cycle_def seal_other)
  show "pending_items (queue_file (client_world [])) = Some []" by (rule client_pending)
  show "b64_decode (PrivateKey (cfg sound_client)) = Some (replicate 64 CHR ''k'')"
    by (simp add: sound_client_def client_config_simps)
  show "save_fault_of sound_cycle = None" "push_fault sound_cycle = None" "t_random sound_cycle = Some (replicate 16 CHR ''r'')"
    by (simp_all add: sound_cycle_def sample_cycle_def turn.defs client_turn_def)
qed (use assms in simp_all)

definition sample_device :: device where
  "sample_device = \<lparr>public_key = ''pk'', last_sequence = 6\<rparr>"

definition sample_server :: server where
  "sample_server = \<lparr>devices = [(replicate 36 CHR ''d'', sample_device)], processed_events = []\<rparr>"

text \<open>A check that takes the signature the sample key gives to every message.\<close>

definition sample_verify :: "string \<Rightarrow> string \<Rightarrow> bytes \<Rightarrow> bool" where
  "sample_verify key sg m = (key = ''pk'' \<and> sg = b64_encode (replicate 64 CHR ''s''))"

lemma sample_registered: "registered sample_verify sound_cycle sound_client sample_server sample_device"
  by (simp add: registered_def sample_server_def sample_device_def sample_verify_def sound_client_def sound_cycle_def
      client_config_simps del: b64_encode.simps)

definition long_window :: QuotaSnapshot where
  "long_window = \<lparr>PlanType = ''pro'', Primary = Some \<lparr>UsedPercent = IntNum 40, WindowMinutes = 525601, ResetsAt = 0\<rparr>,
     Secondary = None, ObservedAt = format_RFC3339 (Time 9)\<rparr>"

lemma sample_alike:
  "signed_alike (heartbeat_payload sound_cycle sound_client NoFile (Some long_window))"
  "signed_alike (usage_payload ''local'' [sample_day])"
  by code_simp+

theorem heartbeat_taken_witness:
  "\<exists>cl' w' xs item a srv'. enqueue sound_cycle ''/api/v1/heartbeat''
      (heartbeat_payload sound_cycle sound_client NoFile (Some long_window)) sound_client (client_world []) = (None, cl', w') \<and>
     pending_items (queue_file w') = Some (xs @ [item]) \<and>
     signed_route sample_verify (t_crypto sound_cycle) (heartbeat_intake all_times True) Stores (Envelope_data item)
       sample_server = (a, srv') \<and> answer_code a = 422 \<and> srv' = sample_server"
proof -
  obtain cl' w' where e: "enqueue sound_cycle ''/api/v1/heartbeat''
      (heartbeat_payload sound_cycle sound_client NoFile (Some long_window)) sound_client (client_world []) = (None, cl', w')"
    using sound_enqueue supported_heartbeat by blast
  have s: "\<forall>s. Some long_window = Some s \<longrightarrow> sane_window (Primary s) \<and> sane_window (Secondary s) \<and>
      (\<exists>x. four_digits x \<and> ObservedAt s = format_RFC3339 x)"
    using early_times(2) by (auto simp: long_window_def sane_window_def negative_def over_100_def)
  have o: "\<not> (\<forall>s. Some long_window = Some s \<longrightarrow> within_bounds s)" by (simp add: long_window_def within_bounds_def fits_def)
  from heartbeat_taken[OF e client_pending sample_sound sample_registered s, of True] obtain xs item a srv'
    where "pending_items (queue_file w') = Some (xs @ [item])"
      "signed_route sample_verify (t_crypto sound_cycle) (heartbeat_intake all_times True) Stores (Envelope_data item)
       sample_server = (a, srv')" "answer_code a = 422" "srv' = sample_server"
    unfolding if_not_P[OF o] using sample_alike(1) by (auto split: if_splits)
  with e show ?thesis by blast
qed

theorem usage_taken_witness:
  "\<exists>cl' w' xs item a srv'. enqueue sound_cycle ''/api/v1/usage'' (usage_payload ''local'' [sample_day]) sound_client
      (client_world []) = (None, cl', w') \<and> pending_items (queue_file w') = Some (xs @ [item]) \<and>
     signed_route sample_verify (t_crypto sound_cycle) (usage_intake all_times) Stores (Envelope_data item) sample_server =
       (a, srv') \<and> answer_code a = 200 \<and> last_seq_of srv' (replicate 36 CHR ''d'') = Some 7"
proof -
  have "supported (usage_payload ''local'' [sample_day])" by (simp add: usage_payload_def usage_json_def)
  then obtain cl' w' where e: "enqueue sound_cycle ''/api/v1/usage'' (usage_payload ''local'' [sample_day]) sound_client
      (client_world []) = (None, cl', w')" using sound_enqueue by blast
  have b: "\<forall>u \<in> set [sample_day]. parses_date all_times (usage_Date u) \<and> counts_fit u"
    by (simp add: all_times_def sample_day_def counts_fit_def)
  have n: "Config_DeviceID (cfg sound_client) = replicate 36 CHR ''d''" "unat (NextSequence (cfg sound_client)) = 7"
    by (simp_all add: sound_client_def client_config_simps)
  from usage_taken[OF e client_pending sample_sound sample_registered disjI1[OF refl]] obtain xs item a srv'
    where "pending_items (queue_file w') = Some (xs @ [item])"
      "signed_route sample_verify (t_crypto sound_cycle) (usage_intake all_times) Stores (Envelope_data item) sample_server =
       (a, srv')" "answer_code a = 200"
      "last_seq_of srv' = (last_seq_of sample_server)(Config_DeviceID (cfg sound_client) \<mapsto> unat (NextSequence (cfg sound_client)))"
    unfolding if_P[OF b] using sample_alike(2) by (auto split: if_splits)
  with e show ?thesis unfolding n by fastforce
qed

end
