(* ===== verification/Journey.thy ===== *)
theory Journey
  imports Delivery
begin

text \<open>
  What becomes of each report. An execution of the agent is a list of labelled steps; every report that was
  queued is, at any later time, in exactly one of four places: still in the queue, processed by the receiver,
  dropped as expired by a later \<open>Push\<close>, or dropped with the queue of a device the receiver had lost.
\<close>

section \<open>Executions\<close>

text \<open>The steps of \<open>agent_step\<close> that write the queue carry a label; no other step touches it.\<close>

datatype 'w act = Report "'w turn" string json | Deliver "'w turn" | Internal

inductive labelled ::
  "('w turn \<Rightarrow> bool) \<Rightarrow> ('w \<Rightarrow> 'w \<Rightarrow> bool) \<Rightarrow> 'w act \<Rightarrow> 'w agent \<Rightarrow> 'w agent \<Rightarrow> bool" for ok resets where
  report: "ok t \<Longrightarrow> NextSequence (cfg cl) + 1 \<noteq> 0 \<Longrightarrow> enqueue t endpoint payload cl w = (e, cl', w') \<Longrightarrow>
    labelled ok resets (Report t endpoint payload) (Some cl, w) (Some cl', w')"
| deliver: "ok t \<Longrightarrow> Flush t cl w = (e, cl', w') \<Longrightarrow> labelled ok resets (Deliver t) (Some cl, w) (Some cl', w')"
| internal: "agent_step ok resets s s' \<Longrightarrow> queue_file (snd s') = queue_file (snd s) \<Longrightarrow> labelled ok resets Internal s s'"

inductive_cases labelled_cases: "labelled ok resets a s s'"

text \<open>Labels are no restriction.\<close>

lemma labelled_step: "(\<exists>a. labelled ok resets a s s') \<longleftrightarrow> agent_step ok resets s s'"
proof
  assume "\<exists>a. labelled ok resets a s s'"
  then show "agent_step ok resets s s'" by (auto elim!: labelled_cases intro: agent_step.intros)
next
  assume "agent_step ok resets s s'"
  then show "\<exists>a. labelled ok resets a s s'"
  proof cases
    case (queue_report t cl endpoint payload w e cl' w')
    then show ?thesis using labelled.report[of ok t cl] by blast
  next
    case (deliver_queue t cl w e cl' w')
    then show ?thesis using labelled.deliver[of ok t cl] by blast
  next
    case (refresh_home t cl w e cl' w')
    then have "queue_file (snd s') = queue_file (snd s)" by (auto elim: refresh_cases)
    with \<open>agent_step ok resets s s'\<close> show ?thesis by (blast intro: labelled.internal)
  qed (use \<open>agent_step ok resets s s'\<close> in \<open>auto intro!: exI[of _ Internal] labelled.internal\<close>)
qed

text \<open>The steps of an execution, each with the state before and after it.\<close>

type_synonym 'w step = "'w agent \<times> 'w act \<times> 'w agent"

fun execution :: "('w turn \<Rightarrow> bool) \<Rightarrow> ('w \<Rightarrow> 'w \<Rightarrow> bool) \<Rightarrow> 'w agent \<Rightarrow> 'w step list \<Rightarrow> 'w agent \<Rightarrow> bool" where
  "execution ok resets s [] s' = (s' = s)"
| "execution ok resets s (p # ps) s' =
     (fst p = s \<and> labelled ok resets (fst (snd p)) s (snd (snd p)) \<and> execution ok resets (snd (snd p)) ps s')"

lemma execution_exists: "(\<exists>ps. execution ok resets s ps s') \<longleftrightarrow> (agent_step ok resets)\<^sup>*\<^sup>* s s'"
proof
  have "execution ok resets s ps s' \<Longrightarrow> (agent_step ok resets)\<^sup>*\<^sup>* s s'" for ps
  proof (induction ps arbitrary: s)
    case (Cons p ps)
    then have "labelled ok resets (fst (snd p)) s (snd (snd p))" by simp
    then have "agent_step ok resets s (snd (snd p))" using labelled_step[of ok resets s "snd (snd p)"] by blast
    moreover have "(agent_step ok resets)\<^sup>*\<^sup>* (snd (snd p)) s'" using Cons.IH[of "snd (snd p)"] Cons.prems by simp
    ultimately show ?case by (rule converse_rtranclp_into_rtranclp)
  qed simp
  then show "\<exists>ps. execution ok resets s ps s' \<Longrightarrow> (agent_step ok resets)\<^sup>*\<^sup>* s s'" by blast
next
  assume "(agent_step ok resets)\<^sup>*\<^sup>* s s'"
  then show "\<exists>ps. execution ok resets s ps s'"
  proof (induction rule: converse_rtranclp_induct)
    case base
    show ?case by (rule exI[of _ "[]"]) simp
  next
    case (step s s1)
    then obtain ps a where "execution ok resets s1 ps s'" "labelled ok resets a s s1" using labelled_step by blast
    then show ?case by (intro exI[of _ "(s, a, s1) # ps"]) simp
  qed
qed

section \<open>The four fates\<close>

definition pending_of :: "'w agent \<Rightarrow> json Item list" where
  "pending_of s = (case pending_items (queue_file (snd s)) of Some items \<Rightarrow> items | None \<Rightarrow> [])"

text \<open>The report that a step has queued: the last item of the queue after a successful \<open>enqueue\<close>.\<close>

definition queued_by :: "'w step \<Rightarrow> json Item list" where
  "queued_by p =
     (case p of (s, a, s') \<Rightarrow>
        case (a, s) of
          (Report t endpoint payload, (Some cl, w)) \<Rightarrow>
            if fst (enqueue t endpoint payload cl w) = None then [last (pending_of s')] else []
        | _ \<Rightarrow> [])"

definition expired_in :: "'w step \<Rightarrow> json Item \<Rightarrow> bool" where
  "expired_in p i =
     (case p of (s, a, s') \<Rightarrow>
        case (a, s) of
          (Report t endpoint payload, (Some cl, w)) \<Rightarrow> i \<in> set (pending_of s) \<and> \<not> live (cl_Queue cl) (t_clock t 4) i
        | _ \<Rightarrow> False)"

definition abandoned_in :: "'w step \<Rightarrow> json Item \<Rightarrow> bool" where
  "abandoned_in p i =
     (case p of (s, a, s') \<Rightarrow>
        case (a, s) of
          (Deliver t, (Some cl, w)) \<Rightarrow> i \<in> set (pending_of s) \<and> (\<exists>x \<in> set (pending_of s). forgotten t cl x)
        | _ \<Rightarrow> False)"

definition processed_in :: "('w \<Rightarrow> (string \<times> string) set) \<Rightarrow> 'w step \<Rightarrow> json Item \<Rightarrow> bool" where
  "processed_in handled p i =
     (i \<in> set (pending_of (fst p)) \<and>
      (\<exists>d q ev. report_id (Envelope_data i) = Some (d, q, ev) \<and> (d, ev) \<in> handled (net (snd (snd (snd p))))))"

lemma pending_of_Some: "pending_items (queue_file w) = Some items \<Longrightarrow> pending_of (c, w) = items"
  by (simp add: pending_of_def)

text \<open>A push that succeeds: the items that have expired, then the new one.\<close>

lemma report_fates:
  assumes "enqueue t endpoint payload cl w = (e, cl', w')" and "pending_items (queue_file w) = Some items"
  shows "\<exists>expired. mset items + mset (queued_by ((Some cl, w), Report t endpoint payload, (Some cl', w'))) =
      mset (pending_of (Some cl', w')) + mset expired \<and>
    (\<forall>i \<in> set expired. expired_in ((Some cl, w), Report t endpoint payload, (Some cl', w')) i)"
proof (cases e)
  case None
  obtain env where p: "pending_items (queue_file w') = Some (filter (live (cl_Queue cl) (t_clock t 4)) items @ [report_item t endpoint env])"
    using enqueued[OF assms(1)[unfolded None] assms(2)] by blast
  have q: "queued_by ((Some cl, w), Report t endpoint payload, (Some cl', w')) = [report_item t endpoint env]"
    using assms(1) None by (simp add: queued_by_def pending_of_Some[OF p])
  have "mset items = mset (filter (live (cl_Queue cl) (t_clock t 4)) items) +
      mset (filter (\<lambda>i. \<not> live (cl_Queue cl) (t_clock t 4) i) items)"
    by (simp add: mset_filter multiset_partition)
  then show ?thesis
    by (intro exI[of _ "filter (\<lambda>i. \<not> live (cl_Queue cl) (t_clock t 4) i) items"])
      (simp add: q pending_of_Some[OF p] pending_of_Some[OF assms(2)] expired_in_def)
next
  case (Some x)
  from assms(1)[unfolded Some] have "pending_items (queue_file w') = Some items"
  proof (cases rule: enqueue_cases)
    case (saved key rnd envelope c' s' er q)
    then obtain y where "er = Some y" by (cases er) auto
    then have "pending_items q = pending_items (queue_file w)" using file_queue.push_error[OF saved(5)[unfolded \<open>er = Some y\<close>]] by simp
    with saved assms(2) show ?thesis by simp
  qed (use assms(2) in auto)
  with assms Some show ?thesis by (intro exI[of _ "[]"]) (simp add: queued_by_def pending_of_Some)
qed

text \<open>A delivery: the prefix that was processed, the rest of a lost device, what stays.\<close>

context report_receiver
begin

lemma deliver_fates:
  assumes "Flush t cl w = (e, cl', w')" and "obeys answers enrolls issued t" and "pending_items (queue_file w) = Some items"
  shows "\<exists>delivered abandoned. mset items = mset (pending_of (Some cl', w')) + mset delivered + mset abandoned \<and>
    (\<forall>i \<in> set delivered. processed_in handled ((Some cl, w), Deliver t, (Some cl', w')) i) \<and>
    (\<forall>i \<in> set abandoned. abandoned_in ((Some cl, w), Deliver t, (Some cl', w')) i)"
proof -
  obtain sent where "flush_run t cl w sent e cl' w'" using Flush_run[OF assms(1)] by blast
  from flush_run_removes[OF this assms(2,3)] obtain k where k: "k \<le> length items"
    "\<forall>i \<in> set (take k items). \<exists>d q ev. report_id (Envelope_data i) = Some (d, q, ev) \<and> (d, ev) \<in> handled (net w')"
    "pending_items (queue_file w') = Some (drop k items) \<or>
      (k < length items \<and> dest (queue_file w') = Content [] \<and> forgotten t cl (items ! k))" by blast
  let ?p = "((Some cl, w), Deliver t, (Some cl', w'))"
  have split: "mset items = mset (drop k items) + mset (take k items)"
    by (metis append_take_drop_id mset_append union_commute)
  have done': "\<forall>i \<in> set (take k items). processed_in handled ?p i"
    using k(2) in_set_takeD pending_of_Some[OF assms(3)] by (fastforce simp: processed_in_def)
  from k(3) show ?thesis
  proof
    assume "pending_items (queue_file w') = Some (drop k items)"
    with split done' show ?thesis
      by (intro exI[of _ "take k items"] exI[of _ "[]"]) (simp add: pending_of_Some)
  next
    assume lost: "k < length items \<and> dest (queue_file w') = Content [] \<and> forgotten t cl (items ! k)"
    then have "\<forall>i \<in> set (drop k items). abandoned_in ?p i"
      using in_set_dropD pending_of_Some[OF assms(3)] by (fastforce simp: abandoned_in_def intro: nth_mem)
    moreover have "pending_items (queue_file w') = Some []" using lost pending_Content by blast
    ultimately show ?thesis using split done'
      by (intro exI[of _ "take k items"] exI[of _ "drop k items"]) (simp add: pending_of_Some)
  qed
qed

text \<open>Every step accounts for every report that was pending before it or is queued by it.\<close>

lemma step_fates:
  assumes "labelled (obeys answers enrolls issued) resets a s s'" and "consistent last_seq handled s"
  shows "\<exists>delivered expired abandoned.
    mset (pending_of s) + mset (queued_by (s, a, s')) =
      mset (pending_of s') + mset delivered + mset expired + mset abandoned \<and>
    (\<forall>i \<in> set delivered. processed_in handled (s, a, s') i) \<and>
    (\<forall>i \<in> set expired. expired_in (s, a, s') i) \<and> (\<forall>i \<in> set abandoned. abandoned_in (s, a, s') i)"
  using assms(1)
proof (cases rule: labelled.cases)
  case (report t cl endpoint payload w e cl' w')
  obtain items where p: "pending_items (queue_file w) = Some items" using assms(2) report by (auto elim: consistentE)
  with report have s: "pending_of s = items" by (simp add: pending_of_Some)
  from report_fates[OF report(6) p] obtain expired where
    "mset items + mset (queued_by (s, a, s')) = mset (pending_of s') + mset expired"
    "\<forall>i \<in> set expired. expired_in (s, a, s') i" using report by blast
  then show ?thesis by (intro exI[of _ "[]"] exI[of _ expired]) (simp add: s)
next
  case (deliver t cl w e cl' w')
  obtain items where p: "pending_items (queue_file w) = Some items" using assms(2) deliver by (auto elim: consistentE)
  have q: "queued_by (s, a, s') = []" using deliver by (simp add: queued_by_def)
  from deliver p have s: "pending_of s = items" by (simp add: pending_of_Some)
  from deliver_fates[OF deliver(5,4) p] obtain delivered abandoned where
    "mset items = mset (pending_of s') + mset delivered + mset abandoned"
    "\<forall>i \<in> set delivered. processed_in handled (s, a, s') i" "\<forall>i \<in> set abandoned. abandoned_in (s, a, s') i"
    using deliver by blast
  then show ?thesis by (intro exI[of _ delivered] exI[of _ "[]"] exI[of _ abandoned]) (simp add: s q)
next
  case internal
  then show ?thesis
    by (intro exI[of _ "[]"]) (simp add: queued_by_def pending_of_def case_prod_beta)
qed

text \<open>An execution is accounted for step by step.\<close>

lemma execution_fates:
  "execution (obeys answers enrolls issued) resets s ps s' \<Longrightarrow> consistent last_seq handled s \<Longrightarrow>
   \<exists>delivered expired abandoned.
     mset (pending_of s) + mset (concat (map queued_by ps)) =
       mset (pending_of s') + mset delivered + mset expired + mset abandoned \<and>
     (\<forall>i \<in> set delivered. \<exists>p \<in> set ps. processed_in handled p i) \<and>
     (\<forall>i \<in> set expired. \<exists>p \<in> set ps. expired_in p i) \<and> (\<forall>i \<in> set abandoned. \<exists>p \<in> set ps. abandoned_in p i)"
proof (induction ps arbitrary: s)
  case Nil
  then show ?case by (intro exI[of _ "[]"]) simp
next
  case (Cons p ps)
  obtain a s1 where p: "p = (s, a, s1)" using Cons.prems(1) by (cases p) simp
  with Cons.prems(1) have l: "labelled (obeys answers enrolls issued) resets a s s1"
    and ex: "execution (obeys answers enrolls issued) resets s1 ps s'" by simp_all
  have "agent_step (obeys answers enrolls issued) resets s s1" using l labelled_step by blast
  then have "consistent last_seq handled s1" using agent_step_consistent Cons.prems(2) by blast
  from Cons.IH[OF ex this] obtain d x b where tl: "mset (pending_of s1) + mset (concat (map queued_by ps)) =
      mset (pending_of s') + mset d + mset x + mset b"
    "\<forall>i \<in> set d. \<exists>p \<in> set ps. processed_in handled p i" "\<forall>i \<in> set x. \<exists>p \<in> set ps. expired_in p i"
    "\<forall>i \<in> set b. \<exists>p \<in> set ps. abandoned_in p i" by blast
  from step_fates[OF l Cons.prems(2)] obtain d' x' b' where hd: "mset (pending_of s) + mset (queued_by p) =
      mset (pending_of s1) + mset d' + mset x' + mset b'"
    "\<forall>i \<in> set d'. processed_in handled p i" "\<forall>i \<in> set x'. expired_in p i" "\<forall>i \<in> set b'. abandoned_in p i"
    unfolding p by blast
  have "mset (pending_of s) + mset (concat (map queued_by (p # ps))) =
      mset (pending_of s') + mset (d' @ d) + mset (x' @ x) + mset (b' @ b)"
    using tl(1) hd(1) by (simp add: ac_simps) (metis (no_types, lifting) add.assoc add.left_commute)
  with tl(2-4) hd(2-4) show ?case
    by (intro exI[of _ "d' @ d"] exI[of _ "x' @ x"] exI[of _ "b' @ b"]) auto
qed

end

section \<open>The property\<close>

text \<open>
  C5: no report is lost and none is invented. Along any execution of the agent from its enrollment, with
  any crashes, failures of files, lost messages and database resets, the reports that were queued are, as
  a multiset, the ones still queued, the ones the server has processed by the end of the delivery that
  took them off, the ones that had expired when a later report was queued, and the ones dropped by a
  delivery in which the server had answered that it does not know their device.
\<close>

theorem reports_conserved:
  assumes "execution (obeys (delivery V) (registration issued) issued) wiped s ps s'" and "installed last_seq_of s"
  shows "\<exists>delivered expired abandoned.
    mset (concat (map queued_by ps)) = mset (pending_of s') + mset delivered + mset expired + mset abandoned \<and>
    (\<forall>i \<in> set delivered. \<exists>p \<in> set ps. processed_in handled_of p i) \<and>
    (\<forall>i \<in> set expired. \<exists>p \<in> set ps. expired_in p i) \<and> (\<forall>i \<in> set abandoned. \<exists>p \<in> set ps. abandoned_in p i)"
proof -
  have "pending_of s = []" using assms(2) by (auto simp: installed_def pending_of_def)
  with class_server.execution_fates[OF assms(1) class_server.installed_consistent[OF assms(2)]] show ?thesis by simp
qed

theorem reports_conserved_witness:
  "\<exists>ps s'. execution (obeys (delivery open_checks) (registration (\<lambda>_. None)) (\<lambda>_. None)) wiped (None, server_world) ps s' \<and>
     length (concat (map queued_by ps)) = 1 \<and>
     (\<exists>d x b. mset (concat (map queued_by ps)) = mset (pending_of s') + mset d + mset x + mset b)"
proof -
  obtain cl cl' w' where c: "New secrets_other zero_time (config_file server_world) = Inr cl" "NextSequence (cfg cl) = 1"
    and e: "enqueue server_turn ''/api/v1/heartbeat'' (JObj []) cl server_world = (None, cl', w')" using server_start by blast
  let ?ok = "obeys (delivery open_checks) (registration (\<lambda>_. None)) (\<lambda>_. None)"
  let ?a = "Report server_turn ''/api/v1/heartbeat'' (JObj [])"
  let ?ps = "[((None, server_world), Internal, (Some cl, server_world)), ((Some cl, server_world), ?a, (Some cl', w'))]"
  have "labelled ?ok wiped Internal (None, server_world) (Some cl, server_world)"
    using agent_step.restart[OF c(1)] by (auto intro: labelled.internal)
  moreover have "labelled ?ok wiped ?a (Some cl, server_world) (Some cl', w')"
    using server_obeys c(2) e by (intro labelled.report) simp_all
  ultimately have ex: "execution ?ok wiped (None, server_world) ?ps (Some cl', w')" by simp
  moreover have "length (concat (map queued_by ?ps)) = 1" by (simp add: queued_by_def e)
  ultimately show ?thesis using reports_conserved[OF ex server_installed] by blast
qed

end
