(* ===== verification/Service.thy ===== *)
theory Service
  imports RunLoop
begin

text \<open>
  \<open>service_other.go\<close> and \<open>service_windows.go\<close>: the watchdog, one definition per build variant, and the handler
  that the Windows service manager calls, as a function of the events it receives. \<open>t\<close> is the
  environment of the observation and the first event, \<open>t'\<close> that of the second event; commands are asked of the
  \<open>system\<close> record of \<open>t\<close>. Beside its result the watchdog returns the commands it has run.
\<close>

section \<open>Watchdog\<close>

datatype watchdog_err =
    EventFailed report_err | UnsupportedOS string | RestartFailed | ServiceMissing

definition stopped_details :: "MonitorPosture \<Rightarrow> json" where
  "stopped_details p =
     JObj [(''auto_start_ok'', JBool (AutoStartOK p)), (''restart_policy_ok'', JBool (RestartPolicyOK p)),
           (''service_fingerprint'', JStr (ServiceFingerprint p)), (''service_installed'', JBool (ServiceInstalled p)),
           (''service_running'', JBool (ServiceRunning p))]"

definition restart_details :: "MonitorPosture \<Rightarrow> json" where
  "restart_details p = JObj [(''service_fingerprint'', JStr (ServiceFingerprint p))]"

type_synonym 'w watchdog_result = "watchdog_err option \<times> string list list \<times> Client \<times> 'w world"

definition Watchdog_other ::
  "('w, 'x) cycle_scheme \<Rightarrow> ('w, 'y) cycle_scheme \<Rightarrow> string \<Rightarrow> Client \<Rightarrow> 'w world \<Rightarrow> 'w watchdog_result" where
  "Watchdog_other t t' configPath cl w =
     (let p = inspect_other (t_crypto t) (c_system t) configPath (cfg cl); os = runtime_GOOS (c_system t)
      in if ServiceRunning p then (None, [], cl, w)
         else
           (case SecurityEvent t ''SERVICE_STOPPED_OR_MODIFIED'' (stopped_details p) cl w of (eventErr, cl1, w1) \<Rightarrow>
              if os \<noteq> ''linux'' \<and> os \<noteq> ''darwin'' then (Some (UnsupportedOS os), [], cl1, w1)
              else
                let command = (if os = ''linux'' then [''systemctl'', ''start'', ''codex-guard.service'']
                               else [''launchctl'', ''kickstart'', ''-k'', ''system/com.openai.codex-guard''])
                in if \<not> CommandRun (c_system t) command then
                     (case SecurityEvent t' ''SERVICE_RESTART_FAILED'' (restart_details p) cl1 w1 of (_, cl2, w2) \<Rightarrow>
                        (Some RestartFailed, [command], cl2, w2))
                   else (map_option EventFailed eventErr, [command], cl1, w1)))"

definition windowsServiceName :: string where "windowsServiceName = ''CodexGuard''"

definition Watchdog_windows ::
  "('w, 'x) cycle_scheme \<Rightarrow> ('w, 'y) cycle_scheme \<Rightarrow> string \<Rightarrow> Client \<Rightarrow> 'w world \<Rightarrow> 'w watchdog_result" where
  "Watchdog_windows t t' configPath cl w =
     (let p = inspect_windows (t_crypto t) (c_system t) configPath (cfg cl)
      in if ServiceRunning p then (None, [], cl, w)
         else
           (case SecurityEvent t ''SERVICE_STOPPED_OR_MODIFIED'' (stopped_details p) cl w of (eventErr, cl1, w1) \<Rightarrow>
              if \<not> ServiceInstalled p then (Some ServiceMissing, [], cl1, w1)
              else
                let command = [''sc.exe'', ''start'', windowsServiceName]
                in if \<not> CommandRun (c_system t) command
                      \<and> \<not> Contains (ToUpper (CombinedOutput (c_system t) command)) ''RUNNING'' then
                     (case SecurityEvent t' ''SERVICE_RESTART_FAILED'' (restart_details p) cl1 w1 of (_, cl2, w2) \<Rightarrow>
                        (Some RestartFailed, [command], cl2, w2))
                   else (map_option EventFailed eventErr, [command], cl1, w1)))"

definition Watchdog ::
  "('w, 'x) cycle_scheme \<Rightarrow> ('w, 'y) cycle_scheme \<Rightarrow> string \<Rightarrow> Client \<Rightarrow> 'w world \<Rightarrow> 'w watchdog_result" where
  "Watchdog t = (if runtime_GOOS (c_system t) = ''windows'' then Watchdog_windows t else Watchdog_other t)"

section \<open>The Windows service\<close>

datatype service_state = StartPending | ServiceUp | StopPending

text \<open>\<open>Reported\<close> is a \<open>Status\<close> literal, with the flag for the controls it accepts; \<open>Echo\<close> sends back the current status.\<close>

datatype status = Reported service_state bool | Echo nat

datatype control = Interrogate nat | Stop | Shutdown | OtherControl nat

text \<open>What happens around the handler: \<open>Run\<close> returns, or a control request arrives.\<close>

datatype service_event = RunReturned "run_err option" | Request control

definition exit_of :: "run_err option \<Rightarrow> bool \<times> nat" where
  "exit_of e = (case e of None \<Rightarrow> (False, 0) | Some _ \<Rightarrow> (True, 1))"

text \<open>After \<open>cancel()\<close> the handler waits for \<open>Run\<close> and takes no more requests.\<close>

fun await_run :: "service_event list \<Rightarrow> (bool \<times> nat) option" where
  "await_run [] = None"
| "await_run (RunReturned e # evs) = Some (exit_of e)"
| "await_run (Request c # evs) = await_run evs"

fun serve :: "service_event list \<Rightarrow> status list \<times> (bool \<times> nat) option" where
  "serve [] = ([], None)"
| "serve (RunReturned e # evs) = ([], Some (exit_of e))"
| "serve (Request c # evs) =
     (case c of
        Interrogate current \<Rightarrow> (case serve evs of (sts, r) \<Rightarrow> (Echo current # sts, r))
      | Stop \<Rightarrow> ([Reported StopPending False], await_run evs)
      | Shutdown \<Rightarrow> ([Reported StopPending False], await_run evs)
      | OtherControl n \<Rightarrow> serve evs)"

text \<open>The statuses that are sent, and the exit code once the handler has returned.\<close>

definition Execute :: "service_event list \<Rightarrow> status list \<times> (bool \<times> nat) option" where
  "Execute evs = (case serve evs of (sts, r) \<Rightarrow> (Reported StartPending False # Reported ServiceUp True # sts, r))"

text \<open>
  \<open>is_service\<close> is the answer of \<open>svc.IsWindowsService\<close>, \<open>None\<close> an error, \<open>dispatch\<close> tells whether \<open>svc.Run\<close> returns
  without error.
\<close>

definition RunAsPlatformService_other :: "bool \<times> bool" where
  "RunAsPlatformService_other = (False, True)"

definition RunAsPlatformService_windows :: "bool option \<Rightarrow> bool \<Rightarrow> bool \<times> bool" where
  "RunAsPlatformService_windows is_service dispatch =
     (case is_service of
        None \<Rightarrow> (False, False)
      | Some False \<Rightarrow> (False, True)
      | Some True \<Rightarrow> (True, dispatch))"

text \<open>The file that the build constraint selects.\<close>

definition RunAsPlatformService :: "string \<Rightarrow> bool option \<Rightarrow> bool \<Rightarrow> bool \<times> bool" where
  "RunAsPlatformService os is_service dispatch =
     (if os = ''windows'' then RunAsPlatformService_windows is_service dispatch else RunAsPlatformService_other)"

section \<open>Properties\<close>

definition posture_of :: "('w, 'x) cycle_scheme \<Rightarrow> string \<Rightarrow> Client \<Rightarrow> MonitorPosture" where
  "posture_of t configPath cl = inspectMonitorPosture (t_crypto t) (c_system t) configPath (cfg cl)"

definition start_command :: "string \<Rightarrow> string list" where
  "start_command os =
     (if os = ''windows'' then [''sc.exe'', ''start'', ''CodexGuard'']
      else if os = ''linux'' then [''systemctl'', ''start'', ''codex-guard.service'']
      else [''launchctl'', ''kickstart'', ''-k'', ''system/com.openai.codex-guard''])"

definition can_start :: "string \<Rightarrow> MonitorPosture \<Rightarrow> bool" where
  "can_start os p = (if os = ''windows'' then ServiceInstalled p else os = ''linux'' \<or> os = ''darwin'')"

lemma watchdog_cases:
  "(ServiceRunning (posture_of t configPath cl) \<longrightarrow> Watchdog t t' configPath cl w = (None, [], cl, w)) \<and>
   (\<not> ServiceRunning (posture_of t configPath cl) \<longrightarrow>
      fst (snd (Watchdog t t' configPath cl w)) =
        (if can_start (runtime_GOOS (c_system t)) (posture_of t configPath cl)
         then [start_command (runtime_GOOS (c_system t))] else []))"
  by (auto simp: Watchdog_def Watchdog_windows_def Watchdog_other_def posture_of_def inspectMonitorPosture_def
      can_start_def start_command_def windowsServiceName_def Let_def split: prod.splits)

text \<open>
  The watchdog keeps out of the running agent's way and recovers a stopped one. While the service
  runs, the watchdog runs no command and touches neither the client's memory nor any file nor the network.
  When it does not run, the start command of the platform is run exactly once, whatever becomes of the
  reports, except on an unsupported system or when the Windows service is not installed.
\<close>

theorem watchdog_recovers:
  "case Watchdog t t' configPath cl w of (e, commands, cl', w') \<Rightarrow>
     if ServiceRunning (posture_of t configPath cl) then e = None \<and> commands = [] \<and> cl' = cl \<and> w' = w
     else commands = (if can_start (runtime_GOOS (c_system t)) (posture_of t configPath cl)
                      then [start_command (runtime_GOOS (c_system t))] else [])"
  using watchdog_cases[of t configPath cl t' w] by (auto split: prod.splits)

definition returned_with :: "service_event list \<Rightarrow> run_err option \<Rightarrow> bool" where
  "returned_with evs e = (\<exists>xs ys. evs = xs @ RunReturned e # ys \<and> (\<forall>x \<in> set xs. \<exists>c. x = Request c))"

definition stops :: "service_event \<Rightarrow> bool" where
  "stops ev = (ev = Request Stop \<or> ev = Request Shutdown)"

lemma returned_with_Request: "returned_with evs e \<Longrightarrow> returned_with (Request c # evs) e"
  unfolding returned_with_def by (metis append_Cons set_ConsD)

lemma returned_with_Return: "returned_with (RunReturned e # evs) e"
  unfolding returned_with_def by (metis append_Nil empty_iff empty_set)

lemma exit_Request:
  "\<exists>e. r = exit_of e \<and> returned_with evs e \<Longrightarrow> \<exists>e. r = exit_of e \<and> returned_with (Request c # evs) e"
  using returned_with_Request by blast

lemma await_run_exit: "await_run evs = Some r \<Longrightarrow> \<exists>e. r = exit_of e \<and> returned_with evs e"
proof (induction evs rule: await_run.induct)
  case (2 e evs)
  then show ?case using returned_with_Return by auto
next
  case (3 c evs)
  then show ?case by (intro exit_Request) simp
qed simp

lemma serve_exit: "serve evs = (sts, Some r) \<Longrightarrow> \<exists>e. r = exit_of e \<and> returned_with evs e"
proof (induction evs arbitrary: sts rule: serve.induct)
  case (2 e evs)
  then show ?case using returned_with_Return by auto
next
  case (3 c evs)
  show ?case
  proof (rule exit_Request, cases c)
    case (Interrogate n)
    with "3.prems" "3.IH"(1)[OF Interrogate] show "\<exists>e. r = exit_of e \<and> returned_with evs e"
      by (auto split: prod.splits)
  next
    case (OtherControl n)
    with "3.prems" "3.IH"(2)[OF OtherControl] show "\<exists>e. r = exit_of e \<and> returned_with evs e" by simp
  qed (use "3.prems" await_run_exit in auto)
qed simp

text \<open>The statuses after the first two: echoes, and at most one \<open>StopPending\<close>, as the last.\<close>

definition serving :: "service_event list \<Rightarrow> status list \<Rightarrow> bool" where
  "serving evs sts = (\<exists>echoes. (\<forall>s \<in> set echoes. \<exists>n. s = Echo n) \<and>
     (sts = echoes \<or> (sts = echoes @ [Reported StopPending False] \<and> list_ex stops evs)))"

lemma serving_Request:
  "serving evs sts \<Longrightarrow> serving (Request c # evs) sts" "serving evs sts \<Longrightarrow> serving (Request c # evs) (Echo n # sts)"
proof -
  assume "serving evs sts"
  then show "serving (Request c # evs) sts" unfolding serving_def by auto
next
  assume "serving evs sts"
  then obtain echoes where "\<forall>s \<in> set echoes. \<exists>n. s = Echo n"
    "sts = echoes \<or> (sts = echoes @ [Reported StopPending False] \<and> list_ex stops evs)" unfolding serving_def by blast
  then show "serving (Request c # evs) (Echo n # sts)" unfolding serving_def by (intro exI[of _ "Echo n # echoes"]) auto
qed

lemma serve_statuses: "serve evs = (sts, r) \<Longrightarrow> serving evs sts"
proof (induction evs arbitrary: sts r rule: serve.induct)
  case (3 c evs)
  show ?case
  proof (cases c)
    case (Interrogate n)
    obtain sts' r' where s: "serve evs = (sts', r')" by (metis prod.collapse)
    have "sts = Echo n # sts'" using "3.prems" s Interrogate by simp
    with serving_Request(2)[OF "3.IH"(1)[OF Interrogate s]] Interrogate show ?thesis by metis
  next
    case (OtherControl n)
    with "3.prems" have "serve evs = (sts, r)" by simp
    from serving_Request(1)[OF "3.IH"(2)[OF OtherControl this]] show ?thesis .
  qed (use "3.prems" in \<open>auto simp: serving_def stops_def intro!: exI[of _ "[]"]\<close>)
qed (auto simp: serving_def)

text \<open>
  The Windows service fails for one reason only. If the values that reach the handler are those
  \<open>Run\<close> has returned, the handler exits with code 0 exactly when the local collector could be
  opened, and with the service-specific code 1 otherwise. It announces itself as pending and running, then
  echoes what it is asked, and reports \<open>StopPending\<close> at most once, last and only after a request to stop.
\<close>

theorem service_exit:
  assumes "Execute evs = (sts, Some (specific, code))"
    and "\<forall>e. RunReturned e \<in> set evs \<longrightarrow> fst (snd (Run configPath listens rs cl w)) = Some e"
  shows "(code = 0 \<longleftrightarrow> listens) \<and> (specific \<longleftrightarrow> code = 1) \<and>
    (\<exists>rest. sts = Reported StartPending False # Reported ServiceUp True # rest \<and> serving evs rest)"
proof -
  obtain rest where s: "serve evs = (rest, Some (specific, code))"
    "sts = Reported StartPending False # Reported ServiceUp True # rest"
    using assms(1) by (auto simp: Execute_def split: prod.splits)
  obtain e where e: "(specific, code) = exit_of e" "returned_with evs e" using serve_exit[OF s(1)] by blast
  then have "RunReturned e \<in> set evs" unfolding returned_with_def by auto
  then have "fst (snd (Run configPath listens rs cl w)) = Some e" using assms(2) by blast
  then have "e = None \<longleftrightarrow> listens" by (auto simp: Run_eq split: if_splits prod.splits)
  with e(1) s(2) serve_statuses[OF s(1)] show ?thesis by (auto simp: exit_of_def split: option.splits)
qed

theorem service_exit_witness:
  "\<exists>sts. Execute [Request (Interrogate 4), RunReturned (Some ListenFailed)] = (sts, Some (True, 1)) \<and>
     serving [Request (Interrogate 4), RunReturned (Some ListenFailed)] [Echo 4]"
proof -
  let ?evs = "[Request (Interrogate 4), RunReturned (Some ListenFailed)]"
  have "Execute ?evs = ([Reported StartPending False, Reported ServiceUp True, Echo 4], Some (True, 1))"
    by (simp add: Execute_def exit_of_def)
  moreover have "\<forall>e. RunReturned e \<in> set ?evs \<longrightarrow>
      fst (snd (Run ''/c'' False [] settled_client (client_world []))) = Some e" by (simp add: Run_eq)
  ultimately show ?thesis using service_exit[of ?evs] by blast
qed

end
