(* ===== verification/Lifetime.thy ===== *)
theory Lifetime
  imports Journey Service
begin

text \<open>
  The operations of the agent against its steps in time: whatever \<open>Run\<close>, \<open>Cycle\<close> and the watchdog do is a sequence of
  the steps of \<open>agent_step\<close>. So the properties of all histories hold for the program as it is composed, and none of
  its operations ever fails with the replay alarm.
\<close>

section \<open>An operation reads the turn in its cycle\<close>

lemma truncate_simps [simp]:
  "t_crypto (turn.truncate t) = t_crypto t" "t_secrets (turn.truncate t) = t_secrets t"
  "t_host (turn.truncate t) = t_host t" "t_toml (turn.truncate t) = t_toml t" "t_clock (turn.truncate t) = t_clock t"
  "t_random (turn.truncate t) = t_random t" "t_post (turn.truncate t) = t_post t"
  "t_register (turn.truncate t) = t_register t" "t_enrolled (turn.truncate t) = t_enrolled t"
  "home_env (turn.truncate t) = home_env t" "home_fault (turn.truncate t) = home_fault t"
  "save_fault_of (turn.truncate t) = save_fault_of t" "push_fault (turn.truncate t) = push_fault t"
  "pop_fault (turn.truncate t) = pop_fault t" "reenroll_env (turn.truncate t) = reenroll_env t"
  "clear_fault (turn.truncate t) = clear_fault t" "reenroll_fault (turn.truncate t) = reenroll_fault t"
  by (simp_all add: turn.truncate_def)

lemma truncate_client:
  "enqueue (turn.truncate t) = enqueue t" "refreshCodexHome (turn.truncate t) = refreshCodexHome t"
  "reEnrollIfCurrent (turn.truncate t) = reEnrollIfCurrent t"
  unfolding fun_eq_iff enqueue_def refreshCodexHome_def reEnrollIfCurrent_def register_def truncate_simps by simp_all

lemma truncate_pass: "flush_pass (turn.truncate t) = flush_pass t"
  unfolding fun_eq_iff flush_pass_def truncate_simps truncate_client by simp

lemma truncate_flush: "Flush (turn.truncate t) = Flush t"
proof -
  have "Flush_loop (turn.truncate t) i cl w = Flush_loop t i cl w" for i cl w
  proof (induction t i cl w rule: Flush_loop.induct)
    case (1 t i cl w)
    then show ?case
      by (simp add: Flush_loop.simps[of "turn.truncate t"] Flush_loop.simps[of t] truncate_pass split: sum.splits)
  qed
  then show ?thesis by (simp add: fun_eq_iff Flush_def)
qed

section \<open>What an operation may do\<close>

definition number :: "Client \<Rightarrow> nat" where "number cl = unat (NextSequence (cfg cl))"

text \<open>The answer 409 of the receiver as the error of an operation.\<close>

definition alarm :: "report_err option \<Rightarrow> bool" where
  "alarm e = (\<exists>body. e = Some (ClientErr (Rejected 409 body)))"

lemma alarm_simps [simp]:
  "\<not> alarm None" "alarm (Some (ClientErr x)) = (\<exists>b. x = Rejected 409 b)" "\<not> alarm (Some TimezoneErr)"
  "\<not> alarm (Some CCUsageFailed)" "\<not> alarm (Some CCUsageParse)" "\<not> alarm (Some (ScanErr s))"
  "\<not> alarm (map_option ClientErr (map_option QueueFailed x1))" "\<not> alarm (map_option ClientErr (map_option HomeSave x2))"
  by (auto simp: alarm_def)

text \<open>The turns of a round of the loop, and what it has attempted without the alarm.\<close>

definition round_turns :: "'w round \<Rightarrow> 'w turn list" where
  "round_turns r = map turn.truncate [r_otel r, r_usage r, r_integrity r, r_heartbeat r]"

definition quiet :: "run_event list \<Rightarrow> bool" where
  "quiet evs = (\<forall>k now e. Attempted k now e \<in> set evs \<longrightarrow> \<not> alarm e)"

lemma quiet_simps [simp]:
  "quiet []" "quiet (Attempted k now e # evs) = (\<not> alarm e \<and> quiet evs)" "quiet (Slept d # evs) = quiet evs"
  "quiet (Waited d # evs) = quiet evs" "quiet (xs @ ys) = (quiet xs \<and> quiet ys)"
  by (auto simp: quiet_def)

lemma collected_fields [simp]:
  "config_file (fold (collect_one cl) ks w) = config_file w" "queue_file (fold (collect_one cl) ks w) = queue_file w"
  "net (fold (collect_one cl) ks w) = net w"
  by (induction ks arbitrary: w) (simp_all add: collect_one_def)

context report_receiver
begin

abbreviation steps :: "'w agent \<Rightarrow> 'w agent \<Rightarrow> bool" where
  "steps \<equiv> (agent_step (obeys answers enrolls issued) resets)\<^sup>*\<^sup>*"

abbreviation fair :: "('w, 'x) turn_scheme \<Rightarrow> bool" where
  "fair t \<equiv> obeys answers enrolls issued (turn.truncate t)"

text \<open>
  An operation that takes at most \<open>k\<close> numbers: from a consistent state with so many left, it is a sequence of steps
  and does not fail with the alarm.
\<close>

definition does :: "nat \<Rightarrow> Client \<Rightarrow> 'w world \<Rightarrow> report_err option \<times> Client \<times> 'w world \<Rightarrow> bool" where
  "does k cl w r = (case r of (e, cl', w') \<Rightarrow>
     consistent last_seq handled (Some cl, w) \<and> max 1 (number cl) + k < 2 ^ 64 \<longrightarrow>
       steps (Some cl, w) (Some cl', w') \<and> number cl' \<le> max 1 (number cl) + k \<and> \<not> alarm e)"

lemma steps_consistent: "steps s s' \<Longrightarrow> consistent last_seq handled s \<Longrightarrow> consistent last_seq handled s'"
  by (induction rule: rtranclp_induct) (auto intro: agent_step_consistent)

lemma does_trans:
  assumes "does j cl w (e1, cl1, w1)" and "does k cl1 w1 (e, cl', w')"
  shows "does (j + k) cl w (e, cl', w')"
  unfolding does_def
proof (clarify)
  assume c: "consistent last_seq handled (Some cl, w)" "max 1 (number cl) + (j + k) < 2 ^ 64"
  with assms(1) have 1: "steps (Some cl, w) (Some cl1, w1)" "number cl1 \<le> max 1 (number cl) + j" by (simp_all add: does_def)
  from steps_consistent[OF 1(1) c(1)] assms(2) 1(2) c(2)
  have "steps (Some cl1, w1) (Some cl', w')" "number cl' \<le> max 1 (number cl1) + k" "\<not> alarm e" by (simp_all add: does_def)
  with 1 show "steps (Some cl, w) (Some cl', w') \<and> number cl' \<le> max 1 (number cl) + (j + k) \<and> \<not> alarm e"
    by (auto intro: rtranclp_trans)
qed

lemma does_mono: "does j cl w r \<Longrightarrow> j \<le> k \<Longrightarrow> does k cl w r"
  by (auto simp: does_def split: prod.splits)

lemma does_own:
  assumes "cfg cl' = cfg cl" "cl_Queue cl' = cl_Queue cl" "config_file w' = config_file w" "queue_file w' = queue_file w"
    "net w' = net w" "\<not> alarm e"
  shows "does k cl w (e, cl', w')"
  using agent_step.own_work[OF assms(1-5)] assms by (auto simp: does_def number_def)

lemma does_nothing: "\<not> alarm e \<Longrightarrow> does k cl w (e, cl, w)"
  by (rule does_own) simp_all

lemma does_refresh:
  assumes "fair t" and "refreshCodexHome t cl w = (e, cl', w')"
  shows "does 0 cl w (map_option ClientErr e, cl', w')"
proof -
  have "agent_step (obeys answers enrolls issued) resets (Some cl, w) (Some cl', w')"
    using agent_step.refresh_home[where ok = "obeys answers enrolls issued", OF assms(1), of cl w] assms(2) by (simp add: truncate_client)
  moreover have "\<not> alarm (map_option ClientErr e)"
    using assms(2) by (auto simp: refreshCodexHome_def Let_def split: if_splits prod.splits)
  moreover have "number cl' \<le> max 1 (number cl)"
    using assms(2)
  proof (cases rule: refresh_cases)
    case (moved c2 er c3 s')
    then show ?thesis using config_Save_fields(4)[OF moved(3)] by (simp add: number_def)
  qed (simp add: number_def)
  ultimately show ?thesis by (auto simp: does_def)
qed

lemma does_enqueue:
  assumes "fair t" and "enqueue t endpoint payload cl w = (e, cl', w')"
  shows "does 1 cl w (map_option ClientErr e, cl', w')"
  unfolding does_def
proof (clarify)
  assume c: "max 1 (number cl) + 1 < 2 ^ 64"
  have n: "NextSequence (cfg cl) + 1 \<noteq> 0"
    using c unat_add_lem[of "NextSequence (cfg cl)" 1] by (auto simp: number_def)
  have "agent_step (obeys answers enrolls issued) resets (Some cl, w) (Some cl', w')"
    using agent_step.queue_report[where ok = "obeys answers enrolls issued", OF assms(1) n, of endpoint payload w] assms(2) by (simp add: truncate_client)
  moreover have "\<not> alarm (map_option ClientErr e)"
    using assms(2) by (auto simp: enqueue_def split: option.splits sum.splits prod.splits)
  moreover have "number cl' \<le> max 1 (number cl) + 1"
    using assms(2)
    by (cases rule: enqueue_cases) (use n in \<open>auto simp: number_def next_config_def next_unat dest: config_Save_fields(4)\<close>)
  ultimately show "steps (Some cl, w) (Some cl', w') \<and> number cl' \<le> max 1 (number cl) + 1 \<and> \<not> alarm (map_option ClientErr e)"
    by blast
qed

lemma flush_run_number: "flush_run t cl w sent e cl' w' \<Longrightarrow> number cl' \<le> max 1 (number cl)"
proof (induction rule: flush_run.induct)
  case (stale w item a n d e cl' w')
  from stale(5) show ?case
  proof (cases rule: reEnroll_cases)
    case (renewed enrolled fp c')
    then show ?thesis using config_Save_fields(4)[OF renewed(5)] by (simp add: number_def)
  qed simp_all
qed simp_all

lemma does_flush:
  assumes "fair t" and "Flush t cl w = (e, cl', w')"
  shows "does 0 cl w (map_option ClientErr e, cl', w')"
  unfolding does_def
proof (clarify)
  assume c: "consistent last_seq handled (Some cl, w)"
  have f: "Flush (turn.truncate t) cl w = (e, cl', w')" using assms(2) by (simp add: truncate_flush)
  from Flush_run[OF f] obtain sent where run: "flush_run (turn.truncate t) cl w sent e cl' w'" by blast
  have "\<not> alarm (map_option ClientErr e)"
  proof
    assume "alarm (map_option ClientErr e)"
    then obtain b where "e = Some (Rejected 409 b)" by (auto simp: alarm_def)
    with rejected_answer[OF run] flush_run_consistent[OF run assms(1) c] show False by fastforce
  qed
  with agent_step.deliver_queue[where ok = "obeys answers enrolls issued", OF assms(1) f] flush_run_number[OF run]
  show "steps (Some cl, w) (Some cl', w') \<and> number cl' \<le> max 1 (number cl) + 0 \<and> \<not> alarm (map_option ClientErr e)"
    by auto
qed

section \<open>The reporting operations\<close>

lemma does_send:
  assumes "fair t"
  shows "does 1 cl w (send t endpoint payload cl w)"
proof -
  obtain e cl1 w1 where q: "enqueue t endpoint payload cl w = (e, cl1, w1)" by (metis prod.collapse)
  note 1 = does_enqueue[OF assms q]
  show ?thesis
  proof (cases e)
    case None
    obtain fe cl2 w2 where f: "Flush t cl1 w1 = (fe, cl2, w2)" by (metis prod.collapse)
    from does_trans[OF 1 does_flush[OF assms f]] q None f show ?thesis by (simp add: send_def report_def)
  next
    case (Some x)
    with 1 q show ?thesis by (simp add: send_def report_def)
  qed
qed

lemma does_send_after:
  assumes "fair t" and "cfg cl1 = cfg cl" "cl_Queue cl1 = cl_Queue cl" "config_file w1 = config_file w"
    "queue_file w1 = queue_file w" "net w1 = net w"
  shows "does 1 cl w (send t endpoint payload cl1 w1)"
proof -
  obtain e cl2 w2 where s: "send t endpoint payload cl1 w1 = (e, cl2, w2)" by (metis prod.collapse)
  have "does 0 cl w (None, cl1, w1)" by (rule does_own) (use assms in simp_all)
  from does_trans[OF this] does_send[OF assms(1), of cl1 w1 endpoint payload] s show ?thesis by simp
qed

lemma does_after_refresh:
  assumes "fair t" and "\<And>cl w. does 1 cl w (body cl w)"
  shows "does 1 cl w (after_refresh t body cl w)"
proof -
  obtain e cl1 w1 where r: "refreshCodexHome t cl w = (e, cl1, w1)" by (metis prod.collapse)
  note 0 = does_refresh[OF assms(1) r]
  show ?thesis
  proof (cases e)
    case None
    obtain fe cl2 w2 where "body cl1 w1 = (fe, cl2, w2)" by (metis prod.collapse)
    with does_trans[OF 0, of 1] assms(2)[of cl1 w1] r None show ?thesis by (simp add: after_refresh_def)
  next
    case (Some x)
    with does_mono[OF 0, of 1] r show ?thesis by (simp add: after_refresh_def)
  qed
qed

lemma does_operations:
  assumes "fair t"
  shows "does 1 cl w (OTelUsage t cl w)" and "does 1 cl w (Usage t cl w)"
    and "does 1 cl w (Integrity t configPath cl w)" and "does 1 cl w (Heartbeat t cl w)"
    and "does 1 cl w (SecurityEvent t kind details cl w)"
proof -
  note s = does_send_after[OF assms]
  show "does 1 cl w (OTelUsage t cl w)"
    by (auto simp: OTelUsage_def simp del: One_nat_def intro: s does_nothing split: option.splits)
  show "does 1 cl w (Usage t cl w)" unfolding Usage_def
    by (rule does_after_refresh[OF assms])
      (auto simp: CollectUsage_def Let_def simp del: One_nat_def intro: s does_nothing split: sum.splits option.splits)
  show "does 1 cl w (Integrity t configPath cl w)" unfolding Integrity_def
    by (rule does_after_refresh[OF assms]) (auto simp del: One_nat_def intro: s does_own split: prod.splits sum.splits)
  show "does 1 cl w (Heartbeat t cl w)" unfolding Heartbeat_def Let_def
    by (rule does_after_refresh[OF assms]) (auto simp del: One_nat_def intro!: s dest: cachedQuota_cfg split: prod.splits)
  show "does 1 cl w (SecurityEvent t kind details cl w)" by (simp add: SecurityEvent_def s del: One_nat_def)
qed

section \<open>The loop, the single cycle and the watchdog\<close>

lemma does_then:
  assumes "does j cl w (e1, cl1, w1)" and "\<And>cl w. does 1 cl w (f cl w)" and "f cl1 w1 = (e, cl', w')" and "k = j + 1"
  shows "does k cl w (e, cl', w')"
  using does_trans[OF assms(1), of 1 e cl' w'] assms(2)[of cl1 w1] assms(3,4) by simp

lemma does_skipped: "does j cl w (e1, cl1, w1) \<Longrightarrow> j \<le> k \<Longrightarrow> does k cl w (None, cl1, w1)"
  by (auto simp: does_def)

lemma does_round:
  assumes "run_round configPath r st cl w = (evs, st', cl', w')"
    and "\<forall>t \<in> set (round_turns r). obeys answers enrolls issued t"
  shows "does 4 cl w (None, cl', w')"
    and "consistent last_seq handled (Some cl, w) \<Longrightarrow> max 1 (number cl) + 4 < 2 ^ 64 \<Longrightarrow> quiet evs"
proof -
  have f: "fair (r_otel r)" "fair (r_usage r)" "fair (r_integrity r)" "fair (r_heartbeat r)"
    using assms(2) by (simp_all add: round_turns_def)
  note ops = does_operations[OF f(1)] does_operations[OF f(2)] does_operations[OF f(3)] does_operations[OF f(4)]
  have "does 4 cl w (None, cl', w') \<and>
      (consistent last_seq handled (Some cl, w) \<longrightarrow> max 1 (number cl) + 4 < 2 ^ 64 \<longrightarrow> quiet evs)"
    using assms(1)
  proof (cases rule: round_shape)
    case (1 e1 cl1 w1 u e2 cl2 w2 i e3 cl3 w3 e4)
    have "does 0 cl w (None, cl, fold (collect_one cl) (r_calls r) w)" by (rule does_own) simp_all
    from does_then[OF this does_operations(1)[OF f(1)] 1(1)] have d1: "does 1 cl w (e1, cl1, w1)" by simp
    have d2: "does 2 cl w (if u then e2 else None, cl2, w2)"
      using does_then[OF d1 does_operations(2)[OF f(2)], of e2 cl2 w2] does_skipped[OF d1, of 2] 1(3,4) by (cases u) (simp_all add: numeral_2_eq_2)
    have d3: "does 3 cl w (if i then e3 else None, cl3, w3)"
      using does_then[OF d2 does_operations(3)[OF f(3), where configPath = configPath], of e3 cl3 w3] does_skipped[OF d2, of 3] 1(6,7)
      by (cases i) simp_all
    from does_then[OF d3 does_operations(4)[OF f(4)] 1(8)] have d4: "does 4 cl w (e4, cl', w')" by simp
    have "does 4 cl w (None, cl', w')" using d4 by (simp add: does_def)
    moreover have "quiet evs" if "consistent last_seq handled (Some cl, w)" "max 1 (number cl) + 4 < 2 ^ 64"
    proof -
      from that d1 d2 d3 d4 have "\<not> alarm e1" "u \<longrightarrow> \<not> alarm e2" "i \<longrightarrow> \<not> alarm e3" "\<not> alarm e4"
        unfolding does_def by (simp_all split: if_splits)
      with 1(9) show ?thesis by simp
    qed
    ultimately show ?thesis by blast
  qed
  then show "does 4 cl w (None, cl', w')"
    "consistent last_seq handled (Some cl, w) \<Longrightarrow> max 1 (number cl) + 4 < 2 ^ 64 \<Longrightarrow> quiet evs" by blast+
qed

lemma does_rounds:
  "run_rounds configPath rs st cl w = (evs, b, cl', w') \<Longrightarrow>
   \<forall>r \<in> set rs. \<forall>t \<in> set (round_turns r). obeys answers enrolls issued t \<Longrightarrow>
   does (4 * length rs) cl w (None, cl', w') \<and>
   (consistent last_seq handled (Some cl, w) \<and> max 1 (number cl) + 4 * length rs < 2 ^ 64 \<longrightarrow> quiet evs)"
proof (induction rs arbitrary: st cl w evs b cl' w')
  case Nil
  then show ?case by (simp add: does_nothing)
next
  case (Cons r rs)
  obtain evs1 st1 cl1 w1 where r: "run_round configPath r st cl w = (evs1, st1, cl1, w1)" by (metis prod.collapse)
  have "\<forall>t \<in> set (round_turns r). obeys answers enrolls issued t" using Cons.prems(2) by simp
  note d = does_round[OF r this]
  show ?case
  proof (cases "r_cancelled r")
    case True
    with Cons.prems(1) r d does_mono[OF d(1), of "4 * length (r # rs)"] show ?thesis by auto
  next
    case False
    obtain evs2 b2 cl2 w2 where rest: "run_rounds configPath rs st1 cl1 w1 = (evs2, b2, cl2, w2)" by (metis prod.collapse)
    from Cons.IH[OF rest] Cons.prems(2) have d2: "does (4 * length rs) cl1 w1 (None, cl2, w2)"
      "consistent last_seq handled (Some cl1, w1) \<and> max 1 (number cl1) + 4 * length rs < 2 ^ 64 \<longrightarrow> quiet evs2" by simp_all
    from Cons.prems(1) r rest False have run: "evs = evs1 @ Waited (wrap64 (HeartbeatSeconds (cfg cl1) * second)) # evs2"
      "cl' = cl2" "w' = w2" by simp_all
    have "quiet evs" if c: "consistent last_seq handled (Some cl, w)" "max 1 (number cl) + 4 * length (r # rs) < 2 ^ 64"
    proof -
      from c d(1) have "steps (Some cl, w) (Some cl1, w1)" "number cl1 \<le> max 1 (number cl) + 4" by (simp_all add: does_def)
      with c d(2) d2(2) steps_consistent show ?thesis by (simp add: run(1))
    qed
    with does_trans[OF d(1) d2(1)] run(2,3) show ?thesis by simp
  qed
qed

lemma does_cycle:
  assumes "fair t1" "fair t2" "fair t3" "fair t4" and "Cycle configPath t1 t2 t3 t4 cl w = (e, cl', w')"
  shows "does 4 cl w (e, cl', w')"
proof -
  obtain e1 cl1 w1 where 1: "Usage t1 cl w = (e1, cl1, w1)" by (metis prod.collapse)
  obtain e2 cl2 w2 where 2: "OTelUsage t2 cl1 w1 = (e2, cl2, w2)" by (metis prod.collapse)
  obtain e3 cl3 w3 where 3: "Integrity t3 configPath cl2 w2 = (e3, cl3, w3)" by (metis prod.collapse)
  obtain e4 cl4 w4 where 4: "Heartbeat t4 cl3 w3 = (e4, cl4, w4)" by (metis prod.collapse)
  have d1: "does 1 cl w (e1, cl1, w1)" using does_operations(2)[OF assms(1), of cl w] 1 by simp
  from does_then[OF d1 does_operations(1)[OF assms(2)] 2] have d2: "does 2 cl w (e2, cl2, w2)" by (simp add: numeral_2_eq_2)
  from does_then[OF d2 does_operations(3)[OF assms(3)] 3] have d3: "does 3 cl w (e3, cl3, w3)" by simp
  from does_then[OF d3 does_operations(4)[OF assms(4)] 4] have d4: "does 4 cl w (e4, cl4, w4)" by simp
  from assms(5) 1 2 3 4 have r: "e \<in> {None, e1, e2, e3, e4}" "cl' = cl4" "w' = w4"
    by (auto simp: Cycle_def keep_first_def split: option.splits)
  show ?thesis unfolding does_def prod.case
  proof (rule impI)
    assume c: "consistent last_seq handled (Some cl, w) \<and> max 1 (number cl) + 4 < 2 ^ 64"
    with d1 d2 d3 have "\<not> alarm e1" "\<not> alarm e2" "\<not> alarm e3" unfolding does_def by simp_all
    moreover from c d4 have "steps (Some cl, w) (Some cl4, w4) \<and> number cl4 \<le> max 1 (number cl) + 4" "\<not> alarm e4"
      unfolding does_def by simp_all
    ultimately show "steps (Some cl, w) (Some cl', w') \<and> number cl' \<le> max 1 (number cl) + 4 \<and> \<not> alarm e"
      using r by auto
  qed
qed

lemma does_watchdog:
  assumes "fair t" "fair t'" and "Watchdog t t' configPath cl w = (e, commands, cl', w')"
  shows "does 2 cl w (None, cl', w')"
proof -
  define p where "p = inspectMonitorPosture (t_crypto t) (c_system t) configPath (cfg cl)"
  obtain e1 cl1 w1 where 1: "SecurityEvent t ''SERVICE_STOPPED_OR_MODIFIED'' (stopped_details p) cl w = (e1, cl1, w1)"
    by (rule prod_cases3)
  obtain e2 cl2 w2 where 2: "SecurityEvent t' ''SERVICE_RESTART_FAILED'' (restart_details p) cl1 w1 = (e2, cl2, w2)"
    by (rule prod_cases3)
  have d1: "does 1 cl w (e1, cl1, w1)"
    using does_operations(5)[OF assms(1), of cl w "''SERVICE_STOPPED_OR_MODIFIED''" "stopped_details p"] 1 by simp
  have "does 1 cl1 w1 (e2, cl2, w2)"
    using does_operations(5)[OF assms(2), of cl1 w1 "''SERVICE_RESTART_FAILED''" "restart_details p"] 2 by simp
  from does_trans[OF d1 this] have d2: "does 2 cl w (e2, cl2, w2)" by (simp add: numeral_2_eq_2)
  have "(cl', w') = (cl, w) \<or> (cl', w') = (cl1, w1) \<or> (cl', w') = (cl2, w2)"
  proof (cases "runtime_GOOS (c_system t) = ''windows''")
    case True
    with assms(3) 1 2 show ?thesis
      by (simp add: Watchdog_def Watchdog_windows_def p_def inspectMonitorPosture_def Let_def split: if_splits)
  next
    case False
    with assms(3) 1 2 show ?thesis
      by (simp add: Watchdog_def Watchdog_other_def p_def inspectMonitorPosture_def Let_def split: if_splits)
  qed
  then show ?thesis
  proof (elim disjE)
    assume "(cl', w') = (cl, w)" then show ?thesis by (simp add: does_nothing)
  next
    assume "(cl', w') = (cl1, w1)" then show ?thesis using does_skipped[OF d1, of 2] by simp
  next
    assume "(cl', w') = (cl2, w2)" then show ?thesis using does_skipped[OF d2, of 2] by simp
  qed
qed

end

section \<open>The property\<close>

lemma consistent_from_installed:
  "(server_step V issued)\<^sup>*\<^sup>* s s' \<Longrightarrow> installed last_seq_of s \<Longrightarrow> consistent last_seq_of handled_of s'"
  by (rule class_server.reachable_consistent)

text \<open>The commands \<open>once\<close> and \<open>watchdog\<close>, each as the only process of its configuration.\<close>

lemma once_history:
  assumes "(server_step V issued)\<^sup>*\<^sup>* s (Some cl, w)" and "installed last_seq_of s"
    and "Cycle configPath t1 t2 t3 t4 cl w = (e, cl', w')"
    and "\<forall>t \<in> {t1, t2, t3, t4}. obeys (delivery V) (registration issued) issued (turn.truncate t)"
    and "unat (NextSequence (cfg cl)) + 5 < 2 ^ 64"
  shows "(server_step V issued)\<^sup>*\<^sup>* s (Some cl', w') \<and> \<not> alarm e"
proof -
  have "class_server.does V issued 4 cl w (e, cl', w')" by (rule class_server.does_cycle[OF _ _ _ _ assms(3)]) (use assms(4) in simp_all)
  with consistent_from_installed[OF assms(1,2)] assms(5) have "(server_step V issued)\<^sup>*\<^sup>* (Some cl, w) (Some cl', w')" "\<not> alarm e"
    by (simp_all add: class_server.does_def number_def)
  with assms(1) show ?thesis by (meson rtranclp_trans)
qed

lemma watchdog_history:
  assumes "(server_step V issued)\<^sup>*\<^sup>* s (Some cl, w)" and "installed last_seq_of s"
    and "Watchdog t t' configPath cl w = (e, commands, cl', w')"
    and "obeys (delivery V) (registration issued) issued (turn.truncate t)"
    and "obeys (delivery V) (registration issued) issued (turn.truncate t')"
    and "unat (NextSequence (cfg cl)) + 3 < 2 ^ 64"
  shows "(server_step V issued)\<^sup>*\<^sup>* s (Some cl', w')"
proof -
  have "class_server.does V issued 2 cl w (None, cl', w')" by (rule class_server.does_watchdog[OF assms(4,5,3)])
  with consistent_from_installed[OF assms(1,2)] assms(6) have "(server_step V issued)\<^sup>*\<^sup>* (Some cl, w) (Some cl', w')"
    by (simp add: class_server.does_def number_def)
  with assms(1) show ?thesis by (meson rtranclp_trans)
qed

text \<open>
  C2: the running agent is one of the histories. After any history of the agent, whatever rounds \<open>Run\<close> goes
  through, with any requests to the collector, changes of the home, failures and lost messages in them, ends in a
  state of a history of the same agent, so what holds of all histories holds after it, and no task that it has
  attempted has failed with the replay alarm. The sequence number must not be within four numbers per round of
  the end of its 64 bits.
\<close>

theorem run_refines_agent:
  assumes "(server_step V issued)\<^sup>*\<^sup>* s (Some cl, w)" and "installed last_seq_of s"
    and "Run configPath listens rs cl w = (evs, r, cl', w')"
    and "\<forall>r \<in> set rs. \<forall>t \<in> set (round_turns r). obeys (delivery V) (registration issued) issued t"
    and "unat (NextSequence (cfg cl)) + 4 * length rs + 1 < 2 ^ 64"
  shows "(server_step V issued)\<^sup>*\<^sup>* s (Some cl', w') \<and>
    (\<forall>k now body. Attempted k now (Some (ClientErr (Rejected 409 body))) \<notin> set evs)"
proof (cases listens)
  case False
  then have "cl' = cl" "w' = w" "evs = []" using assms(3) by (simp_all add: Run_eq)
  with assms(1) show ?thesis by simp
next
  case True
  obtain evs2 b cl2 w2 where run: "run_rounds configPath rs run_start cl w = (evs2, b, cl2, w2)" by (metis prod.collapse)
  with True assms(3) have r: "evs = evs2" "cl' = cl2" "w' = w2" by (simp_all add: Run_eq)
  have c: "consistent last_seq_of handled_of (Some cl, w)" "max 1 (number cl) + 4 * length rs < 2 ^ 64"
    using consistent_from_installed[OF assms(1,2)] assms(5) by (simp_all add: number_def)
  from class_server.does_rounds[OF run assms(4)] c have "(server_step V issued)\<^sup>*\<^sup>* (Some cl, w) (Some cl2, w2)" "quiet evs2"
    unfolding class_server.does_def by simp_all
  moreover from this(2) have "\<forall>k now body. Attempted k now (Some (ClientErr (Rejected 409 body))) \<notin> set evs2"
    by (auto simp: quiet_def alarm_def)
  ultimately show ?thesis using assms(1) rtranclp_trans unfolding r by metis
qed

text \<open>A round of the sample agent.\<close>

definition server_cycle :: "server cycle" where
  "server_cycle =
     turn.extend server_turn
       (cycle.fields (\<lambda>_. None) (\<lambda>_ _. None) ''amd64''
         \<lparr>runtime_GOOS = ''linux'', ReadFile = (\<lambda>_. (False, [])), StatMode = (\<lambda>_. None), CommandRun = (\<lambda>_. False),
          CombinedOutput = (\<lambda>_. [])\<rparr>
         (\<lambda>_ xs. xs) sample_reader in_order sample_entropy None (\<lambda>xs. xs) (\<lambda>_. Some (\<lambda>_. 0)) (\<lambda>_. None))"

definition server_round :: "server round" where
  "server_round =
     \<lparr>r_now = Time 1, r_calls = [], r_otel = server_cycle, r_usage = server_cycle, r_integrity = server_cycle,
      r_heartbeat = server_cycle, r_cancelled = True\<rparr>"

lemma server_round_turns: "set (round_turns server_round) = {server_turn}"
  by (simp add: round_turns_def server_round_def server_cycle_def turn.defs)

theorem run_refines_agent_witness:
  "\<exists>cl evs r cl' w'. (server_step open_checks (\<lambda>_. None))\<^sup>*\<^sup>* (None, server_world) (Some cl, server_world) \<and>
     Run ''/c'' True [server_round] cl server_world = (evs, r, cl', w') \<and> r = Some None \<and>
     (server_step open_checks (\<lambda>_. None))\<^sup>*\<^sup>* (None, server_world) (Some cl', w')"
proof -
  obtain cl where c: "New secrets_other zero_time (config_file server_world) = Inr cl" "NextSequence (cfg cl) = 1"
    using server_start by blast
  obtain evs r cl' w' where run: "Run ''/c'' True [server_round] cl server_world = (evs, r, cl', w')" by (metis prod.collapse)
  then have "r = Some None" by (auto simp: Run_eq server_round_def split: prod.splits)
  have s: "(server_step open_checks (\<lambda>_. None))\<^sup>*\<^sup>* (None, server_world) (Some cl, server_world)"
    using agent_step.restart[OF c(1)] by blast
  from run_refines_agent[OF s server_installed run] server_obeys server_round_turns c(2) \<open>r = Some None\<close> run s
  show ?thesis by auto
qed

end
