(* ===== verification/Cli.thy ===== *)
theory Cli
  imports Service
begin

text \<open>
  \<open>cmd/codex-guard/main.go\<close>: the commands. \<open>'w cli\<close> is what the environment answers to one invocation;
  the function from paths to worlds holds the installation that belongs to each configuration path. A
  command returns its standard output, its error and the installations afterwards.
\<close>

section \<open>Command line flags\<close>

datatype flag_err = HelpRequested | BadFlagSyntax string | UndefinedFlag string | MissingValue string

text \<open>\<open>FlagSet.Parse\<close> with string flags: parsing ends at the first argument that is not a flag, and at \<open>--\<close>.\<close>

fun parse_flags :: "string list \<Rightarrow> (string \<rightharpoonup> string) \<Rightarrow> string list \<Rightarrow> flag_err + (string \<rightharpoonup> string)" where
  "parse_flags names m [] = Inr m"
| "parse_flags names m (s # args) =
     (if length s < 2 \<or> hd s \<noteq> CHR ''-'' \<or> s = ''--'' then Inr m
      else
        let full = (if s ! 1 = CHR ''-'' then drop 2 s else drop 1 s);
            name = takeWhile (\<lambda>c. c \<noteq> CHR ''='') full; rest = dropWhile (\<lambda>c. c \<noteq> CHR ''='') full
        in if full = [] \<or> hd full = CHR ''-'' \<or> hd full = CHR ''='' then Inl (BadFlagSyntax s)
           else if name \<notin> set names then Inl (if name = ''help'' \<or> name = ''h'' then HelpRequested else UndefinedFlag name)
           else if rest \<noteq> [] then parse_flags names (m(name \<mapsto> tl rest)) args
           else (case args of [] \<Rightarrow> Inl (MissingValue name) | v # args' \<Rightarrow> parse_flags names (m(name \<mapsto> v)) args'))"

definition flag_value :: "(string \<rightharpoonup> string) \<Rightarrow> string \<Rightarrow> string \<Rightarrow> string" where
  "flag_value m name fallback = (case m name of None \<Rightarrow> fallback | Some v \<Rightarrow> v)"

section \<open>The environment of a command\<close>

record 'w cli =
  cli_cycle :: "'w cycle"
  cli_second :: "'w cycle"
  cli_started :: go_time
  cli_keys :: "(bytes \<times> bytes) option"
  cli_is_service :: "bool option"
  cli_dispatch :: bool
  cli_listens :: bool
  cli_rounds :: "'w round list"
  cli_get :: "string \<Rightarrow> nat option"

datatype cli_err =
    FlagErr flag_err | RequiredMissing | LoadFailed config_err | EnrollFailed enroll_err
  | ReportFailed report_err | ServiceFailed | RunFailed run_err | WatchdogFailed watchdog_err
  | TelemetryFailed telemetry_err | SaveFailed config_err

text \<open>\<open>Running\<close> is a command that has not returned on the given rounds.\<close>

datatype result = Running | Finished "cli_err option"

type_synonym 'w command = "string list \<Rightarrow> (string \<Rightarrow> 'w world) \<Rightarrow> string \<times> result \<times> (string \<Rightarrow> 'w world)"

definition cli_host :: "'w cli \<Rightarrow> host" where "cli_host E = t_host (cli_cycle E)"
definition cli_secrets :: "'w cli \<Rightarrow> secrets" where "cli_secrets E = t_secrets (cli_cycle E)"

definition defaultConfigPath :: "host \<Rightarrow> string" where
  "defaultConfigPath h =
     (if GOOS h = ''windows'' then
        (let base = (if Getenv h ''ProgramData'' = [] then ''C:'' @ [CHR 0x5C] @ ''ProgramData'' else Getenv h ''ProgramData'')
         in Join (paths h) [base, ''CodexGuard'', ''config.json''])
      else ''/etc/codex-guard/config.json'')"

section \<open>Commands\<close>

definition enroll_flags :: "string list" where
  "enroll_flags = [''server'', ''name'', ''device-label'', ''codex-home'', ''ccusage'', ''codex'', ''agent'', ''state-dir'', ''config'']"

definition enroll :: "'w cli \<Rightarrow> 'w command" where
  "enroll E args W =
     (case parse_flags enroll_flags Map.empty args of
        Inl e \<Rightarrow> ([], Finished (Some (FlagErr e)), W)
      | Inr m \<Rightarrow>
          let server = flag_value m ''server'' []; name = flag_value m ''name'' []; label = flag_value m ''device-label'' [];
              home = flag_value m ''codex-home'' []; path = flag_value m ''config'' (defaultConfigPath (cli_host E))
          in if server = [] \<or> TrimSpace name = [] \<or> TrimSpace label = [] \<or> home = []
             then ([], Finished (Some RequiredMissing), W)
             else
               (case Enroll (cli_cycle E) (cli_keys E)
                       (zero_config\<lparr>ServerURL := server, StudentName := name, DeviceLabel := label, CodexHome := home,
                          CodexPath := flag_value m ''codex'' ''codex'',
                          CCUsagePath := flag_value m ''ccusage'' ''/usr/local/lib/codex-guard/ccusage'',
                          AgentPath := flag_value m ''agent'' ''/usr/local/bin/codex-guard'',
                          StateDir := flag_value m ''state-dir'' ''/var/lib/codex-guard''\<rparr>)
                       (config_file (W path), net (W path)) of
                  (r, s, n) \<Rightarrow>
                    ([], Finished (case r of Inl e \<Rightarrow> Some (EnrollFailed e) | Inr _ \<Rightarrow> None),
                     W(path := (W path)\<lparr>config_file := s, net := n\<rparr>))))"

definition load :: "'w cli \<Rightarrow> string list \<Rightarrow> (string \<Rightarrow> 'w world) \<Rightarrow> cli_err + string \<times> Client" where
  "load E args W =
     (case parse_flags [''config''] Map.empty args of
        Inl e \<Rightarrow> Inl (FlagErr e)
      | Inr m \<Rightarrow>
          let path = flag_value m ''config'' (defaultConfigPath (cli_host E))
          in (case New (cli_secrets E) (cli_started E) (config_file (W path)) of
                Inl e \<Rightarrow> Inl (LoadFailed e)
              | Inr cl \<Rightarrow> Inr (path, cl)))"

text \<open>The commands that load the client, do something with it and write nothing to standard output.\<close>

definition with_client ::
  "'w cli \<Rightarrow> (string \<Rightarrow> Client \<Rightarrow> 'w world \<Rightarrow> result \<times> 'w world) \<Rightarrow> 'w command" where
  "with_client E body args W =
     (case load E args W of
        Inl e \<Rightarrow> ([], Finished (Some e), W)
      | Inr (path, cl) \<Rightarrow> (case body path cl (W path) of (r, w) \<Rightarrow> ([], r, W(path := w))))"

definition once :: "'w cli \<Rightarrow> 'w command" where
  "once E = with_client E (\<lambda>path cl w.
     case Heartbeat (cli_cycle E) cl w of (e, _, w') \<Rightarrow> (Finished (map_option ReportFailed e), w'))"

text \<open>
  A service that was dispatched has run the loop; a dispatcher that fails has not called the handler.
  What the loop prints is in its events and not in the output here.
\<close>

definition run :: "'w cli \<Rightarrow> 'w command" where
  "run E = with_client E (\<lambda>path cl w.
     case RunAsPlatformService (GOOS (cli_host E)) (cli_is_service E) (cli_dispatch E) of
       (_, False) \<Rightarrow> (Finished (Some ServiceFailed), w)
     | (handled, True) \<Rightarrow>
         (case Run path (cli_listens E) (cli_rounds E) cl w of
            (_, None, _, w') \<Rightarrow> (Running, w')
          | (_, Some e, _, w') \<Rightarrow> (Finished (if handled then None else map_option RunFailed e), w')))"

definition watchdog :: "'w cli \<Rightarrow> 'w command" where
  "watchdog E = with_client E (\<lambda>path cl w.
     case Watchdog (cli_cycle E) (cli_second E) path cl w of
       (e, _, _, w') \<Rightarrow> (Finished (map_option WatchdogFailed e), w'))"

definition uninstallNotice :: "'w cli \<Rightarrow> 'w command" where
  "uninstallNotice E = with_client E (\<lambda>path cl w.
     case SecurityEvent (cli_cycle E) ''AGENT_UNINSTALL_REQUESTED'' (JObj [(''requested'', JBool True)]) cl w of
       (e, _, w') \<Rightarrow> (Finished (map_option ReportFailed e), w'))"

definition telemetryStatus :: "bool \<Rightarrow> telemetry_err option \<Rightarrow> string" where
  "telemetryStatus valid err = (if err = None \<and> valid then ''enabled'' else ''changed/not configured'')"

definition localAgentStatus :: "'w cli \<Rightarrow> string" where
  "localAgentStatus E = (case cli_get E ''http://127.0.0.1:9464/v1/logs'' of None \<Rightarrow> ''not running'' | Some _ \<Rightarrow> ''running'')"

definition serverStatus :: "'w cli \<Rightarrow> string \<Rightarrow> string" where
  "serverStatus E server =
     (case cli_get E (TrimRight server (CHR ''/'') @ ''/healthz'') of
        None \<Rightarrow> ''unreachable''
      | Some code \<Rightarrow> if code = 200 then ''connected'' else ''HTTP '' @ nat_dec code)"

definition logs :: "'w cli \<Rightarrow> string \<Rightarrow> string" where
  "logs E home =
     (let r = ResolveCodexHome (cli_host E) home
      in if LogCount r > 0 then ''found ('' @ nat_dec (LogCount r) @ '' JSONL)'' else ''not found'')"

definition nl :: string where "nl = [CHR 0x0A]"

definition status_text :: "'w cli \<Rightarrow> Client \<Rightarrow> 'w world \<Rightarrow> string" where
  "status_text E cl w =
     (let c = cfg cl; t = cli_cycle E; r = ResolveCodexHome (cli_host E) (CodexHome c)
      in case TelemetryStatus (t_crypto t) (t_toml t) (toml_config (tomls w (pathKey (cli_host E) (Path r)))) (OTLPToken c) of
           (_, telemetryOK, fpErr) \<Rightarrow>
             ''Student      '' @ StudentName c @ nl @ ''Device       '' @ DeviceLabel c @ nl
             @ ''Agent        '' @ localAgentStatus E @ nl @ ''Server       '' @ serverStatus E (ServerURL c) @ nl
             @ ''Codex        '' @ CodexVersion (c_run t [CodexPath c, ''--version''] []) @ nl
             @ ''Codex home   '' @ Path r @ '' ('' @ Source r @ '')'' @ nl
             @ ''Telemetry    '' @ telemetryStatus telemetryOK fpErr @ nl
             @ ''Logs         '' @ logs E (CodexHome c) @ nl
             @ ''ccusage      '' @ CCUsageVersion (c_run t [CCUsagePath c, ''--version''] []) @ nl
             @ ''Queue        '' @ nat_dec (Len (queue_file w)) @ '' pending'' @ nl)"

definition status :: "'w cli \<Rightarrow> 'w command" where
  "status E args W =
     (case load E args W of
        Inl e \<Rightarrow> ([], Finished (Some e), W)
      | Inr (path, cl) \<Rightarrow> (status_text E cl (W path), Finished None, W))"

text \<open>What \<open>configure\<close> does once the configuration \<open>c\<close> is loaded.\<close>

definition configure_loaded :: "'w cli \<Rightarrow> Config \<Rightarrow> 'w world \<Rightarrow> string \<times> cli_err option \<times> 'w world" where
  "configure_loaded E c w =
     (let t = cli_cycle E; r = ResolveCodexHome (cli_host E) (CodexHome c);
          c1 = (if Path r \<noteq> [] then c\<lparr>CodexHome := Path r\<rparr> else c);
          k = pathKey (cli_host E) (CodexHome c1)
      in (case ConfigureTelemetry (t_crypto t) (t_toml t) (home_env t) (OTLPToken c1) (tomls w k) of
            ((hash, terr), fs) \<Rightarrow>
              let w1 = w\<lparr>tomls := (tomls w)(k := fs)\<rparr>
              in (case terr of
                    Some e \<Rightarrow> ([], Some (TelemetryFailed e), w1)
                  | None \<Rightarrow>
                      (case config_Save (cli_secrets E) (home_fault t) (c1\<lparr>ExpectedConfigHash := hash\<rparr>) (config_file w1) of
                         (Some e, _, s') \<Rightarrow> ([], Some (SaveFailed e), w1\<lparr>config_file := s'\<rparr>)
                       | (None, c2, s') \<Rightarrow>
                           (''Codex home   '' @ CodexHome c2 @ '' ('' @ Source r @ '', '' @ nat_dec (LogCount r) @ '' JSONL)'' @ nl,
                            None, w1\<lparr>config_file := s'\<rparr>)))))"

definition configure :: "'w cli \<Rightarrow> 'w command" where
  "configure E args W =
     (case parse_flags [''config''] Map.empty args of
        Inl e \<Rightarrow> ([], Finished (Some (FlagErr e)), W)
      | Inr m \<Rightarrow>
          let path = flag_value m ''config'' (defaultConfigPath (cli_host E))
          in (case config_Load (cli_secrets E) (config_file (W path)) of
                Inl e \<Rightarrow> ([], Finished (Some (LoadFailed e)), W)
              | Inr c \<Rightarrow> (case configure_loaded E c (W path) of (out, e, w) \<Rightarrow> (out, Finished e, W(path := w)))))"

section \<open>Dispatch\<close>

text \<open>The exit code is \<open>None\<close> while the command runs; \<open>args\<close> is \<open>os.Args\<close> without the program name.\<close>

definition exit_code :: "result \<Rightarrow> nat option" where
  "exit_code r = (case r of Running \<Rightarrow> None | Finished None \<Rightarrow> Some 0 | Finished (Some _) \<Rightarrow> Some 1)"

definition finish :: "string \<times> result \<times> (string \<Rightarrow> 'w world) \<Rightarrow> nat option \<times> string \<times> (string \<Rightarrow> 'w world)" where
  "finish x = (case x of (out, r, W) \<Rightarrow> (exit_code r, out, W))"

definition main :: "'w cli \<Rightarrow> string list \<Rightarrow> (string \<Rightarrow> 'w world) \<Rightarrow> nat option \<times> string \<times> (string \<Rightarrow> 'w world)" where
  "main E argv W =
     (case argv of
        [] \<Rightarrow> (Some 2, [], W)
      | cmd # args \<Rightarrow>
          if cmd = ''enroll'' then finish (enroll E args W)
          else if cmd = ''run'' then finish (run E args W)
          else if cmd = ''once'' then finish (once E args W)
          else if cmd = ''status'' then finish (status E args W)
          else if cmd = ''configure-telemetry'' then finish (configure E args W)
          else if cmd = ''watchdog'' then finish (watchdog E args W)
          else if cmd = ''uninstall-notice'' then finish (uninstallNotice E args W)
          else if cmd \<in> {''version'', ''--version'', ''-v''} then finish (''codex-guard '' @ Version @ nl, Finished None, W)
          else (Some 2, [], W))"

section \<open>Properties\<close>

lemma configure_loaded_saves:
  assumes "configure_loaded E c w = (out, None, w')"
  shows "queue_file w' = queue_file w"
    and "\<exists>d. dest (config_file w') = Content d \<and> Config_DeviceID d = Config_DeviceID c \<and>
      NextSequence d = (if NextSequence c = 0 then 1 else NextSequence c)"
proof -
  obtain x c' where x: "config_Save (cli_secrets E) (home_fault (cli_cycle E)) x (config_file w) = (None, c', config_file w')"
    "Config_DeviceID x = Config_DeviceID c" "NextSequence x = NextSequence c" "queue_file w' = queue_file w"
    using assms by (auto simp: configure_loaded_def Let_def split: prod.splits option.splits if_splits)
  show "queue_file w' = queue_file w" by (rule x(4))
  show "\<exists>d. dest (config_file w') = Content d \<and> Config_DeviceID d = Config_DeviceID c \<and>
      NextSequence d = (if NextSequence c = 0 then 1 else NextSequence c)"
    using config_Save_disk[OF x(1)] config_Save_fields[OF x(1)] x(2,3) by auto
qed

text \<open>
  \<open>configure-telemetry\<close> can rewind the sequence numbers of a running agent. If the agent queues a report
  between the time the command loads the configuration and the time it saves it, then the number of
  this report is the next number on disk again: a restarted agent gives it to another report, while the
  first one is still queued.
\<close>

theorem configure_rewinds_sequence:
  assumes "Config_DeviceID c = Config_DeviceID (cfg cl)" and "NextSequence c = NextSequence (cfg cl)"
    and "NextSequence c \<noteq> 0" and "pending_items (queue_file w) = Some items"
    and "enqueue t endpoint payload cl w = (None, cl1, w1)"
    and "configure_loaded E c w1 = (out, None, w2)" and "New S now (config_file w2) = Inr cl2"
  shows "\<exists>xs x ev. pending_items (queue_file w2) = Some (xs @ [x]) \<and>
    report_id (Envelope_data x) = Some (Config_DeviceID (cfg cl2), unat (NextSequence (cfg cl2)), ev)"
proof -
  obtain e where e: "pending_items (queue_file w1) =
      Some (filter (live (cl_Queue cl) (t_clock t 4)) items @ [report_item t endpoint e])"
    "DeviceID e = Config_DeviceID (cfg cl)" "Sequence e = NextSequence (cfg cl)"
    using enqueued[OF assms(5,4)] by blast
  obtain d where d: "dest (config_file w2) = Content d" "Config_DeviceID d = Config_DeviceID c" "NextSequence d = NextSequence c"
    using configure_loaded_saves(2)[OF assms(6)] assms(3) by auto
  obtain c2 where c2: "config_Load S (config_file w2) = Inr c2" "cfg cl2 = c2"
    using assms(7) by (auto simp: New_def split: sum.splits)
  have "Config_DeviceID (cfg cl2) = DeviceID e" "NextSequence (cfg cl2) = Sequence e"
    using config_Load_Content[OF c2(1) d(1)] d(2,3) assms(1-3) e(2,3) c2(2) by simp_all
  then show ?thesis
    using e(1) configure_loaded_saves(1)[OF assms(6)] by (simp add: report_item_def report_id_envelope)
qed

section \<open>Sample commands\<close>

definition sample_cli :: "json list cli" where
  "sample_cli =
     \<lparr>cli_cycle = sample_cycle None, cli_second = sample_cycle None, cli_started = Time 0,
      cli_keys = Some (''p'', ''k''), cli_is_service = Some False, cli_dispatch = True, cli_listens = True, cli_rounds = [],
      cli_get = (\<lambda>_. None)\<rparr>"

lemma sample_cli_simps [simp]:
  "cli_cycle sample_cli = sample_cycle None" "cli_secrets sample_cli = secrets_other" "cli_keys sample_cli = Some (''p'', ''k'')"
  by (simp_all add: sample_cli_def cli_secrets_def)

lemma sample_cycle_envs [simp]:
  "home_env (sample_cycle rnd) = toml_fine" "home_fault (sample_cycle rnd) = None" "save_fault_of (sample_cycle rnd) = None"
  "t_toml (sample_cycle rnd) d \<noteq> None"
  by (simp_all add: sample_cycle_def turn.defs client_turn_def)

lemma sample_configure:
  assumes "\<And>k. toml_config (tomls w k) \<noteq> NoRead"
  shows "\<exists>out w'. configure_loaded sample_cli c w = (out, None, w')"
proof -
  let ?r = "ResolveCodexHome (cli_host sample_cli) (CodexHome c)"
  let ?c = "if Path ?r \<noteq> [] then c\<lparr>CodexHome := Path ?r\<rparr> else c"
  let ?k = "pathKey (cli_host sample_cli) (CodexHome ?c)"
  obtain hash fs where "ConfigureTelemetry (t_crypto (sample_cycle None)) (t_toml (sample_cycle None)) toml_fine (OTLPToken ?c)
      (tomls w ?k) = ((hash, None), fs)"
    using configure_fine[OF assms, of "t_toml (sample_cycle None)"] sample_cycle_envs(4) by blast
  then show ?thesis
    by (simp add: configure_loaded_def Let_def config_Save_None[OF seal_other] del: if_split)
qed

lemma sample_configure_loads:
  assumes "configure_loaded sample_cli c w = (out, None, w')" and "complete c" and "ProtectedOTLPToken c = []"
  shows "\<exists>l. config_Load secrets_other (config_file w') = Inr l \<and> Config_DeviceID l = Config_DeviceID c"
proof -
  obtain x c' where x: "config_Save secrets_other None x (config_file w) = (None, c', config_file w')"
    "complete x" "ProtectedOTLPToken x = []"
    using assms by (auto simp: configure_loaded_def Let_def complete_def split: prod.splits option.splits if_splits)
  obtain l where l: "config_Load secrets_other (config_file w') = Inr l"
    using config_saved_loads[OF _ _ x(2) _ _ x(1), of Map.empty] x(3) by auto
  obtain d where "dest (config_file w') = Content d" "Config_DeviceID d = Config_DeviceID c"
    using configure_loaded_saves(2)[OF assms(1)] by blast
  with config_Load_Content(2)[OF l] l show ?thesis by simp
qed

theorem configure_rewinds_sequence_witness:
  "\<exists>cl1 w1 out w2 cl2 xs x ev.
     enqueue (client_turn NoAnswer) ''/api/v1/heartbeat'' (JObj []) sample_client (client_world []) = (None, cl1, w1) \<and>
     configure_loaded sample_cli client_config w1 = (out, None, w2) \<and> New secrets_other (Time 0) (config_file w2) = Inr cl2 \<and>
     pending_items (queue_file w2) = Some (xs @ [x]) \<and>
     report_id (Envelope_data x) = Some (''dev'', unat (NextSequence (cfg cl2)), ev)"
proof -
  obtain cl1 w1 where q: "enqueue (client_turn NoAnswer) ''/api/v1/heartbeat'' (JObj []) sample_client (client_world []) =
      (None, cl1, w1)" using client_enqueue by blast
  have "tomls w1 = tomls (client_world [])" using enqueue_keeps(5)[OF q] .
  then have "toml_config (tomls w1 k) \<noteq> NoRead" for k by (simp add: client_world_def)
  then obtain out w2 where c: "configure_loaded sample_cli client_config w1 = (out, None, w2)"
    using sample_configure by blast
  have id: "Config_DeviceID client_config = Config_DeviceID (cfg sample_client)"
    "NextSequence client_config = NextSequence (cfg sample_client)" "NextSequence client_config \<noteq> 0"
    by (simp_all add: sample_client_def)
  from sample_configure_loads[OF c client_config_loadable(2,4)] obtain cl2 where n: "New secrets_other (Time 0) (config_file w2) = Inr cl2"
    and d: "Config_DeviceID (cfg cl2) = ''dev''"
    using id by (auto simp: New_def sample_client_def)
  from configure_rewinds_sequence[OF id client_pending q c n] d q c n show ?thesis by auto
qed

section \<open>From enrollment to service\<close>

lemma Enroll_ok:
  assumes "Enroll t keys wanted (s, n) = (Inr c', s', n')"
  obtains pub priv enrolled x where "keys = Some (pub, priv)" "t_enrolled t x = Some enrolled"
    "config_Save (t_secrets t) (save_fault_of t) (Defaults (enrolled_config enrolled
       (zero_config\<lparr>ServerURL := TrimRight (ServerURL wanted) (CHR ''/''), PrivateKey := b64_encode priv,
          PublicKey := b64_encode pub, CodexHome := CodexHome wanted, CodexPath := CodexPath wanted,
          CCUsagePath := CCUsagePath wanted, AgentPath := AgentPath wanted, StateDir := StateDir wanted\<rparr>))) s = (None, c', s')"
  using assms by (auto simp: Enroll_def Let_def split: option.splits prod.splits sum.splits dest: register_enrolled)

lemma load_config: "load E [''--config'', path] W = (case New (cli_secrets E) (cli_started E) (config_file (W path)) of
    Inl e \<Rightarrow> Inl (LoadFailed e) | Inr cl \<Rightarrow> Inr (path, cl))"
  by (simp add: load_def flag_value_def)

text \<open>
  C25: enrollment installs what the service needs. After a successful \<open>enroll\<close> every later command that is
  given the same configuration path loads a client with the chosen Codex home, the new private key, the
  device id that the server has issued, and sequence number 1, also where the key is kept sealed.
\<close>

theorem enrolled_loads:
  assumes "enroll E args W = (out, Finished None, W')" and "parse_flags enroll_flags Map.empty args = Inr m"
    and "path = flag_value m ''config'' (defaultConfigPath (cli_host E))"
    and "TrimRight (flag_value m ''server'' []) (CHR ''/'') \<noteq> []"
    and "cli_secrets E = secrets_other \<or> cli_secrets E = secrets_windows pr un"
    and "\<And>v b. pr v = Some b \<Longrightarrow> un b = Some v" and "\<And>v b. pr v = Some b \<Longrightarrow> b \<noteq> []"
    and "\<And>x e. t_enrolled (cli_cycle E) x = Some e \<Longrightarrow> enr_DeviceID e \<noteq> []"
    and "\<And>pub priv. cli_keys E = Some (pub, priv) \<Longrightarrow> priv \<noteq> []"
    and "cli_secrets E2 = cli_secrets E"
  shows "\<exists>cl pub priv x e. load E2 [''--config'', path] W' = Inr (path, cl) \<and>
    CodexHome (cfg cl) = flag_value m ''codex-home'' [] \<and> NextSequence (cfg cl) = 1 \<and>
    cli_keys E = Some (pub, priv) \<and> b64_decode (PrivateKey (cfg cl)) = Some priv \<and>
    t_enrolled (cli_cycle E) x = Some e \<and> Config_DeviceID (cfg cl) = enr_DeviceID e"
proof -
  obtain wanted c' s' n' where en: "Enroll (cli_cycle E) (cli_keys E) wanted (config_file (W path), net (W path)) = (Inr c', s', n')"
    "ServerURL wanted = flag_value m ''server'' []" "CodexHome wanted = flag_value m ''codex-home'' []"
    "config_file (W' path) = s'"
    using assms(1-3) by (auto simp: enroll_def Let_def split: if_splits prod.splits sum.splits)
  obtain pub priv e x c where k: "cli_keys E = Some (pub, priv)" "t_enrolled (cli_cycle E) x = Some e"
    "config_Save (cli_secrets E) (save_fault_of (cli_cycle E)) c (config_file (W path)) = (None, c', s')"
    "ServerURL c = TrimRight (ServerURL wanted) (CHR ''/'')" "Config_DeviceID c = enr_DeviceID e" "PrivateKey c = b64_encode priv"
    "ProtectedOTLPToken c = []" "CodexHome c = CodexHome wanted" "NextSequence c = 1"
    by (rule Enroll_ok[OF en(1)]) (auto simp: cli_secrets_def enrolled_config_def zero_config_def Defaults_def)
  have "b64_encode priv \<noteq> []"
    using assms(9)[OF k(1)] b64_decode_encode[of priv] b64_decode_encode[of "[]"] by (metis b64_encode.simps(1) option.inject)
  then have "complete c" using k(4-6) en(2) assms(4) assms(8)[OF k(2)] by (simp add: complete_def)
  have "\<exists>l. config_Load (cli_secrets E) s' = Inr l \<and> complete l \<and> l\<lparr>ProtectedPrivateKey := [], ProtectedOTLPToken := []\<rparr> =
      (Defaults c)\<lparr>ProtectedPrivateKey := [], ProtectedOTLPToken := [], KeyProtection := protectionName (cli_secrets E)\<rparr>"
    by (rule config_saved_loads[OF assms(5) _ _ _ _ k(3)]) (use \<open>complete c\<close> k(7) assms(6,7) in auto)
  then obtain l where l: "config_Load (cli_secrets E) s' = Inr l"
    "l\<lparr>ProtectedPrivateKey := [], ProtectedOTLPToken := []\<rparr> =
       (Defaults c)\<lparr>ProtectedPrivateKey := [], ProtectedOTLPToken := [], KeyProtection := protectionName (cli_secrets E)\<rparr>"
    by blast
  have "CodexHome l = CodexHome c" "NextSequence l = 1" "PrivateKey l = PrivateKey c" "Config_DeviceID l = Config_DeviceID c"
    using arg_cong[OF l(2), of CodexHome] arg_cong[OF l(2), of NextSequence] arg_cong[OF l(2), of PrivateKey]
      arg_cong[OF l(2), of Config_DeviceID] k(9) by simp_all
  with l(1) k en(3,4) assms(10) b64_decode_encode[of priv] show ?thesis
    by (intro exI[of _ "\<lparr>cfg = l, cl_Queue = New_queue (RetentionDays l), started = cli_started E2, quota = None,
        quotaRead = zero_time, homeRead = zero_time, homeSource = [], homeAuto = False\<rparr>"] exI[of _ pub] exI[of _ priv]
        exI[of _ x] exI[of _ e]) (simp add: load_config New_def)
qed

definition enroll_args :: "string list" where
  "enroll_args = [''--server'', ''https://s'', ''--name=n'', ''-device-label'', ''l'', ''--codex-home'', ''/h'', ''--config'', ''/c'']"

lemma enroll_args_parse:
  "\<exists>m. parse_flags enroll_flags Map.empty enroll_args = Inr m \<and> flag_value m ''server'' [] = ''https://s'' \<and>
     flag_value m ''name'' [] = ''n'' \<and> flag_value m ''device-label'' [] = ''l'' \<and> flag_value m ''codex-home'' [] = ''/h'' \<and>
     (\<forall>d. flag_value m ''config'' d = ''/c'')"
  by (simp add: enroll_args_def enroll_flags_def flag_value_def Let_def)

lemma sample_enrolls: "\<exists>e. \<forall>x n s name label key. register (sample_cycle rnd) s name label key n = (Inr e, n) \<and>
    t_enrolled (sample_cycle rnd) x = Some e \<and> enr_DeviceID e = ''dev2''"
  by (simp add: register_def sample_cycle_def turn.defs client_turn_def Let_def)

theorem enrolled_loads_witness:
  "\<exists>out W' cl. enroll sample_cli enroll_args (\<lambda>_. client_world []) = (out, Finished None, W') \<and>
     load sample_cli [''--config'', ''/c''] W' = Inr (''/c'', cl) \<and> CodexHome (cfg cl) = ''/h'' \<and> NextSequence (cfg cl) = 1"
proof -
  obtain m where m: "parse_flags enroll_flags Map.empty enroll_args = Inr m" "flag_value m ''server'' [] = ''https://s''"
    "flag_value m ''name'' [] = ''n''" "flag_value m ''device-label'' [] = ''l''" "flag_value m ''codex-home'' [] = ''/h''"
    "\<And>d. flag_value m ''config'' d = ''/c''"
    using enroll_args_parse by blast
  obtain e where e: "\<And>x n s name label key. register (sample_cycle None) s name label key n = (Inr e, n)"
    "\<And>x. t_enrolled (sample_cycle None) x = Some e" "enr_DeviceID e = ''dev2''"
    using sample_enrolls[of None] by blast
  have t: "TrimSpace ''n'' \<noteq> []" "TrimSpace ''l'' \<noteq> []" "TrimRight ''https://s'' (CHR ''/'') \<noteq> []" by code_simp+
  obtain out W' where en: "enroll sample_cli enroll_args (\<lambda>_. client_world []) = (out, Finished None, W')"
    using m t by (simp add: enroll_def Enroll_def e Let_def config_Save_None[OF seal_other])
  have "t_enrolled (cli_cycle sample_cli) x = Some e' \<Longrightarrow> enr_DeviceID e' \<noteq> []" for x e' using e by simp
  moreover have "cli_keys sample_cli = Some (pub, priv) \<Longrightarrow> priv \<noteq> []" for pub priv by auto
  ultimately obtain cl where "load sample_cli [''--config'', ''/c''] W' = Inr (''/c'', cl)" "CodexHome (cfg cl) = ''/h''"
    "NextSequence (cfg cl) = 1"
    using enrolled_loads[OF en m(1) m(6)[symmetric], of Map.empty Map.empty sample_cli] m(2,5) t(3) by auto
  with en show ?thesis by blast
qed

end
