(* ===== verification/Spec2Isabelle.thy ===== *)
theory Spec2Isabelle
  imports Intake Lifetime Cli
begin

text \<open>
  \<^bold>\<open>codex-guard\<close>, the agent of this repository (\<open>agent/codex-guard\<close>, Go), runs on a student's
  machine, watches the session logs of Codex, and sends signed reports to a class server. This
  development models the agent and the part of the server's contract it relies on, and proves what its parts
  promise and where they do not keep it.

  \<^bold>\<open>How the program works.\<close> \<open>main.go\<close> dispatches a command. \<open>enroll\<close> creates a key, registers the device and writes the
  configuration; \<open>run\<close> starts the loop of \<open>run.go\<close>, under the Windows service handler where there is one. The
  loop attempts four operations: usage from the local OTLP collector, usage from \<open>ccusage\<close>, the
  integrity scan of the logs, and the heartbeat. Each builds a payload, signs it under the next sequence
  number, which is saved before it is used, appends it to the durable queue and delivers the queue from its
  head. Four state files are written by one save protocol. The watchdog of the service manager restarts
  a stopped service.

  \<^bold>\<open>Theories\<close>, in the order of their imports:

  \<^item> \<open>Prelude\<close>: instants and durations with the saturation and wrap-around of Go, strings as byte lists
    with the functions of \<open>strings\<close> the code uses, and the locale \<open>sort_contract\<close> for comparison sorts.
  \<^item> \<open>Encoding\<close>, \<open>JsonText\<close>: decimal, hexadecimal and base64 texts with their round trips, \<open>ParseUint\<close>,
    quoted strings as \<open>json.Marshal\<close> writes them, JSON numbers and their rounding to \<open>float64\<close>, the record
    \<open>crypto\<close> for SHA-256 and Ed25519.
  \<^item> \<open>Protocol\<close> (\<open>internal/protocol\<close>): JSON values, \<open>CanonicalJSON\<close>, the signed message, \<open>Sign\<close>. Canonical texts are
    uniquely readable, so the signature binds every field.
  \<^item> \<open>AtomicFile\<close> (\<open>internal/atomicfile\<close>): a state file with its temporary file and the save protocol as a list of
    steps. \<open>write_replace\<close>, the save of every store, runs the list under a fault of one step; a kill stops it after
    some steps; histories of both end with the value last committed. The locale \<open>atomic_store\<close> is the contract.
  \<^item> \<open>Queue\<close> (\<open>internal/queue\<close>): \<open>Push\<close>, \<open>Peek\<close>, \<open>Pop\<close>, \<open>Clear\<close>; the locale \<open>durable_queue\<close> is the contract the client uses.
  \<^item> \<open>Config\<close> (\<open>internal/config\<close>): defaults, \<open>Load\<close>, \<open>Save\<close>, sealed secrets on Windows and plain ones elsewhere.
  \<^item> \<open>FileTree\<close>: directory trees, the order of \<open>WalkDir\<close>, the POSIX functions of \<open>filepath\<close>.
  \<^item> \<open>CodexHome\<close> (\<open>codexhome.go\<close>): which Codex home is used. \<open>Telemetry\<close> (\<open>detect.go\<close>): the \<open>[otel]\<close> section of \<open>config.toml\<close>.
  \<^item> \<open>Integrity\<close> (\<open>integrity.go\<close>): discovery of logs, checkpoints, comparison, moves, deletions, the hash chain.
  \<^item> \<open>Otel\<close> (\<open>otel.go\<close>): ingestion, the store of totals and seen hashes, the request handler; what a request adds to
    each counter of each day.
  \<^item> \<open>Quota\<close> (\<open>quota.go\<close>): the newest valid rate-limit reading, against the lines of a file's tail specified by their
    positions (\<open>tail_line\<close>). \<open>Posture\<close> (\<open>posture*.go\<close>): what the agent sees of its installation.
  \<^item> \<open>Client\<close> (\<open>client.go\<close>): start, enrollment, home refresh, \<open>enqueue\<close>, \<open>Flush\<close>, re-enrollment. \<open>flush_run\<close> is the
    delivery loop as a relation with the list of posted items; the loop itself is a total function.
  \<^item> \<open>Receiver\<close>: the locale \<open>report_receiver\<close>, the contract of the server, interpreted on a model of \<open>verified\<close> of
    \<open>server/app/main.py\<close> behind a network that loses messages. \<open>Delivery\<close>: the agent in time, a step
    relation with crashes, restarts and database resets, and its invariant \<open>consistent\<close>. \<open>Journey\<close>: the same steps
    with labels, and the account of what becomes of each queued report.
  \<^item> \<open>Reports\<close>: \<open>Heartbeat\<close>, \<open>SecurityEvent\<close>, \<open>Usage\<close>, \<open>OTelUsage\<close>, \<open>Integrity\<close> and their payloads.
  \<^item> \<open>RunLoop\<close> (\<open>run.go\<close>): the loop and its traces; the locale \<open>config_invariant\<close> says once what every operation
    does to the configuration, and is interpreted for the report intervals and for a loadable file.
  \<^item> \<open>Service\<close> (\<open>service_*.go\<close>): the watchdogs and the Windows service handler. \<open>Cli\<close> (\<open>main.go\<close>): flags and commands.
  \<^item> \<open>Lifetime\<close>: the operations of \<open>Reports\<close>, \<open>RunLoop\<close> and \<open>Service\<close> against the steps of \<open>Delivery\<close>. In the context of
    \<open>report_receiver\<close>, \<open>does k\<close> says that an operation is a sequence of steps that takes at most \<open>k\<close> sequence numbers;
    it is proved for each operation and composed along the loop.
  \<^item> \<open>Verifier\<close>: \<open>canonical_payload\<close> and \<open>signature_message\<close> of \<open>server/app/security.py\<close> against \<open>CanonicalJSON\<close> and the
    message the agent signs; \<open>Client\<close> and \<open>Intake\<close> use it.
  \<^item> \<open>ChainAudit\<close>: the handler \<open>/api/v1/integrity\<close> of \<open>main.py\<close> and its schema in \<open>schemas.py\<close> on the reports that
    \<open>ScanIntegrity\<close> makes, so the chain of snapshots is checked from end to end. \<open>Intake\<close>: the whole routes of
    heartbeats and usage reports (schema of the envelope, \<open>verified\<close> with the signature over the server's message,
    payload, database columns) on what the agent queues; \<open>report_receiver\<close> is interpreted on them too.

  \<^bold>\<open>State.\<close> A \<open>Client\<close> is the memory of the process (the \<open>Client\<close> struct), a \<open>world\<close> what survives it: the
  configuration, the queue, the integrity state, the OTel store, the \<open>config.toml\<close> of each home and the state
  of the server. An operation takes a \<open>turn\<close>, what the environment answers during it (clock, randomness, faults,
  HTTP answers as functions on the server's state), or a \<open>cycle\<close>, which adds what the payloads read. Errors are
  values: every early return of the source is a branch. A fault of a save is an argument, so each theorem
  holds for every fault unless it says otherwise. The mutexes make the operations of one
  process atomic; two processes are modelled where the commands allow them.

  \<^bold>\<open>Bounds and termination.\<close> Sequence numbers and token counts are 64-bit words, durations wrap and \<open>Sub\<close>
  saturates as in Go, integers in canonical JSON go through \<open>float64\<close>. All functions are total: \<open>Flush\<close>
  terminates because each pass of its loop, \<open>flush_pass\<close>, returns or takes an item off the queue (\<open>flush_terminates\<close>
  bounds the passes by the length of the queue), and no definition of the code has fuel.
  The loop of \<open>Run\<close> does not end by itself; it is a function of the finite list of rounds seen so far. In
  \<open>ChainAudit\<close> the sizes and times are below \<open>2^53\<close>, where \<open>float64\<close> is exact, and at most 500 logs are scanned at a time,
  since each log of the scan and each deleted one can give a finding and the schema accepts 1000.

  \<^bold>\<open>What is shown.\<close> The agent never raises the replay alarm and never reuses a number, through any history of
  crashes, lost messages and resets (\<open>Delivery\<close>), with one process per configuration: with two, and with
  \<open>configure-telemetry\<close> beside a running agent, numbers clash. Every run of the loop is such a history. Delivery is
  in order and empties the queue when the server accepts; along a history each report is still queued, processed,
  expired, or dropped with a device the server has lost. A report that is refused for good blocks the queue. Reports are
  attempted on schedule, and the agent can be restarted after any failure. Appending to logs is
  never reported, other changes always are, up to SHA-256 collisions; but a report that cannot be queued takes
  its findings with it. The server finds nothing wrong with the chain of an honest agent, and notices a scan whose
  report it has not seen, a deleted and a restored state file; the findings of a mass deletion it refuses. Of the
  other reports it refuses those whose quota reading or number of days is out of its bounds, which the agent does not
  check. Requests to the collector are counted once, on the right day, and leave no prompt text. Over any history of
  saves, faults and kills a state file holds the value last committed. What the agent signs is what the
  server recomputes, for text without the characters that Go escapes for HTML.

  \<^bold>\<open>Not modelled\<close>: the JSON text of the state files (a file is what \<open>json.Unmarshal\<close> makes of it), the TOML
  parser, DPAPI, SHA-256 and Ed25519 (parameters with the assumptions named in each theorem; hash collisions
  appear as an explicit alternative), symbolic links, Windows path syntax (a parameter), white space and
  letter case beyond ASCII, the transport below a POST, time zone data, negative zero, the output of
  \<open>ccusage\<close>, and the server beyond the parts above: event payloads, posture alarms, dashboard, alerts, and of the database
  everything but the range of its integer columns and whether a transaction goes through, with the
  conversions of pydantic and the texts that \<open>fromisoformat\<close> reads as parameters or assumptions.
  The shutdown of the local collector when the context ends, its HTTP transport and the usage line of \<open>main.go\<close> are the only
  statements of the agent without a definition.
  Installers, packaging scripts and documentation are not part of the program modelled here.
\<close>

end
